(* ===== verification/Spectre_Prelude.thy ===== *)
theory Spectre_Prelude
  imports Main "HOL-Library.List_Lexorder" "HOL-Library.Char_ord"
begin

text \<open>
  Shared vocabulary of the SPECTRE development.

  \<^item> Go errors are values: an operation that can fail returns \<open>'a result\<close>, with \<open>Inl\<close> of
    the error text. \<open>wrap\<close> is the text that \<open>errors.Wrap\<close> gives.
  \<^item> A Go map whose iteration order matters (a JSON object, a TOML table) is an association
    list with strictly increasing keys, so that two maps are equal exactly when the lists are.
  \<^item> \<open>go_quote\<close> is \<open>strconv.Quote\<close> (and \<open>%q\<close>) on byte strings; bytes above 127 are copied, as
    they are for printable UTF-8 text.
  \<^item> \<open>reach\<close> and the locale \<open>invariant_system\<close> give reachable states of a step relation and the
    induction that turns a preserved predicate into an invariant.
\<close>

named_theorems step_defs \<open>operations of the state machines\<close>
named_theorems inv_defs \<open>invariants of the state machines\<close>

type_synonym 'a result = "string + 'a"
type_synonym time = int
type_synonym duration = int

definition wrap :: "string \<Rightarrow> string \<Rightarrow> string" where
  "wrap msg err = msg @ '': '' @ err"

fun is_err :: "'a result \<Rightarrow> bool" where
  "is_err (Inl _) = True"
| "is_err (Inr _) = False"

definition bind_result :: "'a result \<Rightarrow> ('a \<Rightarrow> 'b result) \<Rightarrow> 'b result" where
  "bind_result r f = (case r of Inl e \<Rightarrow> Inl e | Inr x \<Rightarrow> f x)"

lemma bind_result_simps [simp]:
  "bind_result (Inl e) f = Inl e"
  "bind_result (Inr x) f = f x"
  by (simp_all add: bind_result_def)

lemma bind_result_Inr [simp]:
  "bind_result r f = Inr y \<longleftrightarrow> (\<exists>x. r = Inr x \<and> f x = Inr y)"
  by (cases r) auto

subsection \<open>Text\<close>

definition digit_char :: "nat \<Rightarrow> char" where
  "digit_char n = (if n < 10 then char_of (48 + n) else char_of (87 + n))"

fun show_nat :: "nat \<Rightarrow> string" where
  "show_nat n = (if n < 10 then [digit_char n] else show_nat (n div 10) @ [digit_char (n mod 10)])"

declare show_nat.simps [simp del]

definition show_int :: "int \<Rightarrow> string" where
  "show_int i = (if i < 0 then CHR ''-'' # show_nat (nat (- i)) else show_nat (nat i))"

fun join :: "string \<Rightarrow> string list \<Rightarrow> string" where
  "join sep [] = []"
| "join sep [s] = s"
| "join sep (s # t # ts) = s @ sep @ join sep (t # ts)"

text \<open>The escapes of \<open>strconv.Quote\<close>, byte by byte.\<close>

definition quote_char :: "char \<Rightarrow> string" where
  "quote_char c =
     (let n = (of_char c :: nat) in
      if n = 34 then [CHR 0x5C, CHR 0x22]
      else if n = 92 then [CHR 0x5C, CHR 0x5C]
      else if n = 7 then [CHR 0x5C, CHR ''a'']
      else if n = 8 then [CHR 0x5C, CHR ''b'']
      else if n = 12 then [CHR 0x5C, CHR ''f'']
      else if n = 10 then [CHR 0x5C, CHR ''n'']
      else if n = 13 then [CHR 0x5C, CHR ''r'']
      else if n = 9 then [CHR 0x5C, CHR ''t'']
      else if n = 11 then [CHR 0x5C, CHR ''v'']
      else if n < 32 \<or> n = 127 then [CHR 0x5C, CHR ''x'', digit_char (n div 16), digit_char (n mod 16)]
      else [c])"

definition go_quote :: "string \<Rightarrow> string" where
  "go_quote s = CHR 0x22 # concat (map quote_char s) @ [CHR 0x22]"

text \<open>The first character a quoted text stands for, and the rest of the text.\<close>

definition undigit :: "char \<Rightarrow> nat" where
  "undigit c = (let n = (of_char c :: nat) in if n < 87 then n - 48 else n - 87)"

fun unquote_char :: "string \<Rightarrow> (char \<times> string) option" where
  "unquote_char [] = None"
| "unquote_char (c # s) =
     (if c = CHR 0x22 then None
      else if c \<noteq> CHR 0x5C then Some (c, s)
      else case s of
        [] \<Rightarrow> None
      | e # t \<Rightarrow>
          (if e = CHR ''a'' then Some (char_of (7::nat), t)
           else if e = CHR ''b'' then Some (char_of (8::nat), t)
           else if e = CHR ''f'' then Some (char_of (12::nat), t)
           else if e = CHR ''n'' then Some (char_of (10::nat), t)
           else if e = CHR ''r'' then Some (char_of (13::nat), t)
           else if e = CHR ''t'' then Some (char_of (9::nat), t)
           else if e = CHR ''v'' then Some (char_of (11::nat), t)
           else if e = CHR ''x'' then
             (case t of
                h # l # u \<Rightarrow> Some (char_of (16 * undigit h + undigit l), u)
              | _ \<Rightarrow> None)
           else Some (e, t)))"

lemma of_digit_char: "n < 16 \<Longrightarrow> (of_char (digit_char n) :: nat) = (if n < 10 then 48 + n else 87 + n)"
  by (simp add: digit_char_def)

lemma undigit_digit [simp]: "n < 16 \<Longrightarrow> undigit (digit_char n) = n"
  by (auto simp: undigit_def Let_def of_digit_char)

definition is_digit :: "char \<Rightarrow> bool" where
  "is_digit c \<longleftrightarrow> CHR ''0'' \<le> c \<and> c \<le> CHR ''9''"

lemma is_digit_digit_char: "n < 10 \<Longrightarrow> is_digit (digit_char n)"
  by (simp add: is_digit_def less_eq_char_def digit_char_def)

lemma show_nat_digits: "c \<in> set (show_nat n) \<Longrightarrow> is_digit c"
proof (induction n rule: show_nat.induct)
  case (1 n)
  then show ?case
    by (subst (asm) show_nat.simps) (auto simp: is_digit_digit_char split: if_splits)
qed

lemma show_nat_ne [simp]: "show_nat n \<noteq> []"
  by (subst show_nat.simps) simp

lemma show_nat_value: "foldl (\<lambda>a c. 10 * a + undigit c) 0 (show_nat n) = n"
proof (induction n rule: show_nat.induct)
  case (1 n)
  then show ?case by (subst show_nat.simps) auto
qed

lemma show_nat_inject [simp]: "show_nat m = show_nat n \<longleftrightarrow> m = n"
  by (metis show_nat_value)

lemma char_eq_of_nat: "c = d \<longleftrightarrow> (of_char c :: nat) = of_char d"
  by (metis char_of_char)

lemma unquote_quote_char [simp]: "unquote_char (quote_char c @ s) = Some (c, s)"
proof -
  define n where "n = (of_char c :: nat)"
  have c: "c = char_of n" by (simp add: n_def)
  have n: "n < 256" by (simp add: n_def)
  show ?thesis
  proof (cases "n < 32 \<or> n = 34 \<or> n = 92 \<or> n = 127")
    case False
    then have "c \<noteq> CHR 0x22" "c \<noteq> CHR 0x5C" by (auto simp: n_def)
    with False show ?thesis
      by (simp add: quote_char_def n_def [symmetric] Let_def)
  next
    case True
    have hex: "char_of (16 * (n div 16) + n mod 16) = c" by (simp add: c)
    have "n div 16 < 16" using n by simp
    moreover have "char_of (34 :: nat) = CHR 0x22" "char_of (92 :: nat) = CHR 0x5C"
      by (simp_all add: char_eq_of_nat)
    ultimately show ?thesis using True hex
      by (auto simp: quote_char_def n_def [symmetric] Let_def c)
  qed
qed

lemma quote_char_prefix:
  "quote_char c @ s = quote_char d @ t \<Longrightarrow> c = d \<and> s = t"
  by (metis option.inject prod.inject unquote_quote_char)

lemma quote_char_not_quote: "quote_char c @ s \<noteq> CHR 0x22 # t"
  by (metis option.discI unquote_char.simps(2) unquote_quote_char)

lemma quote_body_prefix:
  "concat (map quote_char a) @ CHR 0x22 # s = concat (map quote_char b) @ CHR 0x22 # t \<Longrightarrow>
   a = b \<and> s = t"
proof (induction a arbitrary: b)
  case Nil
  show ?case
  proof (cases b)
    case (Cons d b')
    with Nil have "quote_char d @ (concat (map quote_char b') @ CHR 0x22 # t) = CHR 0x22 # s" by simp
    then show ?thesis using quote_char_not_quote by blast
  qed (use Nil in simp)
next
  case (Cons c a)
  note eq = Cons.prems
  show ?case
  proof (cases b)
    case Nil
    with eq have "quote_char c @ (concat (map quote_char a) @ CHR 0x22 # s) = CHR 0x22 # t" by simp
    then show ?thesis using quote_char_not_quote by blast
  next
    case b: (Cons d b')
    with eq have "quote_char c @ (concat (map quote_char a) @ CHR 0x22 # s) =
          quote_char d @ (concat (map quote_char b') @ CHR 0x22 # t)" by simp
    from quote_char_prefix [OF this] Cons.IH [of b'] b show ?thesis by simp
  qed
qed

text \<open>A quoted text ends where its closing quote is, so quoted parts stay unambiguous.\<close>

lemma go_quote_prefix: "go_quote a @ s = go_quote b @ t \<Longrightarrow> a = b \<and> s = t"
  using quote_body_prefix [of a s b t] by (simp add: go_quote_def)

lemma go_quote_inject [simp]: "go_quote a = go_quote b \<longleftrightarrow> a = b"
  using go_quote_prefix [of a "[]" b "[]"] by auto

subsection \<open>Maps with ordered keys\<close>

definition keys :: "('k \<times> 'v) list \<Rightarrow> 'k list" where
  "keys m = map fst m"

definition ordered_map :: "('k::linorder \<times> 'v) list \<Rightarrow> bool" where
  "ordered_map m \<longleftrightarrow> sorted_wrt (<) (keys m)"

fun map_put :: "'k::linorder \<Rightarrow> 'v \<Rightarrow> ('k \<times> 'v) list \<Rightarrow> ('k \<times> 'v) list" where
  "map_put k v [] = [(k, v)]"
| "map_put k v ((k', v') # m) =
     (if k < k' then (k, v) # (k', v') # m
      else if k = k' then (k, v) # m
      else (k', v') # map_put k v m)"

definition map_del :: "'k \<Rightarrow> ('k \<times> 'v) list \<Rightarrow> ('k \<times> 'v) list" where
  "map_del k m = filter (\<lambda>p. fst p \<noteq> k) m"

lemma keys_simps [simp]: "keys [] = []" "keys ((k, v) # m) = k # keys m"
  by (simp_all add: keys_def)

lemma ordered_map_Nil [simp]: "ordered_map []"
  by (simp add: ordered_map_def)

lemma ordered_map_Cons [simp]:
  "ordered_map ((k, v) # m) \<longleftrightarrow> (\<forall>k' \<in> set (keys m). k < k') \<and> ordered_map m"
  by (simp add: ordered_map_def)

lemma set_keys_put [simp]: "set (keys (map_put k v m)) = insert k (set (keys m))"
  by (induction m) (auto split: if_splits)

lemma ordered_map_put [simp]: "ordered_map m \<Longrightarrow> ordered_map (map_put k v m)"
  by (induction m) (force split: if_splits)+

lemma set_keys_del [simp]: "set (keys (map_del k m)) = set (keys m) - {k}"
  by (auto simp: map_del_def keys_def)

lemma ordered_map_del [simp]: "ordered_map m \<Longrightarrow> ordered_map (map_del k m)"
  by (induction m) (auto simp: map_del_def keys_def)

lemma map_of_del [simp]: "map_of (map_del k m) = (map_of m)(k := None)"
  by (induction m) (auto simp: map_del_def)

lemma map_of_in_keys: "map_of m k = Some v \<Longrightarrow> k \<in> set (keys m)"
  by (induction m) (auto split: if_splits)

lemma map_of_None_keys: "map_of m k = None \<longleftrightarrow> k \<notin> set (keys m)"
  by (simp add: keys_def map_of_eq_None_iff)

lemma map_of_put [simp]: "ordered_map m \<Longrightarrow> map_of (map_put k v m) = (map_of m)(k \<mapsto> v)"
proof (induction m)
  case (Cons p m)
  obtain k' v' where p: "p = (k', v')" by (cases p)
  have "map_of m k = None" if "k < k'"
    using Cons.prems that unfolding p map_of_None_keys by auto
  with Cons p show ?case by (auto simp: fun_upd_twist)
qed simp

lemma keys_distinct: "ordered_map m \<Longrightarrow> distinct (keys m)"
  by (induction m) auto

lemma keys_sorted: "ordered_map m \<Longrightarrow> sorted (keys m)"
  by (auto simp: ordered_map_def intro: strict_sorted_imp_sorted)

text \<open>Maps are equal when they answer every lookup alike: the order hides nothing.\<close>

lemma ordered_map_ext:
  assumes "ordered_map m" "ordered_map m'" "\<And>k. map_of m k = map_of m' k"
  shows "m = m'"
proof -
  have dom: "set (keys m) = set (keys m')"
    using assms(3) map_of_None_keys [of m] map_of_None_keys [of m'] by force
  have ks: "keys m = keys m'"
    using assms(1,2) dom keys_distinct keys_sorted sorted_distinct_set_unique by blast
  have canon: "map (\<lambda>k. (k, the (map_of m k))) (keys m) = m" if "ordered_map m" for m :: "('a \<times> 'b) list"
    using keys_distinct [OF that] unfolding keys_def map_map
    by (intro map_idI) (auto simp: map_of_is_SomeI)
  have "m = map (\<lambda>k. (k, the (map_of m k))) (keys m)"
    by (rule canon [OF assms(1), symmetric])
  also have "\<dots> = map (\<lambda>k. (k, the (map_of m' k))) (keys m')"
    by (simp only: ks assms(3))
  also have "\<dots> = m'" by (rule canon [OF assms(2)])
  finally show ?thesis .
qed

lemma ordered_map_ext_iff:
  "ordered_map m \<Longrightarrow> ordered_map m' \<Longrightarrow> m = m' \<longleftrightarrow> (\<forall>k. map_of m k = map_of m' k)"
  using ordered_map_ext by blast

subsection \<open>Reachable states\<close>

inductive reach :: "'s \<Rightarrow> ('s \<Rightarrow> 's \<Rightarrow> bool) \<Rightarrow> 's \<Rightarrow> bool" for init step where
  reach_init: "reach init step init"
| reach_step: "reach init step s \<Longrightarrow> step s t \<Longrightarrow> reach init step t"

locale invariant_system =
  fixes init :: 's
    and step :: "'s \<Rightarrow> 's \<Rightarrow> bool"
    and inv :: "'s \<Rightarrow> bool"
  assumes inv_init: "inv init"
    and inv_step: "step s t \<Longrightarrow> inv s \<Longrightarrow> inv t"
begin

lemma reach_inv: "reach init step s \<Longrightarrow> inv s"
  by (induction rule: reach.induct) (auto intro: inv_init inv_step)

text \<open>A second predicate may rest on the invariant when its own preservation is shown.\<close>

lemma reach_strengthen:
  assumes "reach init step s" "P init"
    and "\<And>s t. step s t \<Longrightarrow> inv s \<Longrightarrow> P s \<Longrightarrow> P t"
  shows "P s"
  using assms(1)
proof (induction rule: reach.induct)
  case (reach_step s t)
  with reach_inv assms(3) show ?case by blast
qed (rule assms(2))

end

end
