(* ===== verification/Spectre_Model.thy ===== *)
theory Spectre_Model
  imports Spectre_Prelude "HOL-Library.Word"
begin

text \<open>
  The data model of \<open>internal/model\<close>: traffic, differences, quarantines, the state a mirror
  streams, its call counts, and the filter of the list API.

  Directions, protocols and routes are Go strings and stay strings, because the code orders
  them and uses them as keys. The other string enumerations are datatypes whose last
  constructor stands for any other text, so that every default branch is kept. A Go map with
  string keys is an ordered association list.
\<close>

subsection \<open>Traffic\<close>

type_synonym direction = string
type_synonym protocol = string
type_synonym route = string

abbreviation Ingress :: direction where "Ingress \<equiv> ''ingress''"
abbreviation Egress :: direction where "Egress \<equiv> ''egress''"
abbreviation ProtocolHTTP :: protocol where "ProtocolHTTP \<equiv> ''http''"

record iokind =
  k_direction :: direction
  k_protocol :: protocol

definition IOKind_String :: "iokind \<Rightarrow> string" where
  "IOKind_String k = k_direction k @ ''['' @ k_protocol k @ '']''"

record traffic =
  tr_direction :: direction
  tr_protocol :: protocol
  tr_route :: route

subsection \<open>Differences\<close>

datatype change = ChangeMissing | ChangeAdded | ChangeChanged | ChangeRetyped | ChangeOther string

fun mark :: "change \<Rightarrow> string" where
  "mark ChangeMissing = ''-''"
| "mark ChangeAdded = ''+''"
| "mark ChangeChanged = ''~''"
| "mark ChangeRetyped = ''!''"
| "mark (ChangeOther _) = ''?''"

fun change_text :: "change \<Rightarrow> string" where
  "change_text ChangeMissing = ''missing''"
| "change_text ChangeAdded = ''added''"
| "change_text ChangeChanged = ''changed''"
| "change_text ChangeRetyped = ''retyped''"
| "change_text (ChangeOther s) = s"

datatype json_type =
  JSONNull | JSONBoolean | JSONNumber | JSONString | JSONObject | JSONList | JSONTypeOther string

fun json_type_text :: "json_type \<Rightarrow> string" where
  "json_type_text JSONNull = ''null''"
| "json_type_text JSONBoolean = ''boolean''"
| "json_type_text JSONNumber = ''number''"
| "json_type_text JSONString = ''string''"
| "json_type_text JSONObject = ''object''"
| "json_type_text JSONList = ''list''"
| "json_type_text (JSONTypeOther s) = s"

record retype =
  rt_reference :: json_type
  rt_candidate :: json_type

record difference =
  d_path :: string
  d_change :: change
  d_retype :: "retype option"
  d_count :: int

text \<open>The UTF-8 bytes of the arrow, the times sign and the ellipsis that the texts hold.\<close>

definition arrow_text :: string where "arrow_text = [CHR 0xE2, CHR 0x86, CHR 0x92]"
definition times_text :: string where "times_text = [CHR 0xC3, CHR 0x97]"
definition ellipsis_text :: string where "ellipsis_text = [CHR 0xE2, CHR 0x80, CHR 0xA6]"

definition Difference_String :: "difference \<Rightarrow> string" where
  "Difference_String d =
     mark (d_change d) @ '' '' @ d_path d
     @ (case d_retype d of
          Some r \<Rightarrow> '' '' @ json_type_text (rt_reference r) @ '' '' @ arrow_text @ '' ''
                    @ json_type_text (rt_candidate r)
        | None \<Rightarrow> [])
     @ (if d_count d > 1 then '' '' @ times_text @ show_nat (nat (d_count d)) else [])"

definition DifferenceLines :: "difference list \<Rightarrow> bool \<Rightarrow> string list" where
  "DifferenceLines ds truncated =
     map Difference_String ds @ (if truncated then [ellipsis_text @ '' more''] else [])"

subsection \<open>Quarantines\<close>

datatype quarantine_kind =
  QuarantineDivergent | QuarantineUnable | QuarantineUnmatched | QuarantineUnlisted
  | QuarantineCapacity | QuarantinePairing | QuarantineKindOther string

record quarantine_reason =
  r_kind :: quarantine_kind
  r_traffic :: "traffic option"
  r_node :: "string option"
  r_differences :: "difference list"
  r_truncated :: bool
  r_detail :: string

definition QuarantineReason_String :: "quarantine_reason \<Rightarrow> string" where
  "QuarantineReason_String r =
     (if r_kind r = QuarantineDivergent
      then ''response differences: '' @ join '', '' (DifferenceLines (r_differences r) (r_truncated r))
      else r_detail r)"

record quarantine =
  q_reason :: quarantine_reason
  q_since :: time

text \<open>A reason built by a Go composite literal that leaves every other field zero.\<close>

definition plain_reason :: "quarantine_kind \<Rightarrow> traffic option \<Rightarrow> string \<Rightarrow> quarantine_reason" where
  "plain_reason k t d =
     \<lparr>r_kind = k, r_traffic = t, r_node = None, r_differences = [], r_truncated = False, r_detail = d\<rparr>"

subsection \<open>Call counts, mirror states and updates\<close>

type_synonym u64 = "64 word"

record calls =
  c_routes :: "(route \<times> u64) list"
  c_other :: u64

definition Calls_Equal :: "calls \<Rightarrow> calls \<Rightarrow> bool" where
  "Calls_Equal c d \<longleftrightarrow>
     c_other c = c_other d \<and> length (c_routes c) = length (c_routes d)
     \<and> (\<forall>(r, n) \<in> set (c_routes c). map_of (c_routes d) r = Some n)"

record mirror_state =
  s_service :: string
  s_environment :: string
  s_revision :: string
  s_spectre_version :: string
  s_uptime :: duration
  s_quarantines :: "(direction \<times> quarantine) list"
  s_calls :: calls

definition Quarantined :: "mirror_state \<Rightarrow> direction \<Rightarrow> quarantine \<Rightarrow> mirror_state" where
  "Quarantined s d q = s\<lparr>s_quarantines := map_put d q (s_quarantines s)\<rparr>"

datatype update =
  UpdateState mirror_state
  | UpdateQuarantine direction quarantine
  | UpdateCalls calls

subsection \<open>Divergences and their filter\<close>

record divergence =
  v_service :: string
  v_environment :: string
  v_revision :: string
  v_direction :: direction
  v_quarantine :: quarantine

record divergence_filter =
  f_service :: "string option"
  f_environment :: "string option"
  f_revision :: "string option"
  f_node :: "string option"

definition matches :: "string option \<Rightarrow> string option \<Rightarrow> bool" where
  "matches flt value = (case flt of None \<Rightarrow> True | Some expected \<Rightarrow> value = Some expected)"

definition Matches :: "divergence_filter \<Rightarrow> divergence \<Rightarrow> bool" where
  "Matches f v \<longleftrightarrow>
     matches (f_service f) (Some (v_service v))
     \<and> matches (f_environment f) (Some (v_environment v))
     \<and> matches (f_revision f) (Some (v_revision v))
     \<and> matches (f_node f) (r_node (q_reason (v_quarantine v)))"

definition MatchesState :: "divergence_filter \<Rightarrow> mirror_state \<Rightarrow> bool" where
  "MatchesState f s =
     (if \<not> matches (f_service f) (Some (s_service s))
         \<or> \<not> matches (f_environment f) (Some (s_environment s))
         \<or> \<not> matches (f_revision f) (Some (s_revision s)) then False
      else if f_node f = None then True
      else list_ex (\<lambda>(d, q). matches (f_node f) (r_node (q_reason q))) (s_quarantines s))"

subsection \<open>Facts about the model\<close>

text \<open>A state is well formed when its Go maps are maps: keys in order, none twice.\<close>

definition calls_ok :: "calls \<Rightarrow> bool" where
  "calls_ok c \<longleftrightarrow> ordered_map (c_routes c)"

definition state_ok :: "mirror_state \<Rightarrow> bool" where
  "state_ok s \<longleftrightarrow> ordered_map (s_quarantines s) \<and> calls_ok (s_calls s)"

lemma Calls_Equal_iff:
  assumes "calls_ok c" "calls_ok d"
  shows "Calls_Equal c d \<longleftrightarrow> c_other c = c_other d \<and> c_routes c = c_routes d"
proof
  assume eq: "Calls_Equal c d"
  let ?m = "c_routes c" and ?n = "c_routes d"
  have om: "ordered_map ?m" "ordered_map ?n" using assms by (simp_all add: calls_ok_def)
  have sub: "set ?m \<subseteq> set ?n" using eq by (auto simp: Calls_Equal_def dest: map_of_SomeD)
  have "distinct ?m" "distinct ?n"
    using om [THEN keys_distinct] unfolding keys_def by (auto simp: distinct_map)
  then have "card (set ?m) = card (set ?n)" using eq by (simp add: Calls_Equal_def distinct_card)
  with sub have set: "set ?m = set ?n" by (simp add: card_subset_eq)
  have "?m = ?n"
  proof (rule ordered_map_ext [OF om])
    fix k show "map_of ?m k = map_of ?n k"
      using set om [THEN keys_distinct] unfolding keys_def by (metis map_of_inject_set)
  qed
  with eq show "c_other c = c_other d \<and> ?m = ?n" by (simp add: Calls_Equal_def)
next
  assume "c_other c = c_other d \<and> c_routes c = c_routes d"
  with assms keys_distinct show "Calls_Equal c d"
    by (fastforce simp: Calls_Equal_def calls_ok_def keys_def intro: map_of_is_SomeI)
qed

lemma state_ok_Quarantined: "state_ok s \<Longrightarrow> state_ok (Quarantined s d q)"
  by (simp add: state_ok_def Quarantined_def)

text \<open>The divergence that a state's quarantine of one direction gives.\<close>

definition state_divergence :: "mirror_state \<Rightarrow> direction \<Rightarrow> quarantine \<Rightarrow> divergence" where
  "state_divergence s d q =
     \<lparr>v_service = s_service s, v_environment = s_environment s, v_revision = s_revision s,
      v_direction = d, v_quarantine = q\<rparr>"

lemma MatchesState_node:
  "f_node f = Some n \<Longrightarrow>
   MatchesState f s \<longleftrightarrow> (\<exists>(d, q) \<in> set (s_quarantines s). Matches f (state_divergence s d q))"
  by (force simp: MatchesState_def Matches_def state_divergence_def list_ex_iff matches_def
      split: option.splits)

end
