(* ===== verification/Future_Value.thy ===== *)
theory Future_Value
  imports Spectre_Prelude
begin

text \<open>
  \<open>internal/future\<close>: a value that one goroutine sets once and others wait for.

  \<open>fu_value\<close> is the pair \<open>value\<close>/\<open>ready\<close> of the struct (\<open>None\<close> before it is ready), \<open>fu_done\<close>
  says whether the channel \<open>done\<close> is closed. \<open>Wait\<close> is a \<open>select\<close>: when the value and the
  context are both ready either branch may run, so the choice is an argument, and \<open>None\<close> means
  that the caller still blocks.
\<close>

record 'a future =
  fu_value :: "'a option"
  fu_done :: bool

definition New_Future :: "'a future" where
  "New_Future = \<lparr>fu_value = None, fu_done = False\<rparr>"

definition Future_Set :: "'a future \<Rightarrow> 'a \<Rightarrow> bool \<times> 'a future" where
  "Future_Set f v =
     (if fu_value f \<noteq> None then (False, f)
      else (True, f\<lparr>fu_value := Some v, fu_done := True\<rparr>))"

definition Future_Get :: "'a future \<Rightarrow> 'a option" where
  "Future_Get f = fu_value f"

definition Future_Wait :: "'a future \<Rightarrow> string option \<Rightarrow> bool \<Rightarrow> 'a result option" where
  "Future_Wait f ctx prefer =
     (if fu_done f \<and> (prefer \<or> ctx = None) then map_option Inr (Future_Get f)
      else case ctx of Some err \<Rightarrow> Some (Inl err) | None \<Rightarrow> None)"

definition future_ok :: "'a future \<Rightarrow> bool" where
  "future_ok f \<longleftrightarrow> (fu_done f \<longleftrightarrow> fu_value f \<noteq> None)"

lemma future_ok_New [simp]: "future_ok New_Future"
  by (simp add: future_ok_def New_Future_def)

lemma future_ok_Set [simp]: "future_ok f \<Longrightarrow> future_ok (snd (Future_Set f v))"
  by (auto simp: future_ok_def Future_Set_def)

lemma Future_Get_New [simp]: "Future_Get New_Future = None"
  by (simp add: Future_Get_def New_Future_def)

lemma Future_Get_Set:
  "Future_Get (snd (Future_Set f v)) = (case Future_Get f of None \<Rightarrow> Some v | Some w \<Rightarrow> Some w)"
  by (auto simp: Future_Get_def Future_Set_def split: option.splits)

lemma Future_Set_stored: "fst (Future_Set f v) \<longleftrightarrow> Future_Get f = None"
  by (simp add: Future_Get_def Future_Set_def)

lemma Future_Wait_Inr: "Future_Wait f ctx prefer = Some (Inr v) \<Longrightarrow> Future_Get f = Some v"
  by (auto simp: Future_Wait_def split: if_splits option.splits)

lemma Future_Wait_ready:
  "future_ok f \<Longrightarrow> Future_Get f = Some v \<Longrightarrow> Future_Wait f None prefer = Some (Inr v)"
  by (simp add: Future_Wait_def future_ok_def Future_Get_def)

text \<open>
  Once a future is set it never changes: whatever values are set later, readers keep
  seeing the first one, and every waiter whose context is still alive gets it.
\<close>

theorem future_first_value_wins:
  "Future_Get (foldl (\<lambda>f v. snd (Future_Set f v)) New_Future (v # vs)) = Some v
   \<and> Future_Wait (foldl (\<lambda>f v. snd (Future_Set f v)) New_Future (v # vs)) None prefer = Some (Inr v)"
proof -
  have keep: "future_ok f \<Longrightarrow> Future_Get f = Some v \<Longrightarrow>
      future_ok (foldl (\<lambda>f v. snd (Future_Set f v)) f ws)
      \<and> Future_Get (foldl (\<lambda>f v. snd (Future_Set f v)) f ws) = Some v" for f ws
    by (induction ws arbitrary: f) (simp_all add: Future_Get_Set)
  let ?f = "snd (Future_Set New_Future v)"
  have "future_ok ?f" "Future_Get ?f = Some v" by (simp_all add: Future_Get_Set)
  from keep [OF this, of vs] show ?thesis by (auto intro!: Future_Wait_ready)
qed

end
