(* ===== verification/Candidate_Admission.thy ===== *)
theory Candidate_Admission
  imports Spectre_Model
begin

text \<open>
  \<open>internal/proxy\<close>: admission of candidate work (\<open>candidates.go\<close>) and the call counter
  (\<open>calls.go\<close>).

  Every method of \<open>Candidates\<close> holds the mutex for its whole critical section, so one call is
  one atomic step. Channels are numbers with a list of the closed ones: \<open>ca_idle\<close> is the channel
  that \<open>Shutdown\<close> waits on, \<open>ca_quarantined\<close> is the buffer (capacity one) that carries the
  quarantine to its consumer. \<open>ca_cancelling\<close> holds the runs that the goroutine started by
  \<open>Quarantine\<close>, or the loop of \<open>close\<close>, still has to cancel, \<open>ca_cancelled\<close> those it has
  cancelled. A run is the address of its \<open>CandidateRun\<close>; allocation gives one that is not live.
  Closing a closed channel panics (\<open>Inl\<close>), and sending on a full channel blocks (\<open>None\<close>).
\<close>

type_synonym run = nat
type_synonym chan = nat

record candidates =
  ca_maxInFlight :: int
  ca_closing :: bool
  ca_quarantine :: "quarantine option"
  ca_quarantined :: "quarantine list"
  ca_runs :: "run list"
  ca_idle :: chan
  ca_closed :: "chan list"
  ca_next :: chan
  ca_cancelling :: "run list"
  ca_cancelled :: "run list"

definition CandidatesConfig_Validate :: "int \<Rightarrow> unit result" where
  "CandidatesConfig_Validate maxInFlight =
     (if maxInFlight \<le> 0 then Inl ''candidate maximum in-flight requests must be positive''
      else Inr ())"

definition NewCandidates :: "int \<Rightarrow> candidates" where
  "NewCandidates maxInFlight =
     \<lparr>ca_maxInFlight = maxInFlight, ca_closing = False, ca_quarantine = None, ca_quarantined = [],
      ca_runs = [], ca_idle = 0, ca_closed = [0], ca_next = 1, ca_cancelling = [], ca_cancelled = []\<rparr>"

definition admit :: "candidates \<Rightarrow> run \<Rightarrow> (run option \<times> bool) \<times> candidates" where
  "admit c run =
     (if ca_closing c \<or> ca_quarantine c \<noteq> None then ((None, False), c)
      else if int (length (ca_runs c)) \<ge> ca_maxInFlight c then ((None, True), c)
      else
        let c1 = (if ca_runs c = [] then c\<lparr>ca_idle := ca_next c, ca_next := ca_next c + 1\<rparr> else c)
        in ((Some run, False), c1\<lparr>ca_runs := run # ca_runs c1\<rparr>))"

definition Finish :: "candidates \<Rightarrow> run \<Rightarrow> candidates result" where
  "Finish c run =
     (let c1 = c\<lparr>ca_runs := filter (\<lambda>r. r \<noteq> run) (ca_runs c)\<rparr> in
      if ca_runs c1 = [] then
        (if ca_idle c1 \<in> set (ca_closed c1) then Inl ''close of closed channel''
         else Inr (c1\<lparr>ca_closed := ca_idle c1 # ca_closed c1\<rparr>))
      else Inr c1)"

definition snapshot :: "candidates \<Rightarrow> run list" where
  "snapshot c = ca_runs c"

definition Quarantine :: "candidates \<Rightarrow> quarantine_reason \<Rightarrow> time \<Rightarrow> candidates option" where
  "Quarantine c reason now =
     (if ca_quarantine c \<noteq> None then Some c
      else
        let status = \<lparr>q_reason = reason, q_since = now\<rparr> in
        if length (ca_quarantined c) \<ge> 1 then None
        else Some (c\<lparr>ca_quarantine := Some status,
                     ca_quarantined := ca_quarantined c @ [status],
                     ca_cancelling := ca_cancelling c @ snapshot c\<rparr>))"

definition capacity_reason :: quarantine_reason where
  "capacity_reason = plain_reason QuarantineCapacity None ''candidate concurrency limit exceeded''"

definition Start :: "candidates \<Rightarrow> run \<Rightarrow> time \<Rightarrow> (run option \<times> candidates) option" where
  "Start c run now =
     (let ((admitted, exceeded), c1) = admit c run in
      if exceeded then map_option (Pair admitted) (Quarantine c1 capacity_reason now)
      else Some (admitted, c1))"

definition QuarantineStatus :: "candidates \<Rightarrow> quarantine option" where
  "QuarantineStatus c = ca_quarantine c"

definition close_candidates :: "candidates \<Rightarrow> chan \<times> candidates" where
  "close_candidates c =
     (ca_idle c, c\<lparr>ca_closing := True, ca_cancelling := ca_cancelling c @ snapshot c\<rparr>)"

definition Shutdown_wait :: "candidates \<Rightarrow> chan \<Rightarrow> string option \<Rightarrow> bool \<Rightarrow> unit result option" where
  "Shutdown_wait c idle ctx prefer =
     (if idle \<in> set (ca_closed c) \<and> (prefer \<or> ctx = None) then Some (Inr ())
      else case ctx of Some err \<Rightarrow> Some (Inl (wrap ''wait for candidate requests'' err)) | None \<Rightarrow> None)"

text \<open>Steps: one call, one receive by the consumer, or one cancellation.\<close>

inductive cand_step :: "candidates \<Rightarrow> candidates \<Rightarrow> bool" where
  step_admit: "run \<notin> set (ca_runs c) \<Longrightarrow> cand_step c (snd (admit c run))"
| step_quarantine: "Quarantine c reason now = Some c' \<Longrightarrow> cand_step c c'"
| step_finish: "run \<in> set (ca_runs c) \<Longrightarrow> Finish c run = Inr c' \<Longrightarrow> cand_step c c'"
| step_close: "cand_step c (snd (close_candidates c))"
| step_consume: "ca_quarantined c = q # qs \<Longrightarrow> cand_step c (c\<lparr>ca_quarantined := qs\<rparr>)"
| step_cancel: "ca_cancelling c = r # rs \<Longrightarrow>
    cand_step c (c\<lparr>ca_cancelling := rs, ca_cancelled := r # ca_cancelled c\<rparr>)"

definition cand_inv :: "int \<Rightarrow> candidates \<Rightarrow> bool" where
  "cand_inv n c \<longleftrightarrow>
     ca_maxInFlight c = n
     \<and> int (length (ca_runs c)) \<le> n
     \<and> distinct (ca_runs c)
     \<and> (ca_idle c \<in> set (ca_closed c) \<longleftrightarrow> ca_runs c = [])
     \<and> ca_idle c < ca_next c \<and> (\<forall>ch \<in> set (ca_closed c). ch < ca_next c)
     \<and> length (ca_quarantined c) \<le> 1
     \<and> (\<forall>q \<in> set (ca_quarantined c). ca_quarantine c = Some q)"

lemmas cand_ops [step_defs] = admit_def Finish_def Quarantine_def close_candidates_def snapshot_def Let_def

lemma cand_inv_New: "0 < n \<Longrightarrow> cand_inv n (NewCandidates n)"
  by (simp add: cand_inv_def NewCandidates_def)

lemma cand_inv_admit: "cand_inv n c \<Longrightarrow> run \<notin> set (ca_runs c) \<Longrightarrow> cand_inv n (snd (admit c run))"
  by (force simp: cand_inv_def admit_def Let_def)

lemma cand_inv_Finish:
  assumes "cand_inv n c" "run \<in> set (ca_runs c)" "Finish c run = Inr c'"
  shows "cand_inv n c'"
proof -
  have "int (length (filter (\<lambda>r. r \<noteq> run) (ca_runs c))) \<le> ca_maxInFlight c"
    using assms(1) length_filter_le [of "\<lambda>r. r \<noteq> run" "ca_runs c"] unfolding cand_inv_def by linarith
  moreover have "ca_runs c \<noteq> []" using assms(2) by auto
  ultimately show ?thesis using assms
    by (auto simp: cand_inv_def Finish_def Let_def split: if_splits)
qed

lemma cand_inv_Quarantine: "cand_inv n c \<Longrightarrow> Quarantine c r t = Some c' \<Longrightarrow> cand_inv n c'"
  by (auto simp: cand_inv_def Quarantine_def Let_def split: if_splits)

lemma cand_inv_step: "cand_step c c' \<Longrightarrow> cand_inv n c \<Longrightarrow> cand_inv n c'"
proof (induction rule: cand_step.induct)
  case (step_admit run c)
  then show ?case by (blast intro: cand_inv_admit)
next
  case (step_quarantine c reason now c')
  then show ?case by (blast intro: cand_inv_Quarantine)
next
  case (step_finish run c c')
  then show ?case by (blast intro: cand_inv_Finish)
qed (simp_all add: cand_inv_def close_candidates_def)

lemma Quarantine_enabled: "cand_inv n c \<Longrightarrow> Quarantine c reason now \<noteq> None"
  by (auto simp: Quarantine_def Let_def cand_inv_def le_Suc_eq length_Suc_conv)

interpretation cands: invariant_system "NewCandidates (int (Suc n))" cand_step "cand_inv (int (Suc n))"
  by unfold_locales (auto intro: cand_inv_New cand_inv_step)

lemma reach_cand_inv: "0 < n \<Longrightarrow> reach (NewCandidates n) cand_step c \<Longrightarrow> cand_inv n c"
  using cands.reach_inv [of "nat n - 1" c] by simp

text \<open>Once candidate work is refused, the live runs only shrink and the channel stays.\<close>

definition refusing :: "candidates \<Rightarrow> bool" where
  "refusing c \<longleftrightarrow> ca_closing c \<or> ca_quarantine c \<noteq> None"

lemma refusing_step:
  assumes "cand_step c c'" "refusing c"
  shows "refusing c' \<and> set (ca_runs c') \<subseteq> set (ca_runs c) \<and> ca_idle c' = ca_idle c
    \<and> (\<forall>q. ca_quarantine c = Some q \<longrightarrow> ca_quarantine c' = Some q)"
  using assms
  by (induction rule: cand_step.induct)
     (auto simp: refusing_def admit_def Quarantine_def Finish_def close_candidates_def Let_def
       split: if_splits)

lemma refusing_reach:
  assumes "reach c cand_step c'" "refusing c"
  shows "refusing c' \<and> set (ca_runs c') \<subseteq> set (ca_runs c) \<and> ca_idle c' = ca_idle c
    \<and> (\<forall>q. ca_quarantine c = Some q \<longrightarrow> ca_quarantine c' = Some q)"
  using assms(1)
proof (induction rule: reach.induct)
  case (reach_step s t)
  with refusing_step [of s t] show ?case by auto
qed (simp add: assms(2))

subsection \<open>Properties of admission\<close>

text \<open>
  C9. However calls interleave, no more candidate runs are ever live than the configured limit,
  and the idle channel that shutdown waits on is closed exactly while no run is live.
\<close>

theorem candidates_bounded:
  assumes "0 < n" "reach (NewCandidates n) cand_step c"
  shows "int (length (ca_runs c)) \<le> n \<and> (ca_idle c \<in> set (ca_closed c) \<longleftrightarrow> ca_runs c = [])"
  using reach_cand_inv [OF assms] by (simp add: cand_inv_def)

theorem candidates_bounded_witness:
  "reach (NewCandidates 1) cand_step (snd (admit (NewCandidates 1) 7))
   \<and> ca_runs (snd (admit (NewCandidates 1) 7)) = [7]
   \<and> int (length (ca_runs (snd (admit (NewCandidates 1) 7)))) \<le> 1"
proof -
  have r: "reach (NewCandidates 1) cand_step (snd (admit (NewCandidates 1) 7))"
    by (rule reach_step [OF reach_init]) (rule step_admit, simp add: NewCandidates_def)
  then show ?thesis
    using candidates_bounded [OF _ r] by (simp add: admit_def NewCandidates_def)
qed

text \<open>
  C8. Quarantine lasts: once a candidate is quarantined, every later state keeps the first
  quarantine, refuses every admission, and holds only runs that were live when it began.
\<close>

theorem quarantine_is_permanent:
  assumes "ca_quarantine c = Some q" "reach c cand_step c'"
  shows "QuarantineStatus c' = Some q
    \<and> fst (admit c' run) = (None, False)
    \<and> set (ca_runs c') \<subseteq> set (ca_runs c)"
  using refusing_reach [OF assms(2)] assms(1)
  by (auto simp: refusing_def QuarantineStatus_def admit_def)

theorem quarantine_is_permanent_witness:
  "let c = the (Quarantine (snd (admit (NewCandidates 2) 3)) capacity_reason 5)
   in QuarantineStatus (snd (close_candidates c)) = Some \<lparr>q_reason = capacity_reason, q_since = 5\<rparr>
      \<and> fst (admit (snd (close_candidates c)) 4) = (None, False)"
proof -
  define c where "c = the (Quarantine (snd (admit (NewCandidates 2) 3)) capacity_reason 5)"
  have q: "ca_quarantine c = Some \<lparr>q_reason = capacity_reason, q_since = 5\<rparr>"
    by (simp add: c_def Quarantine_def admit_def NewCandidates_def Let_def)
  have "reach c cand_step (snd (close_candidates c))"
    by (rule reach_step [OF reach_init]) (rule step_close)
  from quarantine_is_permanent [OF q this, of 4] show ?thesis by (simp add: c_def [symmetric] Let_def)
qed

text \<open>
  Quarantining never waits: in every reachable state the buffered channel has room, so the
  reference request that detected a divergence is not held up, and the call leaves the
  candidate quarantined with every live run handed to cancellation.
\<close>

theorem quarantine_never_blocks:
  assumes "0 < n" "reach (NewCandidates n) cand_step c"
  shows "\<exists>c' q. Quarantine c reason now = Some c' \<and> ca_quarantine c' = Some q
    \<and> (ca_quarantine c = None \<longrightarrow>
         q = \<lparr>q_reason = reason, q_since = now\<rparr>
         \<and> set (ca_runs c) \<subseteq> set (ca_cancelling c'))"
  using Quarantine_enabled [OF reach_cand_inv [OF assms], of reason now]
  by (auto simp: Quarantine_def snapshot_def Let_def split: if_splits)

text \<open>
  Work beyond the limit is refused and quarantines the candidate with the capacity reason;
  below the limit it is admitted and quarantines nothing.
\<close>

theorem Start_fails_closed:
  assumes "0 < n" "reach (NewCandidates n) cand_step c" "\<not> refusing c"
  shows "\<exists>c'. Start c run now =
      Some (if int (length (ca_runs c)) < n then Some run else None, c')
    \<and> ca_quarantine c' =
        (if int (length (ca_runs c)) < n then None
         else Some \<lparr>q_reason = capacity_reason, q_since = now\<rparr>)"
proof -
  have inv: "cand_inv n c" by (rule reach_cand_inv [OF assms(1,2)])
  have free: "\<not> ca_closing c" "ca_quarantine c = None"
    using assms(3) by (auto simp: refusing_def)
  show ?thesis
  proof (cases "int (length (ca_runs c)) < n")
    case True
    with inv free show ?thesis by (simp add: Start_def admit_def cand_inv_def Let_def)
  next
    case False
    with inv free have "admit c run = ((None, True), c)" by (simp add: admit_def cand_inv_def)
    with False inv free Quarantine_enabled [OF inv, of capacity_reason now] show ?thesis
      by (auto simp: Start_def Quarantine_def Let_def split: if_splits)
  qed
qed

text \<open>
  Releasing a live run never panics, whatever happened before; releasing a run when none is
  live does, because it would close the idle channel twice.
\<close>

theorem Finish_no_panic:
  assumes "0 < n" "reach (NewCandidates n) cand_step c"
  shows "(run \<in> set (ca_runs c) \<longrightarrow> (\<exists>c'. Finish c run = Inr c' \<and> run \<notin> set (ca_runs c')))
    \<and> (ca_runs c = [] \<longrightarrow> Finish c run = Inl ''close of closed channel'')"
  using reach_cand_inv [OF assms]
  by (auto simp: Finish_def cand_inv_def Let_def)

text \<open>
  Shutdown waits on the right channel: from the moment it refuses work, the channel it
  snapshotted is closed exactly when every run has finished, so with a live context it returns
  if and only if no candidate work is left.
\<close>

theorem Shutdown_waits_for_runs:
  assumes "0 < n" "reach (NewCandidates n) cand_step c"
    and "close_candidates c = (idle, c1)" "reach c1 cand_step c'"
  shows "Shutdown_wait c' idle None prefer = (if ca_runs c' = [] then Some (Inr ()) else None)"
proof -
  have c1: "c1 = snd (close_candidates c)" "idle = ca_idle c1"
    using assms(3) by (auto simp: close_candidates_def)
  have inv1: "cand_inv n c1"
    using cand_inv_step [OF step_close] reach_cand_inv [OF assms(1,2)] c1 by blast
  have "cand_inv n c'"
    using assms(4) inv1 by (induction rule: reach.induct) (auto intro: cand_inv_step)
  moreover have "ca_idle c' = idle"
    using refusing_reach [OF assms(4)] c1 by (simp add: refusing_def close_candidates_def)
  ultimately show ?thesis by (auto simp: Shutdown_wait_def cand_inv_def)
qed

subsection \<open>The call counter\<close>

definition maxCountedRoutes :: nat where "maxCountedRoutes = 100"

definition NewCallCounter :: calls where
  "NewCallCounter = \<lparr>c_routes = [], c_other = 0\<rparr>"

definition Count :: "calls \<Rightarrow> route \<Rightarrow> calls" where
  "Count c r =
     (if map_of (c_routes c) r \<noteq> None \<or> length (c_routes c) < maxCountedRoutes
      then c\<lparr>c_routes := map_put r ((case map_of (c_routes c) r of Some n \<Rightarrow> n | None \<Rightarrow> 0) + 1) (c_routes c)\<rparr>
      else c\<lparr>c_other := c_other c + 1\<rparr>)"

definition CallCounter_Calls :: "calls \<Rightarrow> calls" where
  "CallCounter_Calls c =
     \<lparr>c_routes = (if length (c_routes c) > 0 then c_routes c else []), c_other = c_other c\<rparr>"

definition counted :: "route list \<Rightarrow> calls" where
  "counted rs = CallCounter_Calls (foldl Count NewCallCounter rs)"

lemma length_map_put:
  "ordered_map m \<Longrightarrow> length (map_put k v m) = (if map_of m k = None then Suc (length m) else length m)"
proof (induction m)
  case (Cons p m)
  obtain k' v' where p: "p = (k', v')" by (cases p)
  have "map_of m k = None" if "k < k'"
    using Cons.prems that unfolding p map_of_None_keys by auto
  with Cons p show ?case by auto
qed simp

lemma sum_map_put:
  "ordered_map m \<Longrightarrow>
   sum_list (map snd (map_put k (v :: u64) m)) =
     sum_list (map snd m) + v - (case map_of m k of Some n \<Rightarrow> n | None \<Rightarrow> 0)"
proof (induction m)
  case (Cons p m)
  obtain k' v' where p: "p = (k', v')" by (cases p)
  have "map_of m k = None" if "k < k'"
    using Cons.prems that unfolding p map_of_None_keys by auto
  with Cons p show ?case by (auto simp: algebra_simps)
qed simp

text \<open>What the counter holds after the requests \<open>rs\<close>.\<close>

definition counter_inv :: "route list \<Rightarrow> calls \<Rightarrow> bool" where
  "counter_inv rs c \<longleftrightarrow>
     ordered_map (c_routes c) \<and> length (c_routes c) \<le> maxCountedRoutes
     \<and> sum_list (map snd (c_routes c)) + c_other c = of_nat (length rs)
     \<and> (\<forall>r n. map_of (c_routes c) r = Some n \<longrightarrow> n = of_nat (count_list rs r))
     \<and> (length (c_routes c) < maxCountedRoutes \<longrightarrow> set rs = set (keys (c_routes c)))"

lemma counter_inv_Count:
  assumes "counter_inv rs c"
  shows "counter_inv (rs @ [r]) (Count c r)"
proof (cases "map_of (c_routes c) r")
  case None
  then have notin: "r \<notin> set (keys (c_routes c))" by (simp add: map_of_None_keys)
  show ?thesis
  proof (cases "length (c_routes c) < maxCountedRoutes")
    case True
    then have "r \<notin> set rs" using assms notin by (auto simp: counter_inv_def)
    then have "count_list rs r = 0" by (simp add: count_list_0_iff)
    with True None assms show ?thesis
      by (auto simp: counter_inv_def Count_def length_map_put sum_map_put algebra_simps)
  next
    case False
    with None assms show ?thesis by (auto simp: counter_inv_def Count_def algebra_simps)
  qed
next
  case (Some n)
  then have "r \<in> set (keys (c_routes c))" by (rule map_of_in_keys)
  with Some assms show ?thesis
    by (auto simp: counter_inv_def Count_def length_map_put sum_map_put algebra_simps)
qed

lemma counter_inv_foldl: "counter_inv rs (foldl Count NewCallCounter rs)"
proof (induction rs rule: rev_induct)
  case Nil
  show ?case by (simp add: counter_inv_def NewCallCounter_def maxCountedRoutes_def)
next
  case (snoc r rs)
  then show ?case by (simp add: counter_inv_Count)
qed

lemma counted_inv: "counter_inv rs (counted rs)"
  using counter_inv_foldl [of rs] by (cases "c_routes (foldl Count NewCallCounter rs) = []")
    (simp_all add: counted_def CallCounter_Calls_def counter_inv_def)

text \<open>
  The counter tracks at most 100 routes, counts each tracked route exactly, and loses no
  request: the counts and the remainder add up to the requests received, in 64-bit arithmetic.
\<close>

theorem counter_exact:
  "length (c_routes (counted rs)) \<le> 100
   \<and> sum_list (map snd (c_routes (counted rs))) + c_other (counted rs) = of_nat (length rs)
   \<and> (\<forall>r n. (r, n) \<in> set (c_routes (counted rs)) \<longrightarrow> n = of_nat (count_list rs r))"
proof -
  have inv: "counter_inv rs (counted rs)" by (rule counted_inv)
  then have "(r, n) \<in> set (c_routes (counted rs)) \<Longrightarrow> map_of (c_routes (counted rs)) r = Some n" for r n
    by (auto simp: counter_inv_def keys_def intro: map_of_is_SomeI dest: keys_distinct)
  with inv show ?thesis by (auto simp: counter_inv_def maxCountedRoutes_def)
qed

end
