(* ===== verification/Json_Document.thy ===== *)
theory Json_Document
  imports Complex_Main Spectre_Prelude
begin

text \<open>
  Decoded JSON payloads and \<open>internal/comparison/internal/document.go\<close>: the mutable document
  that normalisers rewrite, and the paths into it.

  A payload is what \<open>encoding/json\<close> decodes into \<open>any\<close>: \<open>float64\<close> numbers are finite, so they
  are the rationals they denote, and an object is a map with ordered keys (\<open>json_ok\<close>). On such
  values \<open>reflect.DeepEqual\<close> is equality. A document owns its payload and the payload is a tree,
  so in-place mutation of maps and slices is functional update at the path.
\<close>

datatype json =
  JNull
  | JBool bool
  | JNumber rat
  | JString string
  | JList "json list"
  | JObject "(string \<times> json) list"

fun json_ok :: "json \<Rightarrow> bool" where
  "json_ok (JList xs) = list_all json_ok xs"
| "json_ok (JObject m) = (ordered_map m \<and> list_all (\<lambda>(k, v). json_ok v) m)"
| "json_ok _ = True"

subsection \<open>Paths\<close>

datatype path_part = FieldPart string | AnyKeyPart | IndexPart int

type_synonym document_path = "path_part list"

fun arrayIndex :: "path_part \<Rightarrow> int option" where
  "arrayIndex (IndexPart i) = Some i"
| "arrayIndex _ = None"

fun fieldName :: "path_part \<Rightarrow> string \<times> bool" where
  "fieldName (FieldPart n) = (n, True)"
| "fieldName _ = ([], False)"

definition appendField :: "document_path \<Rightarrow> string \<Rightarrow> document_path" where
  "appendField p n = p @ [FieldPart n]"

definition appendAnyKey :: "document_path \<Rightarrow> document_path" where
  "appendAnyKey p = p @ [AnyKeyPart]"

definition appendIndex :: "document_path \<Rightarrow> int \<Rightarrow> document_path" where
  "appendIndex p i = p @ [IndexPart i]"

definition path_depth :: "document_path \<Rightarrow> nat" where
  "path_depth p = length p"

fun equalPathParts :: "path_part list \<Rightarrow> path_part list \<Rightarrow> bool" where
  "equalPathParts [] [] = True"
| "equalPathParts (a # as) (b # bs) = (a = b \<and> equalPathParts as bs)"
| "equalPathParts _ _ = False"

definition indexedSiblingBefore :: "document_path \<Rightarrow> document_path \<Rightarrow> bool" where
  "indexedSiblingBefore p q =
     (if p = [] \<or> length p \<noteq> length q then False
      else case (arrayIndex (last p), arrayIndex (last q)) of
        (Some l, Some r) \<Rightarrow> equalPathParts (butlast p) (butlast q) \<and> l > r
      | _ \<Rightarrow> False)"

fun path_value :: "json \<Rightarrow> document_path \<Rightarrow> json option" where
  "path_value v [] = Some v"
| "path_value v (IndexPart i # ps) =
     (case v of
        JList xs \<Rightarrow> if i < 0 \<or> i \<ge> int (length xs) then None else path_value (xs ! nat i) ps
      | _ \<Rightarrow> None)"
| "path_value v (AnyKeyPart # ps) = None"
| "path_value v (FieldPart n # ps) =
     (case v of
        JObject m \<Rightarrow> (case map_of m n of None \<Rightarrow> None | Some w \<Rightarrow> path_value w ps)
      | _ \<Rightarrow> None)"

definition isIdentifier :: "string \<Rightarrow> bool" where
  "isIdentifier s =
     (if s = [] then False
      else list_all
        (\<lambda>(i, c). c = CHR ''_'' \<or> c = CHR ''$'' \<or> (CHR ''a'' \<le> c \<and> c \<le> CHR ''z'')
           \<or> (CHR ''A'' \<le> c \<and> c \<le> CHR ''Z'') \<or> (i > 0 \<and> is_digit c))
        (enumerate 0 s))"

fun part_String :: "path_part \<Rightarrow> string" where
  "part_String (IndexPart i) = ''['' @ show_int i @ '']''"
| "part_String AnyKeyPart = ''[*]''"
| "part_String (FieldPart n) =
     (if isIdentifier n then CHR ''.'' # n else ''['' @ go_quote n @ '']'')"

definition path_String :: "document_path \<Rightarrow> string" where
  "path_String p = CHR ''$'' # concat (map part_String p)"

record reported_path =
  rp_text :: string
  rp_wildcard :: string

fun wildcard_part :: "path_part \<Rightarrow> path_part" where
  "wildcard_part p = (if arrayIndex p \<noteq> None then AnyKeyPart else p)"

definition reported :: "document_path \<Rightarrow> reported_path" where
  "reported p = \<lparr>rp_text = path_String p, rp_wildcard = path_String (map wildcard_part p)\<rparr>"

subsection \<open>Documents\<close>

text \<open>\<open>replace_at\<close> is the effect of writing through a reference to the value at a path.\<close>

fun replace_at :: "json \<Rightarrow> document_path \<Rightarrow> json \<Rightarrow> json" where
  "replace_at v [] w = w"
| "replace_at v (IndexPart i # ps) w =
     (case v of JList xs \<Rightarrow> JList (xs[nat i := replace_at (xs ! nat i) ps w]) | _ \<Rightarrow> v)"
| "replace_at v (AnyKeyPart # ps) w = v"
| "replace_at v (FieldPart n # ps) w =
     (case v of
        JObject m \<Rightarrow> (case map_of m n of None \<Rightarrow> v | Some u \<Rightarrow> JObject (map_put n (replace_at u ps w) m))
      | _ \<Rightarrow> v)"

definition path_set :: "document_path \<Rightarrow> json \<Rightarrow> json \<Rightarrow> json result" where
  "path_set p top_value value =
     (case path_value top_value (butlast p) of
        None \<Rightarrow> Inl ''normalisation path parent is absent''
      | Some parent \<Rightarrow>
          (case arrayIndex (last p) of
             Some i \<Rightarrow>
               (case parent of
                  JList xs \<Rightarrow>
                    (if i < 0 \<or> i \<ge> int (length xs)
                     then Inl ''normalisation path does not identify an array element''
                     else Inr (replace_at top_value (butlast p) (JList (xs[nat i := value]))))
                | _ \<Rightarrow> Inl ''normalisation path does not identify an array element'')
           | None \<Rightarrow>
               (case parent of
                  JObject m \<Rightarrow>
                    Inr (replace_at top_value (butlast p) (JObject (map_put (fst (fieldName (last p))) value m)))
                | _ \<Rightarrow> Inl ''normalisation path parent is not an object'')))"

fun deleteDocumentValue :: "json \<Rightarrow> path_part list \<Rightarrow> json result" where
  "deleteDocumentValue v [] = Inl ''index out of range''"
| "deleteDocumentValue v (IndexPart i # ps) =
     (case v of
        JList xs \<Rightarrow>
          (if i < 0 \<or> i \<ge> int (length xs) then Inr v
           else if ps = [] then Inr (JList (take (nat i) xs @ drop (Suc (nat i)) xs))
           else case deleteDocumentValue (xs ! nat i) ps of
             Inl e \<Rightarrow> Inl e
           | Inr u \<Rightarrow> Inr (JList (xs[nat i := u])))
      | JNull \<Rightarrow> Inr v
      | _ \<Rightarrow> Inl ''comparison path parent is not an array'')"
| "deleteDocumentValue v (AnyKeyPart # ps) = Inl ''comparison path contains an invalid part''"
| "deleteDocumentValue v (FieldPart n # ps) =
     (case v of
        JObject m \<Rightarrow>
          (case map_of m n of
             None \<Rightarrow> Inr v
           | Some child \<Rightarrow>
               (if ps = [] then Inr (JObject (map_del n m))
                else case deleteDocumentValue child ps of
                  Inl e \<Rightarrow> Inl e
                | Inr u \<Rightarrow> Inr (JObject (map_put n u m))))
      | JNull \<Rightarrow> Inr v
      | _ \<Rightarrow> Inl ''comparison path parent is not an object'')"

record document =
  doc_root :: "json option"

definition newDocument :: "json \<Rightarrow> document" where
  "newDocument top_value = \<lparr>doc_root = Some top_value\<rparr>"

definition Document_Value :: "document \<Rightarrow> document_path \<Rightarrow> json option" where
  "Document_Value d p = (case doc_root d of None \<Rightarrow> None | Some top_value \<Rightarrow> path_value top_value p)"

definition Document_Delete :: "document \<Rightarrow> document_path \<Rightarrow> document result" where
  "Document_Delete d p =
     (case doc_root d of
        None \<Rightarrow> Inr d
      | Some top_value \<Rightarrow>
          (if p = [] then Inr (d\<lparr>doc_root := None\<rparr>)
           else case deleteDocumentValue top_value p of
             Inl e \<Rightarrow> Inl e
           | Inr updated \<Rightarrow> Inr (d\<lparr>doc_root := Some updated\<rparr>)))"

definition Document_Set :: "document \<Rightarrow> document_path \<Rightarrow> json \<Rightarrow> document result" where
  "Document_Set d p value =
     (if p = [] then Inr (d\<lparr>doc_root := Some value\<rparr>)
      else case doc_root d of
        None \<Rightarrow> Inl ''normalisation path parent is absent''
      | Some top_value \<Rightarrow>
          (case path_set p top_value value of
             Inl e \<Rightarrow> Inl e
           | Inr updated \<Rightarrow> Inr (d\<lparr>doc_root := Some updated\<rparr>)))"

definition Document_Export :: "document \<Rightarrow> json option" where
  "Document_Export d = doc_root d"

definition document_ok :: "document \<Rightarrow> bool" where
  "document_ok d \<longleftrightarrow> (case doc_root d of None \<Rightarrow> True | Some v \<Rightarrow> json_ok v)"

subsection \<open>Laws of paths\<close>

lemma path_value_append:
  "path_value v (p @ q) = (case path_value v p of None \<Rightarrow> None | Some w \<Rightarrow> path_value w q)"
  by (induction v p rule: path_value.induct) (auto split: json.splits option.splits)

lemma json_ok_member: "list_all (\<lambda>(k, v). json_ok v) m \<Longrightarrow> map_of m n = Some w \<Longrightarrow> json_ok w"
  by (auto simp: list_all_iff dest: map_of_SomeD)

lemma index_in_range [simp]: "\<not> i < 0 \<Longrightarrow> \<not> int n \<le> i \<Longrightarrow> nat i < n"
  by linarith

lemma json_ok_element [simp]:
  "list_all json_ok xs \<Longrightarrow> \<not> i < 0 \<Longrightarrow> \<not> int (length xs) \<le> i \<Longrightarrow> json_ok (xs ! nat i)"
  by (simp add: list_all_length)

lemma json_ok_path_value: "json_ok v \<Longrightarrow> path_value v p = Some w \<Longrightarrow> json_ok w"
proof (induction v p rule: path_value.induct)
  case (2 v i ps)
  then show ?case
    by (auto split: json.splits if_splits)
next
  case (4 v n ps)
  then show ?case
    by (auto split: json.splits option.splits dest: json_ok_member)
qed auto

lemma json_ok_put:
  assumes "json_ok (JObject m)" "json_ok w"
  shows "json_ok (JObject (map_put n w m))"
proof -
  have "set (map_put n w m) \<subseteq> insert (n, w) (set m)"
    by (induction m) (auto split: if_splits)
  with assms show ?thesis by (fastforce simp: list_all_iff)
qed

lemma json_ok_update: "json_ok (JList xs) \<Longrightarrow> json_ok w \<Longrightarrow> json_ok (JList (xs[i := w]))"
  by (auto simp: list_all_iff dest: set_update_subset_insert [THEN subsetD])

lemma json_ok_replace_at:
  "json_ok v \<Longrightarrow> json_ok w \<Longrightarrow> path_value v p \<noteq> None \<Longrightarrow> json_ok (replace_at v p w)"
proof (induction v p w rule: replace_at.induct)
  case (2 v i ps w)
  then show ?case
    by (auto split: json.splits if_splits simp: list_all_iff dest: set_update_subset_insert [THEN subsetD])
next
  case (4 v n ps w)
  then show ?case
    by (auto split: json.splits option.splits intro!: json_ok_put dest: json_ok_member simp del: json_ok.simps(2))
      (use json_ok_member in fastforce)
qed auto

lemma json_ok_ordered: "json_ok (JObject m) \<Longrightarrow> ordered_map m"
  by simp

lemma path_value_replace_at:
  "json_ok v \<Longrightarrow> path_value v p \<noteq> None \<Longrightarrow> path_value (replace_at v p w) (p @ q) = path_value w q"
proof (induction v p w rule: replace_at.induct)
  case (2 v i ps w)
  then show ?case
    by (auto split: json.splits if_splits)
next
  case (4 v n ps w)
  then show ?case
    by (auto split: json.splits option.splits dest: json_ok_member)
qed auto

text \<open>Two paths fork when neither leads through the other.\<close>

fun fork :: "document_path \<Rightarrow> document_path \<Rightarrow> bool" where
  "fork (a # p) (b # q) = (a \<noteq> b \<or> fork p q)"
| "fork _ _ = False"

lemma fork_sym: "fork p q \<Longrightarrow> fork q p"
  by (induction p q rule: fork.induct) auto

lemma path_value_replace_fork:
  "json_ok v \<Longrightarrow> path_value v p \<noteq> None \<Longrightarrow> fork p q \<Longrightarrow>
   path_value (replace_at v p w) q = path_value v q"
proof (induction v p w arbitrary: q rule: replace_at.induct)
  case (2 v i ps w)
  obtain b q' where q: "q = b # q'" using "2.prems"(3) by (cases q) auto
  obtain xs where v: "v = JList xs" and i: "\<not> (i < 0 \<or> i \<ge> int (length xs))"
    and ex: "path_value (xs ! nat i) ps \<noteq> None"
    using "2.prems"(2) by (auto split: json.splits if_splits)
  have ok: "json_ok (xs ! nat i)" using "2.prems"(1) v i by auto
  show ?case
  proof (cases b)
    case (IndexPart j)
    show ?thesis
    proof (cases "j = i")
      case True
      with "2.prems"(3) q IndexPart have "fork ps q'" by simp
      with "2.IH" [OF v ok ex] v i q IndexPart True show ?thesis by simp
    next
      case False
      with i have "\<not> j < 0 \<Longrightarrow> nat j \<noteq> nat i" by auto
      with v i q IndexPart show ?thesis by auto
    qed
  qed (use v q in auto)
next
  case (4 v n ps w)
  obtain b q' where q: "q = b # q'" using "4.prems"(3) by (cases q) auto
  obtain m u where v: "v = JObject m" and u: "map_of m n = Some u"
    and ex: "path_value u ps \<noteq> None"
    using "4.prems"(2) by (auto split: json.splits option.splits)
  have ok: "json_ok u" "ordered_map m" using "4.prems"(1) v u json_ok_member by auto
  show ?case
  proof (cases b)
    case (FieldPart k)
    with "4.IH" [OF v u ok(1) ex, of q'] "4.prems"(3) v u ok q show ?thesis by auto
  qed (use v u q in auto)
qed auto

subsection \<open>Laws of documents\<close>

text \<open>A concrete path is one into a payload: it holds no wildcard.\<close>

definition concrete :: "document_path \<Rightarrow> bool" where
  "concrete p \<longleftrightarrow> AnyKeyPart \<notin> set p"

lemma concrete_snoc: "concrete p \<Longrightarrow> p \<noteq> [] \<Longrightarrow>
   (\<exists>n. last p = FieldPart n) \<or> (\<exists>i. last p = IndexPart i)"
  unfolding concrete_def by (cases "last p") (metis last_in_set)+

lemma fork_butlast:
  "fork p q \<Longrightarrow> p \<noteq> [] \<Longrightarrow> fork (butlast p) q \<or> (\<exists>b r. q = butlast p @ b # r \<and> b \<noteq> last p)"
  by (induction p q rule: fork.induct) auto

lemma path_set_Inr:
  assumes set: "path_set p v w = Inr v'" and ok: "json_ok v" "json_ok w"
    and p: "concrete p" "p \<noteq> []"
  shows "json_ok v' \<and> path_value v' p = Some w \<and> (\<forall>q. fork p q \<longrightarrow> path_value v' q = path_value v q)"
proof -
  obtain parent where parent: "path_value v (butlast p) = Some parent"
    using set by (auto simp: path_set_def split: option.splits)
  have okp: "json_ok parent" by (rule json_ok_path_value [OF ok(1) parent])
  have ex: "path_value v (butlast p) \<noteq> None" using parent by simp
  have split: "p = butlast p @ [last p]" using p(2) by simp
  obtain parent' where v': "v' = replace_at v (butlast p) parent'" and okp': "json_ok parent'"
    and here: "path_value parent' [last p] = Some w"
    and there: "\<And>b r. b \<noteq> last p \<Longrightarrow> path_value parent' (b # r) = path_value parent (b # r)"
  proof (cases "last p")
    case (IndexPart i)
    then obtain xs where "parent = JList xs" "0 \<le> i" "i < int (length xs)"
      "v' = replace_at v (butlast p) (JList (xs[nat i := w]))"
      using set parent by (auto simp: path_set_def split: json.splits if_splits)
    moreover have "path_value (JList (xs[nat i := w])) (b # r) = path_value (JList xs) (b # r)"
      if "b \<noteq> IndexPart i" for b r using that \<open>0 \<le> i\<close> by (cases b) auto
    ultimately show ?thesis
      using that [of "JList (xs[nat i := w])"] json_ok_update okp ok(2) IndexPart by auto
  next
    case (FieldPart n)
    then obtain m where "parent = JObject m" "v' = replace_at v (butlast p) (JObject (map_put n w m))"
      using set parent by (auto simp: path_set_def split: json.splits)
    moreover have "path_value (JObject (map_put n w m)) (b # r) = path_value (JObject m) (b # r)"
      if "b \<noteq> FieldPart n" for b r using that okp \<open>parent = JObject m\<close> by (cases b) auto
    ultimately show ?thesis
      using that [of "JObject (map_put n w m)"] json_ok_put okp ok(2) FieldPart by auto
  next
    case AnyKeyPart
    with p concrete_snoc show ?thesis by fastforce
  qed
  have "path_value v' (butlast p @ [last p]) = Some w"
    unfolding v' path_value_replace_at [OF ok(1) ex] by (rule here)
  moreover have "path_value v' q = path_value v q" if "fork p q" for q
    using fork_butlast [OF that p(2)]
  proof
    assume "fork (butlast p) q"
    then show ?thesis unfolding v' by (rule path_value_replace_fork [OF ok(1) ex])
  next
    assume "\<exists>b r. q = butlast p @ b # r \<and> b \<noteq> last p"
    then obtain b r where q: "q = butlast p @ b # r" "b \<noteq> last p" by blast
    then show ?thesis unfolding v' q(1) path_value_replace_at [OF ok(1) ex]
      by (simp add: path_value_append parent there)
  qed
  ultimately show ?thesis using split v' okp' json_ok_replace_at [OF ok(1) _ ex] by metis
qed

lemma delete_Inr:
  "deleteDocumentValue v p = Inr v' \<Longrightarrow> json_ok v \<Longrightarrow>
   json_ok v' \<and> (\<forall>q. fork p q \<and> (\<forall>i. last p \<noteq> IndexPart i) \<longrightarrow> path_value v' q = path_value v q)
   \<and> (\<forall>n. last p = FieldPart n \<longrightarrow> path_value v' p = None)"
proof (induction v p arbitrary: v' rule: deleteDocumentValue.induct)
  case (2 v i ps)
  show ?case
  proof (cases "\<exists>xs. v = JList xs \<and> \<not> (i < 0 \<or> i \<ge> int (length xs))")
    case False
    with "2.prems" have "v' = v" by (auto split: json.splits if_splits)
    moreover have "path_value v (IndexPart i # ps) = None" using False by (auto split: json.splits)
    ultimately show ?thesis using "2.prems" by simp
  next
    case True
    then obtain xs where v: "v = JList xs" and i: "\<not> (i < 0 \<or> i \<ge> int (length xs))" by blast
    show ?thesis
    proof (cases "ps = []")
      case True
      with v i "2.prems" show ?thesis
        by (auto simp: list_all_iff) (meson in_set_takeD in_set_dropD)+
    next
      case False
      with v i "2.prems" obtain u where u: "deleteDocumentValue (xs ! nat i) ps = Inr u"
        and v': "v' = JList (xs[nat i := u])" by (auto split: sum.splits)
      have ok: "json_ok (xs ! nat i)" using "2.prems" v i by auto
      note IH = "2.IH" [OF v i False u ok]
      have "path_value v' q = path_value v q"
        if fk: "fork (IndexPart i # ps) q" "\<forall>i. last ps \<noteq> IndexPart i" for q
      proof -
        obtain b r where q: "q = b # r" using fk by (cases q) auto
        show ?thesis using fk IH v v' i q by (cases b) (auto simp: nth_list_update)
      qed
      moreover have "json_ok v'" using IH v v' "2.prems"(2) json_ok_update by blast
      ultimately show ?thesis using IH False v' i by auto
    qed
  qed
next
  case (4 v n ps)
  show ?case
  proof (cases "\<exists>m u. v = JObject m \<and> map_of m n = Some u")
    case False
    with "4.prems" have "v' = v" by (auto split: json.splits option.splits)
    moreover have "path_value v (FieldPart n # ps) = None" using False by (auto split: json.splits option.splits)
    ultimately show ?thesis using "4.prems" by simp
  next
    case True
    then obtain m u where v: "v = JObject m" and u: "map_of m n = Some u" by blast
    have ok: "ordered_map m" "json_ok u" using "4.prems"(2) v u json_ok_member by auto
    show ?thesis
    proof (cases "ps = []")
      case True
      with v u "4.prems" have v': "v' = JObject (map_del n m)" by simp
      moreover have "set (map_del n m) \<subseteq> set m" by (auto simp: map_del_def)
      ultimately have "json_ok v'" using "4.prems"(2) v ok by (auto simp: list_all_iff)
      moreover have "path_value v' q = path_value v q" if fk: "fork [FieldPart n] q" for q
      proof -
        obtain b r where q: "q = b # r" using fk by (cases q) auto
        then show ?thesis using fk v v' by (cases b) auto
      qed
      ultimately show ?thesis using True v' by simp
    next
      case False
      with v u "4.prems" obtain u' where u': "deleteDocumentValue u ps = Inr u'"
        and v': "v' = JObject (map_put n u' m)" by (auto split: sum.splits)
      note IH = "4.IH" [OF v u False u' ok(2)]
      have "path_value v' q = path_value v q"
        if fk: "fork (FieldPart n # ps) q" "\<forall>i. last ps \<noteq> IndexPart i" for q
      proof -
        obtain b r where q: "q = b # r" using fk by (cases q) auto
        show ?thesis using fk IH v v' u ok q by (cases b) auto
      qed
      moreover have "json_ok v'" using IH v v' "4.prems"(2) json_ok_put by blast
      ultimately show ?thesis using IH False v' ok by auto
    qed
  qed
qed auto

lemma delete_index_shifts:
  "json_ok v \<Longrightarrow> path_value v p = Some (JList xs) \<Longrightarrow> 0 \<le> i \<Longrightarrow> i < int (length xs) \<Longrightarrow>
   \<exists>v'. deleteDocumentValue v (p @ [IndexPart i]) = Inr v' \<and>
        path_value v' p = Some (JList (take (nat i) xs @ drop (Suc (nat i)) xs))"
proof (induction v p rule: path_value.induct)
  case (2 v j ps)
  then obtain ys where v: "v = JList ys" and j: "\<not> (j < 0 \<or> j \<ge> int (length ys))"
    and "path_value (ys ! nat j) ps = Some (JList xs)" by (auto split: json.splits if_splits)
  moreover have "json_ok (ys ! nat j)" using "2.prems"(1) v j by auto
  ultimately show ?case using "2.IH" [OF v] j "2.prems" v by auto
next
  case (4 v n ps)
  then obtain m u where v: "v = JObject m" and u: "map_of m n = Some u"
    and "path_value u ps = Some (JList xs)" by (auto split: json.splits option.splits)
  moreover have "json_ok u" "ordered_map m" using "4.prems"(1) v u json_ok_member by auto
  ultimately show ?case using "4.IH" [OF v u] "4.prems" v u by auto
qed auto

lemma delete_present_Inr: "path_value v p \<noteq> None \<Longrightarrow> p \<noteq> [] \<Longrightarrow> \<exists>v'. deleteDocumentValue v p = Inr v'"
proof (induction v p rule: deleteDocumentValue.induct)
  case (2 v i ps)
  then obtain xs where v: "v = JList xs" and i: "\<not> (i < 0 \<or> i \<ge> int (length xs))"
    and "path_value (xs ! nat i) ps \<noteq> None" by (auto split: json.splits if_splits)
  then show ?case using "2.IH" [OF v i] by (cases "ps = []") fastforce+
next
  case (4 v n ps)
  then obtain m u where v: "v = JObject m" and u: "map_of m n = Some u"
    and "path_value u ps \<noteq> None" by (auto split: json.splits option.splits)
  then show ?case using "4.IH" [OF v u] by (cases "ps = []") fastforce+
qed auto

subsection \<open>Path texts are unambiguous\<close>

definition stops :: "char set \<Rightarrow> string \<Rightarrow> bool" where
  "stops D s \<longleftrightarrow> (s = [] \<or> hd s \<in> D)"

lemma split_at_stop:
  assumes "set a \<inter> D = {}" "set b \<inter> D = {}" "stops D s" "stops D t" "a @ s = b @ t"
  shows "a = b \<and> s = t"
proof -
  have cut: "takeWhile (\<lambda>c. c \<notin> D) (x @ y) = x" if "set x \<inter> D = {}" "stops D y" for x y
    using that by (cases y) (auto simp: stops_def disjoint_iff takeWhile_eq_all_conv takeWhile_tail)
  have "a = takeWhile (\<lambda>c. c \<notin> D) (b @ t)" using cut [OF assms(1,3)] assms(5) by simp
  also have "\<dots> = b" by (rule cut [OF assms(2,4)])
  finally show ?thesis using assms(5) by simp
qed

lemma isIdentifier_chars: "isIdentifier n \<Longrightarrow> set n \<inter> {CHR ''.'', CHR ''[''} = {}"
proof -
  assume id: "isIdentifier n"
  have "c \<noteq> CHR ''.'' \<and> c \<noteq> CHR ''[''" if c: "c \<in> set n" for c
  proof -
    from c obtain i where "i < length n" "n ! i = c" by (auto simp: in_set_conv_nth)
    then have "(i, c) \<in> set (enumerate 0 n)" by (auto simp: in_set_enumerate_eq)
    with id show ?thesis
      by (auto simp: isIdentifier_def list_all_iff is_digit_def less_eq_char_def split: if_splits)
  qed
  then show ?thesis by auto
qed

lemma show_int_chars: "set (show_int i) \<inter> {CHR '']''} = {}"
  by (auto simp: show_int_def dest!: show_nat_digits simp: is_digit_def less_eq_char_def)

lemma show_int_inject: "show_int i = show_int j \<Longrightarrow> i = j"
proof -
  have dash: "show_nat n \<noteq> CHR ''-'' # s" for n s
  proof
    assume "show_nat n = CHR ''-'' # s"
    then have "is_digit (CHR ''-'')" by (metis list.set_intros(1) show_nat_digits)
    then show False by (simp add: is_digit_def less_eq_char_def)
  qed
  then show "show_int i = show_int j \<Longrightarrow> i = j"
    by (auto simp: show_int_def dash dash [symmetric] split: if_splits)
qed

lemma hd_show_int: "hd (show_int i) \<noteq> CHR ''*'' \<and> hd (show_int i) \<noteq> CHR 0x22 \<and> show_int i \<noteq> []"
proof -
  have "is_digit (hd (show_nat (nat i)))" by (rule show_nat_digits [of _ "nat i"]) simp
  then have "hd (show_nat (nat i)) \<noteq> CHR ''*''" "hd (show_nat (nat i)) \<noteq> CHR 0x22"
    by (auto simp: is_digit_def less_eq_char_def)
  then show ?thesis by (simp add: show_int_def)
qed

lemma part_String_prefix:
  assumes eq: "part_String a @ s = part_String b @ t"
    and st: "stops {CHR ''.'', CHR ''[''} s" "stops {CHR ''.'', CHR ''[''} t"
  shows "a = b \<and> s = t"
proof -
  have ident: "m = n \<and> s = t" if "isIdentifier m" "isIdentifier n" "m @ s = n @ t" for m n
    using split_at_stop [OF isIdentifier_chars isIdentifier_chars st] that by blast
  have index: "i = j \<and> s = t" if "show_int i @ CHR '']'' # s = show_int j @ CHR '']'' # t" for i j
    using split_at_stop [OF show_int_chars show_int_chars _ _ that] show_int_inject
    by (auto simp: stops_def)
  have quoted: "m = n \<and> s = t" if "go_quote m @ CHR '']'' # s = go_quote n @ CHR '']'' # t" for m n
    using go_quote_prefix [OF that] by simp
  have star: "show_int i @ x \<noteq> CHR ''*'' # y" "show_int i @ x \<noteq> go_quote n @ y"
    "CHR ''*'' # y \<noteq> show_int i @ x" "go_quote n @ y \<noteq> show_int i @ x" for i n x y
    using hd_show_int [of i] by (cases "show_int i"; auto simp: go_quote_def)+
  have quote_star: "go_quote n @ x \<noteq> CHR ''*'' # y" "CHR ''*'' # y \<noteq> go_quote n @ x" for n x y
    by (simp_all add: go_quote_def)
  show ?thesis
    using eq by (cases a; cases b)
      (auto simp: star quote_star split: if_splits dest: ident index quoted)
qed

lemma parts_stop: "stops {CHR ''.'', CHR ''[''} (concat (map part_String p))"
proof (cases p)
  case (Cons a q)
  then show ?thesis by (cases a) (auto simp: stops_def)
qed (simp add: stops_def)

lemma part_String_ne: "part_String a \<noteq> []"
  by (cases a) auto

lemma parts_inject: "concat (map part_String p) = concat (map part_String q) \<Longrightarrow> p = q"
proof (induction p arbitrary: q)
  case Nil
  then show ?case using part_String_ne by (cases q) auto
next
  case (Cons a p)
  then obtain b q' where q: "q = b # q'" using part_String_ne by (cases q) auto
  with Cons.prems have "part_String a @ concat (map part_String p) = part_String b @ concat (map part_String q')"
    by simp
  from part_String_prefix [OF this parts_stop parts_stop] Cons.IH q show ?case by simp
qed

subsection \<open>Properties of documents\<close>

text \<open>
  Writing a value through a path is exact: the document then holds that value there, every
  path that forks off before still reads what it read, and the payload stays well formed.
\<close>

theorem document_set_get:
  assumes "Document_Set d p w = Inr d'" "document_ok d" "json_ok w" "concrete p"
  shows "document_ok d' \<and> Document_Value d' p = Some w
    \<and> (\<forall>q. fork p q \<longrightarrow> Document_Value d' q = Document_Value d q)"
proof (cases "p = []")
  case True
  with assms show ?thesis by (auto simp: Document_Set_def document_ok_def Document_Value_def)
next
  case False
  with assms(1) obtain v v' where v: "doc_root d = Some v" "path_set p v w = Inr v'"
    "d' = d\<lparr>doc_root := Some v'\<rparr>"
    by (auto simp: Document_Set_def split: option.splits sum.splits)
  with path_set_Inr [OF v(2) _ assms(3,4) False] assms(2) show ?thesis
    by (simp add: document_ok_def Document_Value_def)
qed

text \<open>
  Deleting a field removes exactly that field: the path is absent afterwards, every path
  that forks off is unchanged, and the payload stays well formed.
\<close>

theorem document_delete_field:
  assumes "Document_Delete d (p @ [FieldPart n]) = Inr d'" "document_ok d"
  shows "document_ok d' \<and> Document_Value d' (p @ [FieldPart n]) = None
    \<and> (\<forall>q. fork (p @ [FieldPart n]) q \<longrightarrow> Document_Value d' q = Document_Value d q)"
proof (cases "doc_root d")
  case None
  with assms show ?thesis by (auto simp: Document_Delete_def Document_Value_def)
next
  case (Some v)
  with assms(1) obtain v' where v': "deleteDocumentValue v (p @ [FieldPart n]) = Inr v'"
    "d' = d\<lparr>doc_root := Some v'\<rparr>"
    by (auto simp: Document_Delete_def split: sum.splits)
  with delete_Inr [OF v'(1)] Some assms(2) show ?thesis
    by (simp add: document_ok_def Document_Value_def)
qed

text \<open>
  Deleting a list element never fails on an index in range and closes the gap: the elements
  before it keep their index and each later one moves down by one. Occurrences are therefore
  applied in descending index order.
\<close>

theorem document_delete_element:
  assumes "document_ok d" "Document_Value d p = Some (JList xs)" "0 \<le> i" "i < int (length xs)"
  shows "\<exists>d'. Document_Delete d (p @ [IndexPart i]) = Inr d'
    \<and> Document_Value d' p = Some (JList (take (nat i) xs @ drop (Suc (nat i)) xs))"
proof -
  obtain v where v: "doc_root d = Some v" "json_ok v" "path_value v p = Some (JList xs)"
    using assms(1,2) by (auto simp: document_ok_def Document_Value_def split: option.splits)
  from delete_index_shifts [OF v(2,3) assms(3,4)] obtain v' where
    "deleteDocumentValue v (p @ [IndexPart i]) = Inr v'"
    "path_value v' p = Some (JList (take (nat i) xs @ drop (Suc (nat i)) xs))" by blast
  with v show ?thesis
    by (intro exI [of _ "d\<lparr>doc_root := Some v'\<rparr>"]) (simp add: Document_Delete_def Document_Value_def)
qed

text \<open>
  A path that identifies a value can always be rewritten or removed: neither operation
  reports an error on it.
\<close>

theorem present_paths_never_fail:
  assumes "Document_Value d p = Some w"
  shows "(\<exists>d'. Document_Set d p v = Inr d') \<and> (\<exists>d'. Document_Delete d p = Inr d')"
proof (cases "p = []")
  case True
  with assms show ?thesis
    by (auto simp: Document_Set_def Document_Delete_def Document_Value_def split: option.splits)
next
  case False
  obtain u where u: "doc_root d = Some u" "path_value u p = Some w"
    using assms by (auto simp: Document_Value_def split: option.splits)
  have split: "p = butlast p @ [last p]" using False by simp
  then obtain parent where parent: "path_value u (butlast p) = Some parent"
    and at: "path_value parent [last p] = Some w"
    using u(2) path_value_append [of u "butlast p" "[last p]"] by (auto split: option.splits)
  have "\<exists>u'. path_set p u v = Inr u'"
    using at by (cases "last p") (auto simp: path_set_def parent split: json.splits if_splits)
  with u False delete_present_Inr [of u p] show ?thesis
    by (auto simp: Document_Set_def Document_Delete_def)
qed

text \<open>
  A path's text determines the path, whatever characters its field names hold, so the code
  may use the text as the key of a location.
\<close>

theorem path_String_inject: "path_String p = path_String q \<longleftrightarrow> p = q"
  using parts_inject by (auto simp: path_String_def)

end
