(* ===== verification/Payload_Schema.thy ===== *)
theory Payload_Schema
  imports Json_Document
begin

text \<open>
  \<open>internal/schema/schema.go\<close>: the payload types that normalisers and protocols share, the
  checks that make a schema closed, and the validation of a payload against a type.

  A type expression is the struct \<open>Value\<close>; a schema indexes types and operations by name, as
  ordered maps. Errors carry the exact text the code builds.
\<close>

type_synonym type_ref = string

datatype kind =
  KindString | KindNumber | KindBoolean | KindEnum | KindObject | KindList | KindMap | KindOther string

fun kind_text :: "kind \<Rightarrow> string" where
  "kind_text KindString = ''string''"
| "kind_text KindNumber = ''number''"
| "kind_text KindBoolean = ''boolean''"
| "kind_text KindEnum = ''enum''"
| "kind_text KindObject = ''object''"
| "kind_text KindList = ''list''"
| "kind_text KindMap = ''map''"
| "kind_text (KindOther s) = s"

datatype svalue = Value
  (sv_kind: kind) (sv_literals: "string list") (sv_element: "svalue option") (sv_type: type_ref)

text \<open>JSON text of a string as \<open>json.Marshal\<close> writes it (bytes above 127 are copied).\<close>

definition json_quote_char :: "char \<Rightarrow> string" where
  "json_quote_char c =
     (let n = (of_char c :: nat) in
      if n = 34 then [CHR 0x5C, CHR 0x22]
      else if n = 92 then [CHR 0x5C, CHR 0x5C]
      else if n = 8 then [CHR 0x5C, CHR ''b'']
      else if n = 12 then [CHR 0x5C, CHR ''f'']
      else if n = 10 then [CHR 0x5C, CHR ''n'']
      else if n = 13 then [CHR 0x5C, CHR ''r'']
      else if n = 9 then [CHR 0x5C, CHR ''t'']
      else if n < 32 \<or> n = 60 \<or> n = 62 \<or> n = 38 then
        [CHR 0x5C, CHR ''u'', CHR ''0'', CHR ''0'', digit_char (n div 16), digit_char (n mod 16)]
      else [c])"

definition json_quote :: "string \<Rightarrow> string" where
  "json_quote s = CHR 0x22 # concat (map json_quote_char s) @ [CHR 0x22]"

definition quoted :: "string list \<Rightarrow> string list" where
  "quoted literals = map json_quote literals"

definition PropertyName :: "string \<Rightarrow> string" where
  "PropertyName name = (if isIdentifier name then name else json_quote name)"

definition isUnion :: "svalue \<Rightarrow> bool" where
  "isUnion v =
     (case sv_kind v of
        KindEnum \<Rightarrow> sv_type v = [] \<and> length (sv_literals v) > 1
      | KindNumber \<Rightarrow> sv_type v = [] \<and> length (sv_literals v) > 0
      | _ \<Rightarrow> False)"

fun Format :: "(type_ref \<Rightarrow> string) \<Rightarrow> svalue \<Rightarrow> string" where
  "Format ref (Value KindEnum lits e ty) =
     (if ty \<noteq> [] then ref ty else join '' | '' (quoted lits))"
| "Format ref (Value KindNumber lits e ty) =
     (if ty \<noteq> [] then ref ty else join '' | '' (kind_text KindNumber # quoted lits))"
| "Format ref (Value KindObject lits e ty) = ref ty"
| "Format ref (Value KindList lits (Some e) ty) =
     (if isUnion e then ''('' @ Format ref e @ '')'' else Format ref e) @ ''[]''"
| "Format ref (Value KindMap lits (Some e) ty) = ''Record<string, '' @ Format ref e @ ''>''"
| "Format ref (Value k lits e ty) = kind_text k"

definition Value_String :: "svalue \<Rightarrow> string" where
  "Value_String v = Format (\<lambda>name. name) v"

fun Value_Equal :: "svalue \<Rightarrow> svalue \<Rightarrow> bool" where
  "Value_Equal (Value k lits e ty) (Value k' lits' e' ty') =
     (if k \<noteq> k' then False
      else if k = KindEnum \<or> k = KindNumber then sort lits = sort lits'
      else if k = KindObject then ty = ty'
      else if k = KindList \<or> k = KindMap then
        (case (e, e') of
           (Some x, Some x') \<Rightarrow> Value_Equal x x'
         | _ \<Rightarrow> (e \<noteq> None) = (e' \<noteq> None))
      else True)"

record field =
  fl_name :: string
  fl_optional :: bool
  fl_value :: svalue

record stype =
  ty_name :: type_ref
  ty_fields :: "field list"

definition Type_Field :: "stype \<Rightarrow> string \<Rightarrow> field option" where
  "Type_Field t name = find (\<lambda>f. fl_name f = name) (ty_fields t)"

record operation =
  op_name :: string
  op_request :: type_ref
  op_response :: type_ref

record schema =
  sc_types :: "(type_ref \<times> stype) list"
  sc_operations :: "(string \<times> operation) list"

definition Schema_Type :: "schema \<Rightarrow> type_ref \<Rightarrow> stype result" where
  "Schema_Type s name =
     (case map_of (sc_types s) name of
        None \<Rightarrow> Inl (''type '' @ go_quote name @ '' is not declared'')
      | Some t \<Rightarrow> Inr t)"

definition Schema_Operation :: "schema \<Rightarrow> string \<Rightarrow> operation result" where
  "Schema_Operation s name =
     (case map_of (sc_operations s) name of
        None \<Rightarrow> Inl (''operation '' @ go_quote name @ '' is not declared'')
      | Some op \<Rightarrow> Inr op)"

definition Schema_Types :: "schema \<Rightarrow> stype list" where
  "Schema_Types s = map snd (sc_types s)"

definition Schema_Operations :: "schema \<Rightarrow> operation list" where
  "Schema_Operations s = map snd (sc_operations s)"

fun checkValue :: "schema \<Rightarrow> svalue \<Rightarrow> unit result" where
  "checkValue s (Value KindObject lits e ty) =
     (if map_of (sc_types s) ty = None then Inl (''type '' @ go_quote ty @ '' is not declared'') else Inr ())"
| "checkValue s (Value KindList lits None ty) = Inl ''list has no element type''"
| "checkValue s (Value KindMap lits None ty) = Inl ''map has no element type''"
| "checkValue s (Value KindList lits (Some e) ty) = checkValue s e"
| "checkValue s (Value KindMap lits (Some e) ty) = checkValue s e"
| "checkValue s (Value KindEnum lits e ty) = (if lits = [] then Inl ''enum has no literals'' else Inr ())"
| "checkValue s (Value (KindOther k) lits e ty) = Inl (''unknown value kind '' @ go_quote k)"
| "checkValue s (Value k lits e ty) = Inr ()"

fun add_types :: "stype list \<Rightarrow> schema \<Rightarrow> schema result" where
  "add_types [] s = Inr s"
| "add_types (t # ts) s =
     (if map_of (sc_types s) (ty_name t) \<noteq> None
      then Inl (''type '' @ go_quote (ty_name t) @ '' is declared more than once'')
      else add_types ts (s\<lparr>sc_types := map_put (ty_name t) t (sc_types s)\<rparr>))"

fun add_operations :: "operation list \<Rightarrow> schema \<Rightarrow> schema result" where
  "add_operations [] s = Inr s"
| "add_operations (op # ops) s =
     (if map_of (sc_operations s) (op_name op) \<noteq> None
      then Inl (''operation '' @ go_quote (op_name op) @ '' is declared more than once'')
      else add_operations ops (s\<lparr>sc_operations := map_put (op_name op) op (sc_operations s)\<rparr>))"

fun check_fields :: "schema \<Rightarrow> type_ref \<Rightarrow> string list \<Rightarrow> field list \<Rightarrow> unit result" where
  "check_fields s ty names [] = Inr ()"
| "check_fields s ty names (f # fs) =
     (if fl_name f \<in> set names
      then Inl (''type '' @ go_quote ty @ '' declares field '' @ go_quote (fl_name f) @ '' more than once'')
      else case checkValue s (fl_value f) of
        Inl e \<Rightarrow> Inl (wrap (''field '' @ go_quote (fl_name f) @ '' of type '' @ go_quote ty) e)
      | Inr _ \<Rightarrow> check_fields s ty (fl_name f # names) fs)"

fun check_types :: "schema \<Rightarrow> stype list \<Rightarrow> unit result" where
  "check_types s [] = Inr ()"
| "check_types s (t # ts) =
     (case check_fields s (ty_name t) [] (ty_fields t) of Inl e \<Rightarrow> Inl e | Inr _ \<Rightarrow> check_types s ts)"

fun check_operation :: "schema \<Rightarrow> operation \<Rightarrow> type_ref list \<Rightarrow> unit result" where
  "check_operation s op [] = Inr ()"
| "check_operation s op (name # names) =
     (if map_of (sc_types s) name = None
      then Inl (''operation '' @ go_quote (op_name op) @ '' refers to undeclared type '' @ go_quote name)
      else check_operation s op names)"

fun check_operations :: "schema \<Rightarrow> operation list \<Rightarrow> unit result" where
  "check_operations s [] = Inr ()"
| "check_operations s (op # ops) =
     (case check_operation s op [op_request op, op_response op] of
        Inl e \<Rightarrow> Inl e | Inr _ \<Rightarrow> check_operations s ops)"

definition New_Schema :: "stype list \<Rightarrow> operation list \<Rightarrow> schema result" where
  "New_Schema types operations =
     bind_result (add_types types \<lparr>sc_types = [], sc_operations = []\<rparr>) (\<lambda>s1.
     bind_result (add_operations operations s1) (\<lambda>s2.
     bind_result (check_types s2 types) (\<lambda>_.
     bind_result (check_operations s2 operations) (\<lambda>_. Inr s2))))"

fun jsonKind :: "json \<Rightarrow> string" where
  "jsonKind JNull = ''null''"
| "jsonKind (JString _) = ''a string''"
| "jsonKind (JNumber _) = ''a number''"
| "jsonKind (JBool _) = ''a boolean''"
| "jsonKind (JList _) = ''an array''"
| "jsonKind (JObject _) = ''an object''"

lemma size_member: "map_of m n = Some w \<Longrightarrow> size w < size (JObject m)"
  by (induction m) (auto split: if_splits)

definition mismatch :: "string \<Rightarrow> svalue \<Rightarrow> json \<Rightarrow> string option" where
  "mismatch path expected v =
     Some (path @ '': expected '' @ Value_String expected @ '', found '' @ jsonKind v)"

definition undeclared_key :: "stype \<Rightarrow> (string \<times> json) list \<Rightarrow> bool" where
  "undeclared_key t m = list_ex (\<lambda>k. Type_Field t k = None) (keys m)"

text \<open>
  \<open>validate\<close> returns the error, if any. The loops over list elements, map entries and declared
  fields are functions of their own; recursion is on the payload.
\<close>

function (sequential) validate :: "schema \<Rightarrow> svalue \<Rightarrow> json \<Rightarrow> string \<Rightarrow> string option"
  and validate_items :: "schema \<Rightarrow> svalue \<Rightarrow> nat \<Rightarrow> json list \<Rightarrow> string \<Rightarrow> string option"
  and validate_entries :: "schema \<Rightarrow> svalue \<Rightarrow> (string \<times> json) list \<Rightarrow> string \<Rightarrow> string option"
  and validate_fields ::
    "schema \<Rightarrow> type_ref \<Rightarrow> field list \<Rightarrow> (string \<times> json) list \<Rightarrow> string \<Rightarrow> string option"
where
  "validate s expected v path =
     (case sv_kind expected of
        KindString \<Rightarrow> (case v of JString _ \<Rightarrow> None | _ \<Rightarrow> mismatch path expected v)
      | KindNumber \<Rightarrow>
          (case v of
             JNumber _ \<Rightarrow> None
           | JString l \<Rightarrow> if l \<in> set (sv_literals expected) then None else mismatch path expected v
           | _ \<Rightarrow> mismatch path expected v)
      | KindBoolean \<Rightarrow> (case v of JBool _ \<Rightarrow> None | _ \<Rightarrow> mismatch path expected v)
      | KindEnum \<Rightarrow>
          (case v of
             JString l \<Rightarrow>
               if l \<in> set (sv_literals expected) then None
               else Some (path @ '': value is not one of '' @ Value_String expected)
           | _ \<Rightarrow> mismatch path expected v)
      | KindList \<Rightarrow>
          (case sv_element expected of
             None \<Rightarrow> Some (path @ '': list has no element type'')
           | Some e \<Rightarrow>
               (case v of JList xs \<Rightarrow> validate_items s e 0 xs path | _ \<Rightarrow> mismatch path expected v))
      | KindMap \<Rightarrow>
          (case sv_element expected of
             None \<Rightarrow> Some (path @ '': map has no element type'')
           | Some e \<Rightarrow>
               (case v of JObject m \<Rightarrow> validate_entries s e m path | _ \<Rightarrow> mismatch path expected v))
      | KindObject \<Rightarrow>
          (case v of
             JObject m \<Rightarrow>
               (case Schema_Type s (sv_type expected) of
                  Inl e \<Rightarrow> Some (wrap path e)
                | Inr t \<Rightarrow>
                    if undeclared_key t m
                    then Some (path @ '': type '' @ go_quote (sv_type expected)
                               @ '' has a field it does not declare'')
                    else validate_fields s (sv_type expected) (ty_fields t) m path)
           | _ \<Rightarrow> mismatch path expected v)
      | KindOther _ \<Rightarrow> mismatch path expected v)"
| "validate_items s e i [] path = None"
| "validate_items s e i (x # xs) path =
     (case validate s e x (path @ ''['' @ show_nat i @ '']'') of
        Some err \<Rightarrow> Some err
      | None \<Rightarrow> validate_items s e (Suc i) xs path)"
| "validate_entries s e [] path = None"
| "validate_entries s e ((k, x) # m) path =
     (case validate s e x (path @ ''[*]'') of
        Some err \<Rightarrow> Some err
      | None \<Rightarrow> validate_entries s e m path)"
| "validate_fields s ty [] m path = None"
| "validate_fields s ty (f # fs) m path =
     (case map_of m (fl_name f) of
        None \<Rightarrow>
          (if fl_optional f then validate_fields s ty fs m path
           else Some (path @ '': required field '' @ go_quote (fl_name f) @ '' of type ''
                      @ go_quote ty @ '' is missing''))
      | Some x \<Rightarrow>
          (case validate s (fl_value f) x (path @ ''.'' @ fl_name f) of
             Some err \<Rightarrow> Some err
           | None \<Rightarrow> validate_fields s ty fs m path))"
  by pat_completeness auto

text \<open>The payload shrinks, or one more declared field is done.\<close>

termination
  by (relation "measures
        [\<lambda>x. case x of
           Inl (Inl (s, e, v, p)) \<Rightarrow> size v
         | Inl (Inr (s, e, i, xs, p)) \<Rightarrow> size (JList xs)
         | Inr (Inl (s, e, m, p)) \<Rightarrow> size (JObject m)
         | Inr (Inr (s, ty, fs, m, p)) \<Rightarrow> size (JObject m),
         \<lambda>x. case x of
           Inl (Inl _) \<Rightarrow> 1
         | _ \<Rightarrow> 0,
         \<lambda>x. case x of
           Inr (Inr (s, ty, fs, m, p)) \<Rightarrow> length fs
         | _ \<Rightarrow> 0]")
     (auto dest: size_member)

declare validate.simps [simp del]

definition Validate :: "schema \<Rightarrow> type_ref \<Rightarrow> json \<Rightarrow> string option" where
  "Validate s name v = validate s (Value KindObject [] None name) v ''$''"

subsection \<open>What it means to be an instance of a type\<close>

text \<open>The declarative reading: which JSON a type expression describes.\<close>

inductive instance_of :: "schema \<Rightarrow> svalue \<Rightarrow> json \<Rightarrow> bool" for s where
  inst_string: "sv_kind e = KindString \<Longrightarrow> instance_of s e (JString t)"
| inst_number: "sv_kind e = KindNumber \<Longrightarrow> instance_of s e (JNumber n)"
| inst_literal: "sv_kind e = KindNumber \<or> sv_kind e = KindEnum \<Longrightarrow> t \<in> set (sv_literals e) \<Longrightarrow>
    instance_of s e (JString t)"
| inst_boolean: "sv_kind e = KindBoolean \<Longrightarrow> instance_of s e (JBool b)"
| inst_list: "sv_kind e = KindList \<Longrightarrow> sv_element e = Some x \<Longrightarrow>
    (\<And>v. v \<in> set vs \<Longrightarrow> instance_of s x v) \<Longrightarrow> instance_of s e (JList vs)"
| inst_map: "sv_kind e = KindMap \<Longrightarrow> sv_element e = Some x \<Longrightarrow>
    (\<And>k v. (k, v) \<in> set m \<Longrightarrow> instance_of s x v) \<Longrightarrow> instance_of s e (JObject m)"
| inst_object: "sv_kind e = KindObject \<Longrightarrow> map_of (sc_types s) (sv_type e) = Some t \<Longrightarrow>
    (\<And>k. k \<in> set (keys m) \<Longrightarrow> Type_Field t k \<noteq> None) \<Longrightarrow>
    (\<And>f v. f \<in> set (ty_fields t) \<Longrightarrow> map_of m (fl_name f) = Some v \<Longrightarrow> instance_of s (fl_value f) v) \<Longrightarrow>
    (\<And>f. f \<in> set (ty_fields t) \<Longrightarrow> map_of m (fl_name f) = None \<Longrightarrow> fl_optional f) \<Longrightarrow>
    instance_of s e (JObject m)"

inductive_simps instance_of_iff: "instance_of s e v"
inductive_simps instance_enum: "instance_of s (Value KindEnum l a t) v"
inductive_simps instance_number: "instance_of s (Value KindNumber l a t) v"
inductive_simps instance_bare_list: "instance_of s (Value KindList l None t) v"
inductive_simps instance_bare_map: "instance_of s (Value KindMap l None t) v"

lemma instance_object_iff:
  assumes "sv_kind e = KindObject" "map_of (sc_types s) (sv_type e) = Some t"
  shows "instance_of s e (JObject m) \<longleftrightarrow>
     (\<forall>k \<in> set (keys m). Type_Field t k \<noteq> None)
     \<and> (\<forall>f \<in> set (ty_fields t). case map_of m (fl_name f) of
           None \<Rightarrow> fl_optional f | Some x \<Rightarrow> instance_of s (fl_value f) x)" (is "_ \<longleftrightarrow> ?R")
proof
  assume "instance_of s e (JObject m)"
  then show ?R using assms by (cases rule: instance_of.cases) (auto split: option.splits)
next
  assume r: ?R
  show "instance_of s e (JObject m)"
  proof (rule inst_object [OF assms])
    fix f v assume "f \<in> set (ty_fields t)" "map_of m (fl_name f) = Some v"
    with r show "instance_of s (fl_value f) v" by fastforce
  next
    fix f assume "f \<in> set (ty_fields t)" "map_of m (fl_name f) = None"
    with r show "fl_optional f" by fastforce
  qed (use r in auto)
qed

lemma validate_scalar:
  "sv_kind e \<notin> {KindList, KindMap, KindObject} \<Longrightarrow> validate s e v p = None \<longleftrightarrow> instance_of s e v"
  by (subst validate.simps) (cases "sv_kind e"; cases v; simp add: mismatch_def instance_of_iff [of s e])

lemma validate_correct:
  "validate s e v p = None \<longleftrightarrow> instance_of s e v"
  "validate_items s e i xs p = None \<longleftrightarrow> (\<forall>x \<in> set xs. instance_of s e x)"
  "validate_entries s e m p = None \<longleftrightarrow> (\<forall>k x. (k, x) \<in> set m \<longrightarrow> instance_of s e x)"
  "validate_fields s ty fs m p = None \<longleftrightarrow>
     (\<forall>f \<in> set fs. case map_of m (fl_name f) of
        None \<Rightarrow> fl_optional f | Some x \<Rightarrow> instance_of s (fl_value f) x)"
proof (induction s e v p and s e i xs p and s e m p and s ty fs m p
       rule: validate_validate_items_validate_entries_validate_fields.induct)
  case (1 s e v p)
  show ?case
  proof (cases "sv_kind e")
    case KindList
    with 1 show ?thesis
      by (subst validate.simps) (auto simp: mismatch_def instance_of_iff [of s e] split: option.splits json.splits)
  next
    case KindMap
    with 1 show ?thesis
      by (subst validate.simps) (auto simp: mismatch_def instance_of_iff [of s e] split: option.splits json.splits)
  next
    case KindObject
    show ?thesis
    proof (cases "\<exists>m. v = JObject m")
      case False
      with KindObject show ?thesis
        by (subst validate.simps) (auto simp: mismatch_def instance_of_iff [of s e] split: json.splits)
    next
      case True
      then obtain m where v: "v = JObject m" by blast
      note IH = "1.IH"(1) [OF KindObject v]
      show ?thesis
      proof (cases "map_of (sc_types s) (sv_type e)")
        case None
        with KindObject v show ?thesis
          by (subst validate.simps) (auto simp: Schema_Type_def instance_of_iff [of s e])
      next
        case (Some t)
        then have T: "Schema_Type s (sv_type e) = Inr t" by (simp add: Schema_Type_def)
        show ?thesis
        proof (cases "undeclared_key t m")
          case True
          with KindObject v Some T show ?thesis
            by (subst validate.simps) (auto simp: instance_of_iff [of s e] undeclared_key_def list_ex_iff)
        next
          case False
          then have decl: "\<forall>k \<in> set (keys m). Type_Field t k \<noteq> None"
            by (auto simp: undeclared_key_def list_ex_iff)
          have "validate s e v p = validate_fields s (sv_type e) (ty_fields t) m p"
            using KindObject v T False by (subst validate.simps) simp
          also have "\<dots> = None \<longleftrightarrow> (\<forall>f \<in> set (ty_fields t). case map_of m (fl_name f) of
              None \<Rightarrow> fl_optional f | Some x \<Rightarrow> instance_of s (fl_value f) x)"
            by (rule IH [OF T False])
          also have "\<dots> \<longleftrightarrow> instance_of s e v"
            using decl by (simp add: v instance_object_iff [OF KindObject Some])
          finally show ?thesis .
        qed
      qed
    qed
  qed (simp_all add: validate_scalar)
next
  case (3 s e i x xs p)
  then show ?case by (auto split: option.splits)
next
  case (5 s e k x m p)
  then show ?case by (auto split: option.splits)
next
  case (7 s ty f fs m p)
  then show ?case by (auto split: option.splits) fastforce?
qed auto

subsection \<open>Closed schemas\<close>

definition schema_closed :: "schema \<Rightarrow> bool" where
  "schema_closed s \<longleftrightarrow>
     (\<forall>n t. map_of (sc_types s) n = Some t \<longrightarrow>
        ty_name t = n \<and> distinct (map fl_name (ty_fields t))
        \<and> (\<forall>f \<in> set (ty_fields t). checkValue s (fl_value f) = Inr ()))
     \<and> (\<forall>n op. map_of (sc_operations s) n = Some op \<longrightarrow>
        op_name op = n \<and> map_of (sc_types s) (op_request op) \<noteq> None
        \<and> map_of (sc_types s) (op_response op) \<noteq> None)"

lemma add_types_Inr:
  "add_types ts s = Inr s' \<Longrightarrow> ordered_map (sc_types s) \<Longrightarrow>
   ordered_map (sc_types s') \<and> sc_operations s' = sc_operations s \<and> distinct (map ty_name ts)
   \<and> map_of (sc_types s') = map_of (sc_types s) ++ map_of (map (\<lambda>t. (ty_name t, t)) ts)
   \<and> (\<forall>t \<in> set ts. map_of (sc_types s) (ty_name t) = None)"
proof (induction ts arbitrary: s)
  case (Cons t ts)
  let ?s = "s\<lparr>sc_types := map_put (ty_name t) t (sc_types s)\<rparr>"
  from Cons.prems have t: "map_of (sc_types s) (ty_name t) = None" and r: "add_types ts ?s = Inr s'"
    by (auto split: if_splits)
  note IH = Cons.IH [OF r]
  then have "\<forall>u \<in> set ts. ty_name u \<noteq> ty_name t" "\<forall>u \<in> set ts. map_of (sc_types s) (ty_name u) = None"
    using Cons.prems(2) by (auto split: if_splits)
  moreover from this have "ty_name t \<notin> dom (map_of (map (\<lambda>t. (ty_name t, t)) ts))"
    by (auto simp: dom_map_of_conv_image_fst image_iff)
  ultimately show ?case using IH t Cons.prems(2)
    by (auto simp: map_add_def fun_eq_iff split: option.splits)
qed simp

lemma add_operations_Inr:
  "add_operations ops s = Inr s' \<Longrightarrow> ordered_map (sc_operations s) \<Longrightarrow>
   sc_types s' = sc_types s \<and>
   (\<forall>n op. map_of (sc_operations s') n = Some op \<longrightarrow>
      map_of (sc_operations s) n = Some op \<or> op \<in> set ops \<and> op_name op = n)"
proof (induction ops arbitrary: s)
  case (Cons op ops)
  let ?s = "s\<lparr>sc_operations := map_put (op_name op) op (sc_operations s)\<rparr>"
  from Cons.prems have r: "add_operations ops ?s = Inr s'" by (auto split: if_splits)
  have put: "map_of (sc_operations ?s) = (map_of (sc_operations s))(op_name op \<mapsto> op)"
    using Cons.prems(2) by simp
  have IH: "sc_types s' = sc_types s"
    "\<And>n op'. map_of (sc_operations s') n = Some op' \<Longrightarrow>
       map_of (sc_operations ?s) n = Some op' \<or> op' \<in> set ops \<and> op_name op' = n"
    using Cons.IH [OF r] Cons.prems(2) by simp_all
  show ?case
  proof (intro conjI allI impI)
    fix n op' assume "map_of (sc_operations s') n = Some op'"
    from IH(2) [OF this]
    show "map_of (sc_operations s) n = Some op' \<or> op' \<in> set (op # ops) \<and> op_name op' = n"
      unfolding put by (auto split: if_splits)
  qed (rule IH(1))
qed simp

lemma check_fields_Inr:
  "check_fields s ty names fs = Inr () \<Longrightarrow>
   distinct (map fl_name fs) \<and> set names \<inter> set (map fl_name fs) = {}
   \<and> (\<forall>f \<in> set fs. checkValue s (fl_value f) = Inr ())"
  by (induction s ty names fs rule: check_fields.induct) (auto split: if_splits sum.splits)

lemma check_types_Inr:
  "check_types s ts = Inr () \<Longrightarrow> t \<in> set ts \<Longrightarrow>
   distinct (map fl_name (ty_fields t)) \<and> (\<forall>f \<in> set (ty_fields t). checkValue s (fl_value f) = Inr ())"
  by (induction s ts rule: check_types.induct) (auto split: sum.splits dest: check_fields_Inr)

lemma check_operations_Inr:
  "check_operations s ops = Inr () \<Longrightarrow> op \<in> set ops \<Longrightarrow>
   map_of (sc_types s) (op_request op) \<noteq> None \<and> map_of (sc_types s) (op_response op) \<noteq> None"
  by (induction s ops rule: check_operations.induct) (auto split: sum.splits if_splits)

lemma New_Schema_types:
  assumes "New_Schema types operations = Inr s"
  shows "distinct (map ty_name types)
    \<and> map_of (sc_types s) = map_of (map (\<lambda>t. (ty_name t, t)) types)
    \<and> check_types s types = Inr () \<and> check_operations s operations = Inr ()
    \<and> (\<forall>n op. map_of (sc_operations s) n = Some op \<longrightarrow> op \<in> set operations \<and> op_name op = n)"
proof -
  obtain s1 where s1: "add_types types \<lparr>sc_types = [], sc_operations = []\<rparr> = Inr s1"
    "add_operations operations s1 = Inr s" "check_types s types = Inr ()"
    "check_operations s operations = Inr ()"
    using assms by (auto simp: New_Schema_def)
  from add_types_Inr [OF s1(1)] add_operations_Inr [OF s1(2)] s1(3,4) show ?thesis by simp
qed

lemma New_Schema_indexes:
  assumes "New_Schema types operations = Inr s" "t \<in> set types"
  shows "Schema_Type s (ty_name t) = Inr t"
proof -
  have "map_of (sc_types s) (ty_name t) = Some t"
    using New_Schema_types [OF assms(1)] assms(2) by (auto intro!: map_of_is_SomeI simp: comp_def)
  then show ?thesis by (simp add: Schema_Type_def)
qed

lemma New_Schema_is_closed:
  assumes "New_Schema types operations = Inr s"
  shows "schema_closed s"
proof -
  note facts = New_Schema_types [OF assms]
  have "map_of (sc_types s) n = Some t \<Longrightarrow> t \<in> set types \<and> ty_name t = n" for n t
    using facts by (auto dest: map_of_SomeD)
  with facts show ?thesis
    unfolding schema_closed_def using check_types_Inr check_operations_Inr by blast
qed

text \<open>
  A schema that loads is closed: every type is indexed under its own name, no type declares
  a field twice, and every type that a field or an operation refers to is declared.
\<close>

theorem New_Schema_closed:
  assumes "New_Schema types operations = Inr s"
  shows "schema_closed s \<and> distinct (map ty_name types)
    \<and> (\<forall>t \<in> set types. Schema_Type s (ty_name t) = Inr t)"
  using New_Schema_is_closed [OF assms] New_Schema_indexes [OF assms] New_Schema_types [OF assms] by blast

text \<open>
  C27. Validation accepts exactly the instances of a type, as the declarative reading defines
  them: a payload passes if and only if it has that shape.
\<close>

theorem Validate_iff_instance:
  "Validate s name v = None \<longleftrightarrow> instance_of s (Value KindObject [] None name) v"
  by (simp add: Validate_def validate_correct)

subsection \<open>Equality of type expressions\<close>

lemma instance_list_iff:
  "sv_kind e = KindList \<Longrightarrow> sv_element e = Some x \<Longrightarrow>
   instance_of s e v \<longleftrightarrow> (\<exists>vs. v = JList vs \<and> (\<forall>u \<in> set vs. instance_of s x u))"
  by (subst instance_of_iff) auto

lemma instance_map_iff:
  "sv_kind e = KindMap \<Longrightarrow> sv_element e = Some x \<Longrightarrow>
   instance_of s e v \<longleftrightarrow> (\<exists>m. v = JObject m \<and> (\<forall>k u. (k, u) \<in> set m \<longrightarrow> instance_of s x u))"
  by (subst instance_of_iff) auto

lemma sort_eq_set: "sort xs = sort (ys :: string list) \<Longrightarrow> set xs = set ys"
  by (metis set_sort)

text \<open>
  Type expressions that compare equal accept the same JSON, so a schema may swap one for
  the other.
\<close>

theorem Value_Equal_same_instances:
  assumes "Value_Equal v w"
  shows "instance_of s v x \<longleftrightarrow> instance_of s w x"
  using assms
proof (induction v w arbitrary: x rule: Value_Equal.induct)
  case (1 k lits e ty k' lits' e' ty')
  have k: "k' = k" using "1.prems" by (simp split: if_splits)
  consider (literals) "k = KindEnum \<or> k = KindNumber" | (container) "k = KindList \<or> k = KindMap"
    | (other) "k \<noteq> KindEnum" "k \<noteq> KindNumber" "k \<noteq> KindList" "k \<noteq> KindMap" by blast
  then show ?case
  proof cases
    case literals
    then have "set lits = set lits'" using "1.prems" k by (auto dest: sort_eq_set)
    with literals k show ?thesis by (elim disjE) (simp_all add: instance_enum instance_number)
  next
    case container
    show ?thesis
    proof (cases "e = None \<or> e' = None")
      case True
      then have "e = None" "e' = None" using "1.prems" k container by (auto split: option.splits if_splits)
      with container k show ?thesis
        by (elim disjE) (simp_all add: instance_bare_list instance_bare_map)
    next
      case False
      then obtain a b where ab: "e = Some a" "e' = Some b" by auto
      then have "Value_Equal a b" using "1.prems" k container by auto
      then have "instance_of s a y \<longleftrightarrow> instance_of s b y" for y
        using "1.IH" [of e e' a b] container k ab by auto
      with container k ab show ?thesis
        by (elim disjE) (simp_all add: instance_list_iff instance_map_iff)
    qed
  next
    case other
    have "k = KindObject \<Longrightarrow> ty = ty'" using "1.prems" k by simp
    with other k show ?thesis 
      by (cases "k = KindObject")
        (simp_all add: instance_of_iff [of s "Value k l a t" for l a t]
          instance_of_iff [of s "Value KindObject l a t" for l a t])
  qed
qed

subsection \<open>Validation errors name only the schema\<close>

text \<open>
  The paths and messages an error may hold, built from declared names, list indexes and JSON
  kinds alone: neither predicate mentions a payload.
\<close>

inductive schema_path :: "schema \<Rightarrow> string \<Rightarrow> bool" for s where
  sp_root: "schema_path s ''$''"
| sp_index: "schema_path s p \<Longrightarrow> schema_path s (p @ ''['' @ show_nat i @ '']'')"
| sp_any: "schema_path s p \<Longrightarrow> schema_path s (p @ ''[*]'')"
| sp_field: "schema_path s p \<Longrightarrow> map_of (sc_types s) ty = Some t \<Longrightarrow> f \<in> set (ty_fields t) \<Longrightarrow>
    schema_path s (p @ ''.'' @ fl_name f)"

definition json_kinds :: "string set" where
  "json_kinds = {''null'', ''a string'', ''a number'', ''a boolean'', ''an array'', ''an object''}"

inductive schema_message :: "schema \<Rightarrow> string \<Rightarrow> bool" for s where
  sm_expected: "checkValue s e = Inr () \<Longrightarrow> k \<in> json_kinds \<Longrightarrow>
    schema_message s (''expected '' @ Value_String e @ '', found '' @ k)"
| sm_enum: "checkValue s e = Inr () \<Longrightarrow> schema_message s (''value is not one of '' @ Value_String e)"
| sm_undeclared: "map_of (sc_types s) ty = Some t \<Longrightarrow>
    schema_message s (''type '' @ go_quote ty @ '' has a field it does not declare'')"
| sm_missing: "map_of (sc_types s) ty = Some t \<Longrightarrow> f \<in> set (ty_fields t) \<Longrightarrow>
    schema_message s (''required field '' @ go_quote (fl_name f) @ '' of type '' @ go_quote ty @ '' is missing'')"

definition schema_error :: "schema \<Rightarrow> string \<Rightarrow> bool" where
  "schema_error s err \<longleftrightarrow> (\<exists>p msg. schema_path s p \<and> schema_message s msg \<and> err = p @ '': '' @ msg)"

lemma schema_errorI: "schema_path s p \<Longrightarrow> schema_message s msg \<Longrightarrow> err = p @ '': '' @ msg \<Longrightarrow> schema_error s err"
  by (auto simp: schema_error_def)

lemma jsonKind_in: "jsonKind v \<in> json_kinds"
  by (cases v) (simp_all add: json_kinds_def)

lemma mismatch_error:
  "schema_path s p \<Longrightarrow> checkValue s e = Inr () \<Longrightarrow> mismatch p e v = Some err \<Longrightarrow> schema_error s err"
  by (rule schema_errorI, assumption, rule sm_expected [OF _ jsonKind_in [of v]]) (auto simp: mismatch_def)

lemma checkValue_element:
  "checkValue s e = Inr () \<Longrightarrow> sv_kind e = KindList \<or> sv_kind e = KindMap \<Longrightarrow>
   \<exists>x. sv_element e = Some x \<and> checkValue s x = Inr ()"
  by (cases e; cases "sv_element e") auto

lemma checkValue_object:
  "checkValue s e = Inr () \<Longrightarrow> sv_kind e = KindObject \<Longrightarrow> \<exists>t. map_of (sc_types s) (sv_type e) = Some t"
  by (cases e) (auto split: if_splits)

lemma closed_field:
  "schema_closed s \<Longrightarrow> map_of (sc_types s) ty = Some t \<Longrightarrow> f \<in> set (ty_fields t) \<Longrightarrow>
   checkValue s (fl_value f) = Inr ()"
  by (auto simp: schema_closed_def)

lemma validate_errors:
  "schema_closed s \<Longrightarrow> checkValue s e = Inr () \<Longrightarrow> schema_path s p \<Longrightarrow>
     validate s e v p = Some err \<Longrightarrow> schema_error s err"
  "schema_closed s \<Longrightarrow> checkValue s e = Inr () \<Longrightarrow> schema_path s p \<Longrightarrow>
     validate_items s e i xs p = Some err \<Longrightarrow> schema_error s err"
  "schema_closed s \<Longrightarrow> checkValue s e = Inr () \<Longrightarrow> schema_path s p \<Longrightarrow>
     validate_entries s e m p = Some err \<Longrightarrow> schema_error s err"
  "schema_closed s \<Longrightarrow> map_of (sc_types s) ty = Some t \<Longrightarrow> set fs \<subseteq> set (ty_fields t) \<Longrightarrow> schema_path s p \<Longrightarrow>
     validate_fields s ty fs m p = Some err \<Longrightarrow> schema_error s err"
proof (induction s e v p and s e i xs p and s e m p and s ty fs m p
       arbitrary: err and err and err and t err
       rule: validate_validate_items_validate_entries_validate_fields.induct)
  case (1 s e v p)
  note path = "1.prems"(3) and check = "1.prems"(2)
  show ?case
  proof (cases "sv_kind e")
    case KindObject
    obtain t where t: "map_of (sc_types s) (sv_type e) = Some t"
      using checkValue_object [OF check KindObject] by blast
    then have T: "Schema_Type s (sv_type e) = Inr t" by (simp add: Schema_Type_def)
    show ?thesis
    proof (cases "\<exists>m. v = JObject m")
      case True
      then obtain m where v: "v = JObject m" by blast
      show ?thesis
      proof (cases "undeclared_key t m")
        case True
        with "1.prems"(4) KindObject v T show ?thesis
          by (intro schema_errorI [OF path sm_undeclared [OF t]]) (simp add: validate.simps)
      next
        case False
        with "1.prems"(4) KindObject v T have "validate_fields s (sv_type e) (ty_fields t) m p = Some err"
          by (simp add: validate.simps)
        with "1.IH"(1) [OF KindObject v T False "1.prems"(1) t _ path] show ?thesis by simp
      qed
    next
      case False
      with "1.prems"(4) KindObject mismatch_error [OF path check] show ?thesis
        by (cases v) (auto simp: validate.simps [of s e])
    qed
  next
    case KindList
    obtain x where x: "sv_element e = Some x" "checkValue s x = Inr ()"
      using checkValue_element [OF check] KindList by blast
    show ?thesis
      using "1.IH"(2) [OF KindList x(1) _ "1.prems"(1) x(2) path] "1.prems"(4) KindList x mismatch_error [OF path check]
      by (cases v) (auto simp: validate.simps [of s e])
  next
    case KindMap
    obtain x where x: "sv_element e = Some x" "checkValue s x = Inr ()"
      using checkValue_element [OF check] KindMap by blast
    show ?thesis
      using "1.IH"(3) [OF KindMap x(1) _ "1.prems"(1) x(2) path] "1.prems"(4) KindMap x mismatch_error [OF path check]
      by (cases v) (auto simp: validate.simps [of s e])
  next
    case KindEnum
    have "schema_error s (p @ '': value is not one of '' @ Value_String e)"
      by (rule schema_errorI [OF path sm_enum [OF check]]) simp
    with "1.prems"(4) KindEnum mismatch_error [OF path check] show ?thesis
      by (cases v) (auto simp: validate.simps [of s e] split: if_splits)
  qed (use "1.prems"(4) mismatch_error [OF path check] in
       \<open>cases v; auto simp: validate.simps [of s e] split: if_splits\<close>)+
next
  case (3 s e i x xs p)
  from sp_index [OF "3.prems"(3), of i] "3" show ?case by (auto split: option.splits)
next
  case (5 s e k x m p)
  from sp_any [OF "5.prems"(3)] "5" show ?case by (auto split: option.splits)
next
  case (7 s ty f fs m p)
  note t = "7.prems"(2) and path = "7.prems"(4)
  have f: "f \<in> set (ty_fields t)" and sub: "set fs \<subseteq> set (ty_fields t)" using "7.prems"(3) by auto
  have missing: "schema_error s (p @ '': required field '' @ go_quote (fl_name f) @ '' of type ''
      @ go_quote ty @ '' is missing'')"
    by (rule schema_errorI [OF path sm_missing [OF t f]]) simp
  note check = closed_field [OF "7.prems"(1) t f]
  show ?case
    using "7.prems"(5) missing "7.IH"(1) [OF _ _ "7.prems"(1) t sub path]
      "7.IH"(2) [OF _ "7.prems"(1) check sp_field [OF path t f]]
      "7.IH"(3) [OF _ _ "7.prems"(1) t sub path]
    by (auto split: option.splits if_splits)
qed auto



end
