(* ===== verification/Payload_Diff.thy ===== *)
theory Payload_Diff
  imports Payload_Schema Spectre_Model "HOL-Library.Sublist"
begin

text \<open>
  \<open>internal/comparison/internal/diff.go\<close>: the structural difference of two normalised payloads.

  The differ is a record passed through the recursion. The loops over object keys and list
  indexes are folds of \<open>diffItem\<close> over the members that either side holds. A reference
  definition, \<open>places\<close>, lists every place where two payloads differ; the theorems relate what
  the bounded, counting differ reports to it.
\<close>

subsection \<open>The differ\<close>

definition maxDifferences :: nat where "maxDifferences = 100"

record raw_difference =
  rd_path :: reported_path
  rd_change :: change
  rd_retype :: "retype option"
  rd_count :: int

record differ =
  df_loaded :: "schema option"
  df_root :: "svalue option"
  df_differences :: "raw_difference list"
  df_truncated :: bool

definition newDiffer :: "schema option \<Rightarrow> svalue option \<Rightarrow> differ" where
  "newDiffer loaded value = \<lparr>df_loaded = loaded, df_root = value, df_differences = [], df_truncated = False\<rparr>"

fun jsonType :: "json \<Rightarrow> json_type" where
  "jsonType JNull = JSONNull"
| "jsonType (JBool _) = JSONBoolean"
| "jsonType (JString _) = JSONString"
| "jsonType (JObject _) = JSONObject"
| "jsonType (JList _) = JSONList"
| "jsonType (JNumber _) = JSONNumber"

definition sortedKeys :: "(string \<times> json) list \<Rightarrow> (string \<times> json) list \<Rightarrow> string list" where
  "sortedKeys reference candidate =
     sort (keys reference @ filter (\<lambda>k. map_of reference k = None) (keys candidate))"

text \<open>A Go \<open>Option\<close> of a non-nil pointer holds the value itself, so dereferencing is the identity.\<close>

fun derefValue :: "svalue option \<Rightarrow> svalue option" where
  "derefValue (Some v) = Some v"
| "derefValue None = None"

definition member :: "schema option \<Rightarrow> document_path \<Rightarrow> svalue option \<Rightarrow> string \<Rightarrow> document_path \<times> svalue option" where
  "member loaded path value key =
     (case value of
        None \<Rightarrow> (appendAnyKey path, None)
      | Some declared \<Rightarrow>
          (case loaded of
             Some s \<Rightarrow>
               (if sv_kind declared = KindObject then
                  (case Schema_Type s (sv_type declared) of
                     Inr object \<Rightarrow>
                       (case Type_Field object key of
                          Some f \<Rightarrow> (appendField path key, Some (fl_value f))
                        | None \<Rightarrow> (appendAnyKey path, None))
                   | Inl _ \<Rightarrow> (appendAnyKey path, None))
                else if sv_kind declared = KindMap then (appendAnyKey path, derefValue (sv_element declared))
                else (appendAnyKey path, None))
           | None \<Rightarrow>
               (if sv_kind declared = KindMap then (appendAnyKey path, derefValue (sv_element declared))
                else (appendAnyKey path, None))))"

definition same_difference :: "reported_path \<Rightarrow> change \<Rightarrow> retype option \<Rightarrow> raw_difference \<Rightarrow> bool" where
  "same_difference path change retype d \<longleftrightarrow> rd_change d = change \<and> rd_retype d = retype \<and> rd_path d = path"

text \<open>The loop of \<open>add\<close>: the first equal entry is counted, or a new one is appended.\<close>

fun count_difference :: "reported_path \<Rightarrow> change \<Rightarrow> retype option \<Rightarrow> raw_difference list \<Rightarrow> raw_difference list" where
  "count_difference path change retype [] =
     [\<lparr>rd_path = path, rd_change = change, rd_retype = retype, rd_count = 1\<rparr>]"
| "count_difference path change retype (d # ds) =
     (if same_difference path change retype d then d\<lparr>rd_count := rd_count d + 1\<rparr> # ds
      else d # count_difference path change retype ds)"

definition retype_of :: "change \<Rightarrow> json \<Rightarrow> json \<Rightarrow> retype option" where
  "retype_of change reference candidate =
     (if change = ChangeRetyped
      then Some \<lparr>rt_reference = jsonType reference, rt_candidate = jsonType candidate\<rparr> else None)"

definition add_difference :: "differ \<Rightarrow> reported_path \<Rightarrow> change \<Rightarrow> json \<Rightarrow> json \<Rightarrow> differ" where
  "add_difference d path change reference candidate =
     d\<lparr>df_differences :=
         count_difference path change (retype_of change reference candidate) (df_differences d)\<rparr>"

text \<open>The members that the two loops of \<open>diff\<close> visit, in order.\<close>

type_synonym item = "json option \<times> json option \<times> document_path \<times> svalue option"

definition object_items :: "schema option \<Rightarrow> document_path \<Rightarrow> svalue option
    \<Rightarrow> (string \<times> json) list \<Rightarrow> (string \<times> json) list \<Rightarrow> item list" where
  "object_items loaded path value reference candidate =
     map (\<lambda>key. (map_of reference key, map_of candidate key, member loaded path value key))
       (sortedKeys reference candidate)"

definition element_of :: "svalue option \<Rightarrow> svalue option" where
  "element_of value =
     (case value of
        Some declared \<Rightarrow> if sv_kind declared = KindList then derefValue (sv_element declared) else None
      | None \<Rightarrow> None)"

definition list_items :: "document_path \<Rightarrow> svalue option \<Rightarrow> json list \<Rightarrow> json list \<Rightarrow> item list" where
  "list_items path value reference candidate =
     map (\<lambda>index.
         (if index < length reference then Some (reference ! index) else None,
          if index < length candidate then Some (candidate ! index) else None,
          appendIndex path (int index), element_of value))
       [0..<max (length reference) (length candidate)]"

lemma object_items_size:
  assumes "(r, c, p, v) \<in> set (object_items loaded path value rm cm)"
  shows "case_option 0 size r < size (JObject rm)"
  using assms by (auto simp: object_items_def split: option.splits dest!: size_member)

lemma list_items_size:
  assumes "(r, c, p, v) \<in> set (list_items path value rl cl)"
  shows "case_option 0 size r < size (JList rl)"
proof -
  have "size (rl ! i) < size (JList rl)" if "i < length rl" for i
    using that size_list_estimation' [of "rl ! i" rl "size (rl ! i)" size] by (simp add: less_Suc_eq_le)
  with assms show ?thesis by (auto simp: list_items_def split: if_splits)
qed

lemma fold_items_cong [fundef_cong]:
  assumes "xs = ys" "d = e" "\<And>r c p v d. (r, c, p, v) \<in> set ys \<Longrightarrow> f d r c p v = g d r c p v"
  shows "fold (\<lambda>(r, c, p, v) d. f d r c p v) xs d = fold (\<lambda>(r, c, p, v) d. g d r c p v) ys e"
  unfolding assms(1,2) by (rule fold_cong) (use assms(3) in auto)

function (sequential) diff :: "differ \<Rightarrow> json \<Rightarrow> json \<Rightarrow> document_path \<Rightarrow> svalue option \<Rightarrow> differ"
  and diffItem :: "differ \<Rightarrow> json option \<Rightarrow> json option \<Rightarrow> document_path \<Rightarrow> svalue option \<Rightarrow> differ" where
  "diff d reference candidate path value =
     (if length (df_differences d) \<ge> maxDifferences
      then d\<lparr>df_truncated := df_truncated d \<or> reference \<noteq> candidate\<rparr>
      else if reference = candidate then d
      else case reference of
        JObject rm \<Rightarrow>
          (case candidate of
             JObject cm \<Rightarrow>
               fold (\<lambda>(r, c, p, v) d. diffItem d r c p v) (object_items (df_loaded d) path value rm cm) d
           | _ \<Rightarrow> add_difference d (reported path) ChangeRetyped reference candidate)
      | JList rl \<Rightarrow>
          (case candidate of
             JList cl \<Rightarrow>
               fold (\<lambda>(r, c, p, v) d. diffItem d r c p v) (list_items path value rl cl) d
           | _ \<Rightarrow> add_difference d (reported path) ChangeRetyped reference candidate)
      | _ \<Rightarrow>
          add_difference d (reported path)
            (if jsonType reference \<noteq> jsonType candidate then ChangeRetyped else ChangeChanged)
            reference candidate)"
| "diffItem d (Some r) None path value = add_difference d (reported path) ChangeMissing JNull JNull"
| "diffItem d None (Some c) path value = add_difference d (reported path) ChangeAdded JNull JNull"
| "diffItem d (Some r) (Some c) path value = diff d r c path value"
| "diffItem d None None path value = diff d JNull JNull path value"
  by pat_completeness auto
termination
  by (relation "measure (\<lambda>x. case x of
        Inl (d, r, c, p, v) \<Rightarrow> 2 * size r
      | Inr (d, r, c, p, v) \<Rightarrow> 2 * case_option 0 size r + 1)")
    (auto dest!: object_items_size list_items_size)

subsection \<open>Merging list indexes\<close>

record merge_group =
  mg_first :: raw_difference
  mg_merged :: difference
  mg_size :: nat

definition merge_key :: "raw_difference \<Rightarrow> string" where
  "merge_key item =
     change_text (rd_change item) @ '' '' @ rp_wildcard (rd_path item)
     @ (case rd_retype item of
          Some r \<Rightarrow> '' '' @ json_type_text (rt_reference r) @ '' '' @ json_type_text (rt_candidate r)
        | None \<Rightarrow> [])"

definition new_group :: "raw_difference \<Rightarrow> merge_group" where
  "new_group item =
     \<lparr>mg_first = item,
      mg_merged = \<lparr>d_path = rp_wildcard (rd_path item), d_change = rd_change item,
                   d_retype = rd_retype item, d_count = 0\<rparr>,
      mg_size = 0\<rparr>"

definition count_item :: "raw_difference \<Rightarrow> merge_group \<Rightarrow> merge_group" where
  "count_item item g =
     g\<lparr>mg_size := mg_size g + 1, mg_merged := (mg_merged g)\<lparr>d_count := d_count (mg_merged g) + rd_count item\<rparr>\<rparr>"

text \<open>\<open>order\<close> lists the keys of \<open>groups\<close> by first appearance.\<close>

definition group_item :: "raw_difference \<Rightarrow> string list \<times> (string \<rightharpoonup> merge_group)
    \<Rightarrow> string list \<times> (string \<rightharpoonup> merge_group)" where
  "group_item item = (\<lambda>(order, groups).
     (case groups (merge_key item) of
        Some g \<Rightarrow> (order, groups(merge_key item \<mapsto> count_item item g))
      | None \<Rightarrow> (order @ [merge_key item], groups(merge_key item \<mapsto> count_item item (new_group item)))))"

definition merged_group :: "merge_group \<Rightarrow> difference" where
  "merged_group g =
     (if mg_size g = 1
      then \<lparr>d_path = rp_text (rd_path (mg_first g)), d_change = rd_change (mg_first g),
            d_retype = rd_retype (mg_first g), d_count = rd_count (mg_first g)\<rparr>
      else mg_merged g)"

definition mergeIndexes :: "raw_difference list \<Rightarrow> difference list" where
  "mergeIndexes differences =
     (case fold group_item differences ([], Map.empty) of
        (order, groups) \<Rightarrow> map (\<lambda>key. merged_group (the (groups key))) order)"

text \<open>A root is absent once a normaliser removes it.\<close>

definition compare_payloads :: "differ \<Rightarrow> json option \<Rightarrow> json option \<Rightarrow> difference list \<times> bool" where
  "compare_payloads d reference candidate =
     (let d' = diffItem d reference candidate [] (df_root d)
      in (mergeIndexes (df_differences d'), df_truncated d'))"

subsection \<open>The reference definition\<close>

type_synonym place = "reported_path \<times> change \<times> retype option"

lemma concat_items_cong [fundef_cong]:
  assumes "xs = ys" "\<And>r c p v. (r, c, p, v) \<in> set ys \<Longrightarrow> f r c p v = g r c p v"
  shows "concat (map (\<lambda>(r, c, p, v). f r c p v) xs) = concat (map (\<lambda>(r, c, p, v). g r c p v) ys)"
  unfolding assms(1) by (rule arg_cong [where f = concat], rule map_cong) (use assms(2) in auto)

function (sequential) places :: "schema option \<Rightarrow> json \<Rightarrow> json \<Rightarrow> document_path \<Rightarrow> svalue option \<Rightarrow> place list"
  and item_places :: "schema option \<Rightarrow> json option \<Rightarrow> json option \<Rightarrow> document_path \<Rightarrow> svalue option \<Rightarrow> place list"
where
  "places loaded (JObject rm) (JObject cm) path value =
     concat (map (\<lambda>(r, c, p, v). item_places loaded r c p v) (object_items loaded path value rm cm))"
| "places loaded (JList rl) (JList cl) path value =
     concat (map (\<lambda>(r, c, p, v). item_places loaded r c p v) (list_items path value rl cl))"
| "places loaded reference candidate path value =
     (if reference = candidate then []
      else if jsonType reference = jsonType candidate then [(reported path, ChangeChanged, None)]
      else [(reported path, ChangeRetyped, retype_of ChangeRetyped reference candidate)])"
| "item_places loaded (Some r) None path value = [(reported path, ChangeMissing, None)]"
| "item_places loaded None (Some c) path value = [(reported path, ChangeAdded, None)]"
| "item_places loaded (Some r) (Some c) path value = places loaded r c path value"
| "item_places loaded None None path value = []"
  by pat_completeness auto
termination
  by (relation "measure (\<lambda>x. case x of
        Inl (d, r, c, p, v) \<Rightarrow> 2 * size r
      | Inr (d, r, c, p, v) \<Rightarrow> 2 * case_option 0 size r + 1)")
    (auto dest!: object_items_size list_items_size)

definition record_place :: "place \<Rightarrow> raw_difference list \<Rightarrow> raw_difference list" where
  "record_place = (\<lambda>(path, change, retype). count_difference path change retype)"

text \<open>
  The simulation: a call leaves the differ as if some of the places had been recorded one by
  one, and sets the truncation mark exactly when it left one out, which only a full differ does.
\<close>

definition collected :: "differ \<Rightarrow> place list \<Rightarrow> differ \<Rightarrow> bool" where
  "collected d ps d' \<longleftrightarrow>
     (\<exists>qs. subseq qs ps \<and> df_differences d' = fold record_place qs (df_differences d)
        \<and> df_truncated d' = (df_truncated d \<or> length qs < length ps)
        \<and> (length qs < length ps \<longrightarrow> maxDifferences \<le> length (df_differences d')))
     \<and> df_loaded d' = df_loaded d \<and> df_root d' = df_root d"

lemma collectedI:
  "subseq qs ps \<Longrightarrow> df_differences d' = fold record_place qs (df_differences d) \<Longrightarrow>
   df_truncated d' = (df_truncated d \<or> length qs < length ps) \<Longrightarrow>
   (length qs < length ps \<Longrightarrow> maxDifferences \<le> length (df_differences d')) \<Longrightarrow>
   df_loaded d' = df_loaded d \<Longrightarrow> df_root d' = df_root d \<Longrightarrow> collected d ps d'"
  unfolding collected_def by blast

lemma collected_refl [simp]: "collected d [] d"
  by (rule collectedI [of "[]"]) auto

lemma count_difference_grows: "length ds \<le> length (count_difference p c t ds)"
  by (induction ds) auto

lemma record_places_grow: "length ds \<le> length (fold record_place qs ds)"
proof (induction qs arbitrary: ds)
  case (Cons q qs)
  have "length ds \<le> length (record_place q ds)"
    by (cases q) (simp add: record_place_def count_difference_grows)
  with Cons [of "record_place q ds"] show ?case by simp
qed simp

lemma collected_trans:
  assumes "collected d ps d'" "collected d' ps' d''"
  shows "collected d (ps @ ps') d''"
proof -
  obtain qs where q: "subseq qs ps" "df_differences d' = fold record_place qs (df_differences d)"
    "df_truncated d' = (df_truncated d \<or> length qs < length ps)"
    "length qs < length ps \<longrightarrow> maxDifferences \<le> length (df_differences d')"
    using assms(1) unfolding collected_def by blast
  obtain qs' where q': "subseq qs' ps'" "df_differences d'' = fold record_place qs' (df_differences d')"
    "df_truncated d'' = (df_truncated d' \<or> length qs' < length ps')"
    "length qs' < length ps' \<longrightarrow> maxDifferences \<le> length (df_differences d'')"
    using assms(2) unfolding collected_def by blast
  have le: "length qs \<le> length ps" "length qs' \<le> length ps'"
    using q(1) q'(1) list_emb_length by auto
  have grow: "length (df_differences d') \<le> length (df_differences d'')"
    unfolding q'(2) by (rule record_places_grow)
  show ?thesis
  proof (rule collectedI [of "qs @ qs'"])
    show "subseq (qs @ qs') (ps @ ps')" using q(1) q'(1) by (rule list_emb_append_mono)
    show "df_truncated d'' = (df_truncated d \<or> length (qs @ qs') < length (ps @ ps'))"
      using q(3) q'(3) le by auto
    show "maxDifferences \<le> length (df_differences d'')" if less: "length (qs @ qs') < length (ps @ ps')"
    proof (cases "length qs < length ps")
      case True
      with q(4) grow show ?thesis by simp
    next
      case False
      with less le have "length qs' < length ps'" by simp
      with q'(4) show ?thesis by simp
    qed
  qed (use q(2) q'(2) assms in \<open>auto simp: collected_def\<close>)
qed

lemma collected_fold:
  assumes "\<And>x d. x \<in> set xs \<Longrightarrow> df_loaded d = loaded \<Longrightarrow> collected d (f x) (g x d)" "df_loaded d = loaded"
  shows "collected d (concat (map f xs)) (fold g xs d)"
  using assms
proof (induction xs arbitrary: d)
  case (Cons x xs)
  have 1: "collected d (f x) (g x d)" using Cons.prems by simp
  then have "df_loaded (g x d) = loaded" using Cons.prems(2) by (simp add: collected_def)
  with Cons have "collected (g x d) (concat (map f xs)) (fold g xs (g x d))" by simp
  with collected_trans [OF 1] show ?case by simp
qed simp

lemma collected_add:
  "collected d [(path, change, retype_of change r c)] (add_difference d path change r c)"
  by (rule collectedI [of "[(path, change, retype_of change r c)]"])
    (simp_all add: add_difference_def record_place_def)

lemma set_sortedKeys: "set (sortedKeys rm cm) = set (keys rm) \<union> set (keys cm)"
  by (auto simp: sortedKeys_def map_of_None_keys)

lemma list_item_in:
  "i < max (length rl) (length cl) \<Longrightarrow>
   (if i < length rl then Some (rl ! i) else None, if i < length cl then Some (cl ! i) else None,
    appendIndex path (int i), element_of val) \<in> set (list_items path val rl cl)"
  unfolding list_items_def by auto

lemma object_item_in:
  "k \<in> set (sortedKeys rm cm) \<Longrightarrow>
   (map_of rm k, map_of cm k, fst (member loaded path val k), snd (member loaded path val k))
     \<in> set (object_items loaded path val rm cm)"
  unfolding object_items_def by auto

lemma places_same:
  "r = c \<Longrightarrow> places loaded r c p v = []"
  "ro = co \<Longrightarrow> item_places loaded ro co p v = []"
proof (induction loaded r c p v and loaded ro co p v rule: places_item_places.induct)
  case (1 loaded rm cm path val)
  have "r = c" if "(r, c, p, u) \<in> set (object_items loaded path val rm cm)" for r c p u
    using that "1.prems" unfolding object_items_def by auto
  with "1.IH" have "item_places loaded r c p u = []"
    if "(r, c, p, u) \<in> set (object_items loaded path val rm cm)" for r c p u using that by blast
  then show ?case by auto
next
  case (2 loaded rl cl path val)
  have "r = c" if "(r, c, p, u) \<in> set (list_items path val rl cl)" for r c p u
    using that "2.prems" unfolding list_items_def by auto
  with "2.IH" have "item_places loaded r c p u = []"
    if "(r, c, p, u) \<in> set (list_items path val rl cl)" for r c p u using that by blast
  then show ?case by auto
qed auto

lemma list_items_ext:
  assumes "\<And>r c p u. (r, c, p, u) \<in> set (list_items path val rl cl) \<Longrightarrow> r = c"
  shows "rl = cl"
proof -
  have item: "(if i < length rl then Some (rl ! i) else None) = (if i < length cl then Some (cl ! i) else None)"
    if "i < max (length rl) (length cl)" for i
    by (rule assms, rule list_item_in [OF that])
  have len: "length rl = length cl"
  proof (rule ccontr)
    assume "length rl \<noteq> length cl"
    then have "min (length rl) (length cl) < max (length rl) (length cl)" by auto
    from item [OF this] show False using \<open>length rl \<noteq> length cl\<close> by (auto simp: min_def split: if_splits)
  qed
  show ?thesis
  proof (rule nth_equalityI [OF len])
    show "rl ! i = cl ! i" if "i < length rl" for i
      using item [of i] that len by (simp split: if_splits)
  qed
qed

lemma object_items_ext:
  assumes "\<And>r c p u. (r, c, p, u) \<in> set (object_items loaded path val rm cm) \<Longrightarrow> r = c"
    and "ordered_map rm" "ordered_map cm"
  shows "rm = cm"
proof (rule ordered_map_ext [OF assms(2,3)])
  show "map_of rm k = map_of cm k" for k
  proof (cases "k \<in> set (sortedKeys rm cm)")
    case True
    from object_item_in [OF this] show ?thesis by (rule assms(1))
  next
    case False
    then have "map_of rm k = None" "map_of cm k = None"
      unfolding set_sortedKeys map_of_None_keys by auto
    then show ?thesis by simp
  qed
qed

abbreviation option_ok :: "json option \<Rightarrow> bool" where
  "option_ok r \<equiv> (case r of None \<Rightarrow> True | Some v \<Rightarrow> json_ok v)"

lemma object_items_ok:
  "json_ok (JObject rm) \<Longrightarrow> json_ok (JObject cm) \<Longrightarrow> (r, c, p, u) \<in> set (object_items loaded path val rm cm) \<Longrightarrow>
   option_ok r \<and> option_ok c"
  by (auto simp: object_items_def split: option.splits dest: json_ok_member)

lemma list_items_ok:
  "json_ok (JList rl) \<Longrightarrow> json_ok (JList cl) \<Longrightarrow> (r, c, p, u) \<in> set (list_items path val rl cl) \<Longrightarrow>
   option_ok r \<and> option_ok c"
  by (auto simp: list_items_def list_all_length)

lemma places_complete:
  "json_ok r \<Longrightarrow> json_ok c \<Longrightarrow> places loaded r c p v = [] \<Longrightarrow> r = c"
  "option_ok ro \<Longrightarrow> option_ok co \<Longrightarrow> item_places loaded ro co p v = [] \<Longrightarrow> ro = co"
proof (induction loaded r c p v and loaded ro co p v rule: places_item_places.induct)
  case (1 loaded rm cm path val)
  have "rm = cm"
  proof (rule object_items_ext)
    fix r c p u assume item: "(r, c, p, u) \<in> set (object_items loaded path val rm cm)"
    then have "item_places loaded r c p u = []" using "1.prems"(3) by auto
    with "1.IH" [OF item] object_items_ok [OF "1.prems"(1,2) item] show "r = c" by blast
  qed (use "1.prems" in auto)
  then show ?case by simp
next
  case (2 loaded rl cl path val)
  have "rl = cl"
  proof (rule list_items_ext)
    fix r c p u assume item: "(r, c, p, u) \<in> set (list_items path val rl cl)"
    then have "item_places loaded r c p u = []" using "2.prems"(3) by auto
    with "2.IH" [OF item] list_items_ok [OF "2.prems"(1,2) item] show "r = c" by blast
  qed
  then show ?case by simp
qed (auto split: if_splits)

text \<open>The case analysis of \<open>diff\<close> on two different payloads, read off \<open>places\<close>.\<close>

lemma places_leaf:
  assumes "r \<noteq> c" "\<not> (\<exists>rm cm. r = JObject rm \<and> c = JObject cm)" "\<not> (\<exists>rl cl. r = JList rl \<and> c = JList cl)"
  shows "places loaded r c p v =
     (let change = (if jsonType r \<noteq> jsonType c then ChangeRetyped else ChangeChanged)
      in [(reported p, change, retype_of change r c)])"
  using assms by (cases r; cases c) (simp_all add: retype_of_def)

lemma diff_leaf:
  assumes "r \<noteq> c" "\<not> maxDifferences \<le> length (df_differences d)"
    "\<not> (\<exists>rm cm. r = JObject rm \<and> c = JObject cm)" "\<not> (\<exists>rl cl. r = JList rl \<and> c = JList cl)"
  shows "diff d r c p v = add_difference d (reported p)
     (if jsonType r \<noteq> jsonType c then ChangeRetyped else ChangeChanged) r c"
  using assms by (cases r; cases c) simp_all

lemma diff_full:
  assumes "maxDifferences \<le> length (df_differences d)" "json_ok r" "json_ok c"
  shows "collected d (places (df_loaded d) r c p v) (diff d r c p v)"
proof (rule collectedI [of "[]"])
  have "places (df_loaded d) r c p v = [] \<longleftrightarrow> r = c"
    using places_complete(1) [OF assms(2,3)] places_same(1) by blast
  with assms(1) show "df_truncated (diff d r c p v)
      = (df_truncated d \<or> length [] < length (places (df_loaded d) r c p v))"
    by (simp del: places.simps)
qed (use assms(1) in \<open>simp_all del: places.simps\<close>)

lemma diff_collects:
  "json_ok r \<Longrightarrow> json_ok c \<Longrightarrow> collected d (places (df_loaded d) r c p v) (diff d r c p v)"
  "option_ok ro \<Longrightarrow> option_ok co \<Longrightarrow> collected d (item_places (df_loaded d) ro co p v) (diffItem d ro co p v)"
proof (induction d r c p v and d ro co p v rule: diff_diffItem.induct)
  case (1 d r c path val)
  show ?case
  proof (cases "maxDifferences \<le> length (df_differences d)")
    case True
    with "1.prems" show ?thesis by (intro diff_full)
  next
    case room: False
    consider (same) "r = c" | (object) rm cm where "r \<noteq> c" "r = JObject rm" "c = JObject cm"
      | (list) rl cl where "r \<noteq> c" "r = JList rl" "c = JList cl"
      | (leaf) "r \<noteq> c" "\<not> (\<exists>rm cm. r = JObject rm \<and> c = JObject cm)" "\<not> (\<exists>rl cl. r = JList rl \<and> c = JList cl)"
      by blast
    then show ?thesis
    proof cases
      case same
      with room places_same(1) [OF same] show ?thesis by (simp del: places.simps)
    next
      case object
      let ?items = "object_items (df_loaded d) path val rm cm"
      have "collected d (concat (map (\<lambda>(r, c, p, v). item_places (df_loaded d) r c p v) ?items))
              (fold (\<lambda>(r, c, p, v) d. diffItem d r c p v) ?items d)"
      proof (rule collected_fold [OF _ refl], clarify)
        fix r' c' p u and d' :: differ
        assume item: "(r', c', p, u) \<in> set ?items" and d': "df_loaded d' = df_loaded d"
        from object_items_ok [OF _ _ item] "1.prems" object
        have "option_ok r'" "option_ok c'" by simp_all
        with "1.IH"(2) [OF room object(1,2,3) item, of d'] d'
        show "collected d' (item_places (df_loaded d) r' c' p u) (diffItem d' r' c' p u)" by simp
      qed
      with room object show ?thesis by simp
    next
      case list
      let ?items = "list_items path val rl cl"
      have "collected d (concat (map (\<lambda>(r, c, p, v). item_places (df_loaded d) r c p v) ?items))
              (fold (\<lambda>(r, c, p, v) d. diffItem d r c p v) ?items d)"
      proof (rule collected_fold [OF _ refl], clarify)
        fix r' c' p u and d' :: differ
        assume item: "(r', c', p, u) \<in> set ?items" and d': "df_loaded d' = df_loaded d"
        from list_items_ok [OF _ _ item] "1.prems" list
        have "option_ok r'" "option_ok c'" by simp_all
        with "1.IH"(1) [OF room list(1,2,3) item, of d'] d'
        show "collected d' (item_places (df_loaded d) r' c' p u) (diffItem d' r' c' p u)" by simp
      qed
      with room list show ?thesis by simp
    next
      case leaf
      show ?thesis
        unfolding places_leaf [OF leaf] diff_leaf [OF leaf(1) room leaf(2,3)] Let_def by (rule collected_add)
    qed
  qed
next
  case (2 d r path val)
  show ?case using collected_add [of d "reported path" ChangeMissing JNull JNull] by (simp add: retype_of_def)
next
  case (3 d c path val)
  show ?case using collected_add [of d "reported path" ChangeAdded JNull JNull] by (simp add: retype_of_def)
next
  case (5 d path val)
  then show ?case by (simp del: diff.simps)
qed (simp del: diff.simps places.simps)

subsection \<open>Laws of merging\<close>

definition group_of :: "raw_difference list \<Rightarrow> string \<Rightarrow> merge_group option" where
  "group_of items key =
     (let xs = filter (\<lambda>i. merge_key i = key) items in
      if xs = [] then None
      else Some \<lparr>mg_first = hd xs,
                 mg_merged = \<lparr>d_path = rp_wildcard (rd_path (hd xs)), d_change = rd_change (hd xs),
                              d_retype = rd_retype (hd xs), d_count = sum_list (map rd_count xs)\<rparr>,
                 mg_size = length xs\<rparr>)"

lemma group_items:
  "\<exists>order. fold group_item items ([], Map.empty) = (order, group_of items)
     \<and> distinct order \<and> set order = merge_key ` set items"
proof (induction items rule: rev_induct)
  case Nil
  show ?case by (auto simp: group_of_def)
next
  case (snoc x xs)
  then obtain order where o: "fold group_item xs ([], Map.empty) = (order, group_of xs)"
    "distinct order" "set order = merge_key ` set xs" by blast
  show ?case
  proof (cases "merge_key x \<in> set order")
    case True
    then have "filter (\<lambda>i. merge_key i = merge_key x) xs \<noteq> []"
      using o(3) by (auto simp: filter_empty_conv)
    then have "group_item x (order, group_of xs) = (order, group_of (xs @ [x]))"
      by (auto simp: group_item_def group_of_def count_item_def Let_def fun_eq_iff)
    with o True show ?thesis by auto
  next
    case False
    then have "filter (\<lambda>i. merge_key i = merge_key x) xs = []"
      unfolding o(3) filter_empty_conv by (metis imageI)
    then have "group_item x (order, group_of xs) = (order @ [merge_key x], group_of (xs @ [x]))"
      by (auto simp: group_item_def group_of_def count_item_def new_group_def Let_def fun_eq_iff)
    with o False show ?thesis by auto
  qed
qed

lemma mergeIndexes_order:
  obtains order where "mergeIndexes items = map (\<lambda>key. merged_group (the (group_of items key))) order"
    "distinct order" "set order = merge_key ` set items"
  using group_items [of items] by (auto simp: mergeIndexes_def)

lemma merged_group_count:
  assumes "key \<in> merge_key ` set items"
  shows "d_count (merged_group (the (group_of items key)))
    = sum_list (map rd_count (filter (\<lambda>i. merge_key i = key) items))"
proof -
  have "filter (\<lambda>i. merge_key i = key) items \<noteq> []" using assms by (auto simp: filter_empty_conv)
  then show ?thesis
    by (cases "filter (\<lambda>i. merge_key i = key) items") (auto simp: group_of_def merged_group_def)
qed

lemma sum_list_groups:
  fixes f :: "'a \<Rightarrow> int"
  assumes "distinct ks" "g ` set xs \<subseteq> set ks"
  shows "sum_list (map (\<lambda>k. sum_list (map f (filter (\<lambda>x. g x = k) xs))) ks) = sum_list (map f xs)"
  using assms(2)
proof (induction xs)
  case (Cons x xs)
  have "sum_list (map (\<lambda>k. sum_list (map f (filter (\<lambda>y. g y = k) (x # xs)))) ks)
      = sum_list (map (\<lambda>k. (if g x = k then f x else 0) + sum_list (map f (filter (\<lambda>y. g y = k) xs))) ks)"
    by (intro arg_cong [where f = sum_list] map_cong) auto
  also have "\<dots> = sum_list (map (\<lambda>k. if g x = k then f x else 0) ks)
      + sum_list (map (\<lambda>k. sum_list (map f (filter (\<lambda>y. g y = k) xs))) ks)"
    by (rule sum_list_addf)
  also have "sum_list (map (\<lambda>k. if g x = k then f x else 0) ks) = f x"
    using Cons.prems assms(1) by (simp add: sum_list_distinct_conv_sum_set sum.delta)
  finally show ?case using Cons by simp
qed simp

lemma mergeIndexes_counts: "sum_list (map d_count (mergeIndexes items)) = sum_list (map rd_count items)"
proof -
  obtain order where o: "mergeIndexes items = map (\<lambda>key. merged_group (the (group_of items key))) order"
    "distinct order" "set order = merge_key ` set items" by (rule mergeIndexes_order)
  have "map d_count (mergeIndexes items)
      = map (\<lambda>k. sum_list (map rd_count (filter (\<lambda>i. merge_key i = k) items))) order"
    unfolding o(1) map_map o_def by (rule map_cong) (auto simp: merged_group_count o(3))
  with sum_list_groups [OF o(2), of merge_key items rd_count] o(3) show ?thesis by simp
qed

lemma mergeIndexes_Nil_iff: "mergeIndexes items = [] \<longleftrightarrow> items = []"
  by (rule mergeIndexes_order [of items]) auto

lemma mergeIndexes_length: "length (mergeIndexes items) = card (merge_key ` set items)"
  by (rule mergeIndexes_order [of items]) (metis distinct_card length_map)

lemma mergeIndexes_path:
  assumes "d \<in> set (mergeIndexes items)"
  shows "\<exists>i \<in> set items. d_path d \<in> {rp_text (rd_path i), rp_wildcard (rd_path i)}"
proof -
  obtain key where key: "key \<in> merge_key ` set items" "d = merged_group (the (group_of items key))"
    using assms by (rule_tac mergeIndexes_order [of items]) auto
  then have ne: "filter (\<lambda>i. merge_key i = key) items \<noteq> []" by (auto simp: filter_empty_conv)
  then have "hd (filter (\<lambda>i. merge_key i = key) items) \<in> set items" using hd_in_set [OF ne] by simp
  with ne key(2) show ?thesis by (auto simp: group_of_def merged_group_def Let_def)
qed

lemma record_place_total:
  "sum_list (map rd_count (record_place q ds)) = sum_list (map rd_count ds) + 1"
proof (cases q)
  case (fields p c t)
  show ?thesis unfolding fields record_place_def by (induction ds) auto
qed

lemma record_places_total:
  "sum_list (map rd_count (fold record_place qs ds)) = sum_list (map rd_count ds) + int (length qs)"
  by (induction qs arbitrary: ds) (auto simp: record_place_total)

lemma record_places_Nil: "fold record_place qs [] = [] \<longleftrightarrow> qs = []"
  using record_places_total [of qs "[]"] by (cases qs) auto

lemma compare_collects:
  assumes "option_ok r" "option_ok c"
  obtains qs where "subseq qs (item_places l r c [] v)"
    "compare_payloads (newDiffer l v) r c
       = (mergeIndexes (fold record_place qs []), length qs < length (item_places l r c [] v))"
    "length qs < length (item_places l r c [] v) \<Longrightarrow> qs \<noteq> []"
proof -
  have "collected (newDiffer l v) (item_places l r c [] v) (diffItem (newDiffer l v) r c [] v)"
    using diff_collects(2) [OF assms, of "newDiffer l v" "[]" v] by (simp add: newDiffer_def)
  then obtain qs where qs: "subseq qs (item_places l r c [] v)"
    "df_differences (diffItem (newDiffer l v) r c [] v) = fold record_place qs []"
    "df_truncated (diffItem (newDiffer l v) r c [] v) \<longleftrightarrow> length qs < length (item_places l r c [] v)"
    "length qs < length (item_places l r c [] v) \<longrightarrow> maxDifferences \<le> length (fold record_place qs [])"
    by (auto simp: collected_def newDiffer_def)
  then have "length qs < length (item_places l r c [] v) \<Longrightarrow> qs \<noteq> []"
    by (auto simp: maxDifferences_def)
  with qs show thesis by (intro that [of qs]) (auto simp: compare_payloads_def newDiffer_def)
qed

lemma compare_empty:
  assumes "option_ok r" "option_ok c"
  shows "(fst (compare_payloads (newDiffer l v) r c) = [] \<longleftrightarrow> r = c)
    \<and> (snd (compare_payloads (newDiffer l v) r c) \<longrightarrow> r \<noteq> c)"
proof -
  obtain qs where qs: "subseq qs (item_places l r c [] v)"
    "compare_payloads (newDiffer l v) r c
       = (mergeIndexes (fold record_place qs []), length qs < length (item_places l r c [] v))"
    "length qs < length (item_places l r c [] v) \<Longrightarrow> qs \<noteq> []"
    by (rule compare_collects [OF assms, where l = l and v = v]) blast
  have eq: "item_places l r c [] v = [] \<longleftrightarrow> r = c"
    using places_complete(2) [OF assms] places_same(2) by blast
  have "qs = [] \<longleftrightarrow> item_places l r c [] v = []"
    using qs(1,3) by (cases "item_places l r c [] v") auto
  with eq qs(2) show ?thesis by (auto simp: mergeIndexes_Nil_iff record_places_Nil)
qed

lemmas compare_empty_iff = compare_empty [THEN conjunct1]
lemmas compare_truncated = compare_empty [THEN conjunct2]

text \<open>
  C29. Comparing two payloads reports no difference exactly when they are equal, and claims that
  more places differ only when they are not.
\<close>

theorem compare_equal_iff:
  assumes "option_ok r" "option_ok c"
  shows "(fst (compare_payloads (newDiffer l v) r c) = [] \<longleftrightarrow> r = c)
    \<and> (snd (compare_payloads (newDiffer l v) r c) \<longrightarrow> r \<noteq> c)"
  using compare_empty [OF assms] by blast

theorem compare_equal_iff_witness:
  "fst (compare_payloads (newDiffer None None) (Some (JBool True)) (Some JNull)) \<noteq> []"
  using compare_equal_iff [of "Some (JBool True)" "Some JNull" None None] by simp

text \<open>
  C30. The counts are complete: they add up to the number of places where the payloads differ,
  unless the result says it is truncated, and then they add up to fewer.
\<close>

theorem compare_counts_every_place:
  assumes "option_ok r" "option_ok c"
    and "compare_payloads (newDiffer l v) r c = (differences, truncated)"
  shows "sum_list (map d_count differences) \<le> int (length (item_places l r c [] v))
    \<and> (truncated \<longleftrightarrow> sum_list (map d_count differences) < int (length (item_places l r c [] v)))"
proof -
  obtain qs where qs: "subseq qs (item_places l r c [] v)"
    "compare_payloads (newDiffer l v) r c
       = (mergeIndexes (fold record_place qs []), length qs < length (item_places l r c [] v))"
    by (rule compare_collects [OF assms(1,2), where l = l and v = v]) blast
  have "sum_list (map d_count differences) = int (length qs)"
    using assms(3) qs(2) by (auto simp: mergeIndexes_counts record_places_total)
  moreover have "length qs \<le> length (item_places l r c [] v)"
    using qs(1) by (rule list_emb_length)
  ultimately show ?thesis using assms(3) qs(2) by auto
qed

theorem compare_counts_every_place_witness:
  "sum_list (map d_count (fst (compare_payloads (newDiffer None None)
      (Some (JList [JBool True, JNull])) (Some (JList [JBool False, JNull, JNull]))))) = 2"
proof -
  let ?r = "Some (JList [JBool True, JNull])" and ?c = "Some (JList [JBool False, JNull, JNull])"
  let ?p = "compare_payloads (newDiffer None None) ?r ?c"
  have items: "list_items [] None [JBool True, JNull] [JBool False, JNull, JNull]
    = [(Some (JBool True), Some (JBool False), [IndexPart 0], None),
       (Some JNull, Some JNull, [IndexPart 1], None), (None, Some JNull, [IndexPart 2], None)]"
    by (simp add: list_items_def upt_rec element_of_def appendIndex_def)
  have "length (item_places None ?r ?c [] None) = 2" by (simp add: items)
  moreover have "\<not> snd ?p"
    by (simp add: compare_payloads_def newDiffer_def maxDifferences_def items add_difference_def)
  ultimately show ?thesis
    using compare_counts_every_place [of ?r ?c None None, OF _ _ prod.collapse [symmetric]]
    by (simp del: item_places.simps places.simps)
qed

subsection \<open>What paths reveal\<close>

definition declared_names :: "schema option \<Rightarrow> string set" where
  "declared_names loaded =
     (case loaded of None \<Rightarrow> {} | Some s \<Rightarrow> {fl_name f |t f. t \<in> set (Schema_Types s) \<and> f \<in> set (ty_fields t)})"

definition declared_path :: "schema option \<Rightarrow> document_path \<Rightarrow> bool" where
  "declared_path loaded p \<longleftrightarrow> (\<forall>n. FieldPart n \<in> set p \<longrightarrow> n \<in> declared_names loaded)"

lemma declared_path_wildcard: "declared_path l p \<Longrightarrow> declared_path l (map wildcard_part p)"
  by (auto simp: declared_path_def split: if_splits)

lemma declared_path_append [simp]:
  "declared_path l (appendAnyKey p) \<longleftrightarrow> declared_path l p"
  "declared_path l (appendIndex p i) \<longleftrightarrow> declared_path l p"
  by (auto simp: declared_path_def appendAnyKey_def appendIndex_def)

lemma declared_path_member:
  assumes "declared_path l p"
  shows "declared_path l (fst (member l p v k))"
proof -
  have field: "declared_path (Some s) (appendField p k)"
    if l: "l = Some s" and t: "Schema_Type s n = Inr t" and f: "Type_Field t k = Some f" for s n t f
  proof -
    have "t \<in> set (Schema_Types s)"
      using t by (auto simp: Schema_Type_def Schema_Types_def split: option.splits dest: map_of_SomeD intro: rev_image_eqI)
    moreover have "f \<in> set (ty_fields t)" "fl_name f = k"
      using f by (auto simp: Type_Field_def find_Some_iff)
    ultimately have "k \<in> declared_names l" unfolding declared_names_def l by auto
    with assms l show ?thesis by (auto simp: declared_path_def appendField_def)
  qed
  show ?thesis using assms field
    by (auto simp: member_def split: option.splits sum.splits)
qed

lemma places_declared:
  "declared_path l p \<Longrightarrow> x \<in> set (places l r c p v) \<Longrightarrow> \<exists>q. fst x = reported q \<and> declared_path l q"
  "declared_path l p \<Longrightarrow> x \<in> set (item_places l ro co p v) \<Longrightarrow> \<exists>q. fst x = reported q \<and> declared_path l q"
proof (induction l r c p v and l ro co p v rule: places_item_places.induct)
  case (1 loaded rm cm path val)
  then obtain r c p u where item: "(r, c, p, u) \<in> set (object_items loaded path val rm cm)"
    "x \<in> set (item_places loaded r c p u)" by auto
  then have "declared_path loaded p"
    using declared_path_member [OF "1.prems"(1)] by (auto simp: object_items_def) (metis fst_conv)
  with "1.IH" [OF item(1)] item(2) show ?case by blast
next
  case (2 loaded rl cl path val)
  then obtain r c p u where item: "(r, c, p, u) \<in> set (list_items path val rl cl)"
    "x \<in> set (item_places loaded r c p u)" by auto
  then have "declared_path loaded p" using "2.prems"(1) by (auto simp: list_items_def)
  with "2.IH" [OF item(1)] item(2) show ?case by blast
qed (auto split: if_splits)

lemma record_places_paths:
  "d \<in> set (fold record_place qs ds) \<Longrightarrow> rd_path d \<in> rd_path ` set ds \<union> fst ` set qs"
proof (induction qs arbitrary: ds)
  case (Cons q qs)
  have "rd_path ` set (record_place q ds) \<subseteq> rd_path ` set ds \<union> {fst q}"
  proof (cases q)
    case (fields p c t)
    show ?thesis unfolding fields record_place_def by (induction ds) auto
  qed
  with Cons.IH [of "record_place q ds"] Cons.prems show ?case by fastforce
qed simp

text \<open>
  C31. Differences leave the mirror, so their paths hold no payload data: each is the text of a
  path whose field names are all declared by the schema, and without a schema it names no key
  at all.
\<close>

theorem compare_paths_value_free:
  assumes "option_ok r" "option_ok c" "d \<in> set (fst (compare_payloads (newDiffer l v) r c))"
  shows "\<exists>p. d_path d = path_String p \<and> (\<forall>n. FieldPart n \<in> set p \<longrightarrow> n \<in> declared_names l)"
proof -
  obtain qs where qs: "subseq qs (item_places l r c [] v)"
    "compare_payloads (newDiffer l v) r c
       = (mergeIndexes (fold record_place qs []), length qs < length (item_places l r c [] v))"
    by (rule compare_collects [OF assms(1,2), where l = l and v = v]) blast
  obtain i where i: "i \<in> set (fold record_place qs [])"
    "d_path d \<in> {rp_text (rd_path i), rp_wildcard (rd_path i)}"
    using mergeIndexes_path assms(3) qs(2) by fastforce
  then obtain x where x: "x \<in> set qs" "rd_path i = fst x" using record_places_paths [OF i(1)] by auto
  have "x \<in> set (item_places l r c [] v)" by (rule list_emb_set [OF qs(1) x(1)]) simp
  moreover have "declared_path l []" by (simp add: declared_path_def)
  ultimately obtain q where q: "fst x = reported q" "declared_path l q"
    using places_declared(2) by blast
  with i(2) x(2) have "d_path d = path_String q \<or> d_path d = path_String (map wildcard_part q)"
    by (auto simp: reported_def)
  with q(2) declared_path_wildcard [OF q(2)] show ?thesis unfolding declared_path_def by blast
qed

theorem compare_paths_value_free_witness:
  "\<exists>p. d_path (hd (fst (compare_payloads (newDiffer None None)
        (Some (JObject [(''secret'', JNull)])) (Some (JObject []))))) = path_String p
     \<and> (\<forall>n. FieldPart n \<in> set p \<longrightarrow> n \<in> declared_names None)"
proof (rule compare_paths_value_free)
  have "fst (compare_payloads (newDiffer None None) (Some (JObject [(''secret'', JNull)])) (Some (JObject [])))
      \<noteq> []"
    by (simp add: compare_payloads_def newDiffer_def maxDifferences_def object_items_def sortedKeys_def
        member_def add_difference_def mergeIndexes_Nil_iff)
  then show "hd (fst (compare_payloads (newDiffer None None) (Some (JObject [(''secret'', JNull)])) (Some (JObject []))))
      \<in> set (fst (compare_payloads (newDiffer None None) (Some (JObject [(''secret'', JNull)])) (Some (JObject []))))"
    by (rule hd_in_set)
qed simp_all

subsection \<open>Missing members and the bound\<close>

text \<open>
  The bound is tested on entry to \<open>diff\<close> only. A declared field that one side lacks is recorded
  by \<open>diffItem\<close> without the test, so an object type with many fields gives as many differences.
\<close>

definition wide_name :: "nat \<Rightarrow> string" where
  "wide_name i = replicate (Suc i) CHR ''a''"

definition wide_schema :: "nat \<Rightarrow> schema" where
  "wide_schema n =
     \<lparr>sc_types = [(''T'', \<lparr>ty_name = ''T'',
        ty_fields = map (\<lambda>i. \<lparr>fl_name = wide_name i, fl_optional = True, fl_value = Value KindString [] None []\<rparr>) [0..<n]\<rparr>)],
      sc_operations = []\<rparr>"

definition wide_payload :: "nat \<Rightarrow> json" where
  "wide_payload n = JObject (map (\<lambda>i. (wide_name i, JString [])) [0..<n])"

abbreviation wide_value :: svalue where
  "wide_value \<equiv> Value KindObject [] None ''T''"

lemma wide_name_less: "i < j \<Longrightarrow> wide_name i < wide_name j"
proof -
  assume "i < j"
  then have "wide_name j = wide_name i @ CHR ''a'' # replicate (j - i - 1) CHR ''a''"
    unfolding wide_name_def by (metis One_nat_def Suc_diff_Suc Suc_less_eq add_diff_cancel_left' diff_Suc_1
        le_add_diff_inverse less_imp_le_nat replicate_Suc replicate_add Suc_leI diff_diff_left plus_1_eq_Suc add.commute)
  then show ?thesis by (simp add: list_less_def lexord_append_rightI)
qed

lemma wide_keys: "keys (map (\<lambda>i. (wide_name i, JString [])) xs) = map wide_name xs"
  by (simp add: keys_def)

lemma wide_sorted: "sorted_wrt (<) (map wide_name [0..<n])"
  by (auto simp: sorted_wrt_iff_nth_less wide_name_less)

lemma wide_payload_ok: "json_ok (wide_payload n)"
  using wide_sorted by (auto simp: wide_payload_def ordered_map_def wide_keys list_all_iff)

lemma record_new:
  assumes "distinct (map fst ps)" "\<And>d. d \<in> set ds \<Longrightarrow> rd_path d \<notin> fst ` set ps"
  shows "fold record_place ps ds = ds @ map (\<lambda>(p, c, t). \<lparr>rd_path = p, rd_change = c, rd_retype = t, rd_count = 1\<rparr>) ps"
  using assms
proof (induction ps arbitrary: ds)
  case (Cons x ps)
  obtain p c t where x: "x = (p, c, t)" by (cases x)
  have "count_difference p c t ds = ds @ [\<lparr>rd_path = p, rd_change = c, rd_retype = t, rd_count = 1\<rparr>]"
    if "\<forall>d \<in> set ds. rd_path d \<noteq> p"
    using that by (induction ds) (auto simp: same_difference_def)
  with Cons.prems(2) x have "record_place x ds = ds @ [\<lparr>rd_path = p, rd_change = c, rd_retype = t, rd_count = 1\<rparr>]"
    by (auto simp: record_place_def)
  moreover have "fold record_place ps (ds @ [\<lparr>rd_path = p, rd_change = c, rd_retype = t, rd_count = 1\<rparr>])
      = (ds @ [\<lparr>rd_path = p, rd_change = c, rd_retype = t, rd_count = 1\<rparr>])
        @ map (\<lambda>(p, c, t). \<lparr>rd_path = p, rd_change = c, rd_retype = t, rd_count = 1\<rparr>) ps"
    by (rule Cons.IH) (use Cons.prems x in force)+
  ultimately show ?case using x by simp
qed simp

lemma diff_missing_items:
  assumes "\<And>r c p v. (r, c, p, v) \<in> set items \<Longrightarrow> r \<noteq> None \<and> c = None"
  shows "fold (\<lambda>(r, c, p, v) d. diffItem d r c p v) items d
    = d\<lparr>df_differences := fold record_place (map (\<lambda>(r, c, p, v). (reported p, ChangeMissing, None)) items)
        (df_differences d)\<rparr>"
  using assms
proof (induction items arbitrary: d)
  case (Cons x items)
  obtain r p v where x: "x = (Some r, None, p, v)" using Cons.prems by (cases x) fastforce
  have "\<And>r c p v. (r, c, p, v) \<in> set items \<Longrightarrow> r \<noteq> None \<and> c = None"
    by (rule Cons.prems) (erule list.set_intros(2))
  from Cons.IH [OF this] x show ?case
    by (simp add: add_difference_def retype_of_def record_place_def)
qed simp

lemma wide_field: "i < n \<Longrightarrow> Type_Field (snd (hd (sc_types (wide_schema n)))) (wide_name i) =
    Some \<lparr>fl_name = wide_name i, fl_optional = True, fl_value = Value KindString [] None []\<rparr>"
proof -
  assume "i < n"
  moreover have "wide_name j = wide_name i \<longleftrightarrow> j = i" for i j
    using wide_name_less [of i j] wide_name_less [of j i] by (cases i j rule: linorder_cases) auto
  ultimately show ?thesis
    by (auto simp: Type_Field_def wide_schema_def find_Some_iff intro!: exI [of _ i])
qed

lemma wide_items:
  "object_items (Some (wide_schema n)) [] (Some wide_value) (map (\<lambda>i. (wide_name i, JString [])) [0..<n]) []
   = map (\<lambda>i. (Some (JString []), None, [FieldPart (wide_name i)], Some (Value KindString [] None []))) [0..<n]"
proof -
  have "sortedKeys (map (\<lambda>i. (wide_name i, JString [])) [0..<n]) [] = map wide_name [0..<n]"
    using wide_sorted by (simp add: sortedKeys_def wide_keys sorted_sort_id strict_sorted_imp_sorted)
  moreover have "map_of (map (\<lambda>i. (wide_name i, JString [])) [0..<n]) (wide_name i) = Some (JString [])"
    if "i < n" for i
    using that strict_sorted_iff [THEN iffD1, OF wide_sorted]
    by (intro map_of_is_SomeI) (auto simp: o_def)
  moreover have "member (Some (wide_schema n)) [] (Some wide_value) (wide_name i)
     = ([FieldPart (wide_name i)], Some (Value KindString [] None []))" if "i < n" for i
    using wide_field [OF that]
    by (simp add: member_def Schema_Type_def wide_schema_def appendField_def)
  ultimately show ?thesis by (simp add: object_items_def)
qed

lemma field_text_inject: "part_String (FieldPart a) = part_String (FieldPart b) \<longleftrightarrow> a = b"
  using parts_inject [of "[FieldPart a]" "[FieldPart b]"] by (auto simp del: part_String.simps)

lemma wide_merge_key:
  "merge_key \<lparr>rd_path = reported [FieldPart a], rd_change = ChangeMissing, rd_retype = None, rd_count = 1\<rparr>
   = merge_key \<lparr>rd_path = reported [FieldPart b], rd_change = ChangeMissing, rd_retype = None, rd_count = 1\<rparr>
   \<longleftrightarrow> a = b"
  by (simp add: merge_key_def reported_def path_String_def field_text_inject del: part_String.simps)

text \<open>
  C32. The bound of one hundred differences holds back only what \<open>diff\<close> records: an object with
  \<open>n\<close> declared fields against an empty one gives \<open>n\<close> differences for every \<open>n\<close>, and the result
  is not marked as truncated.
\<close>

theorem missing_members_exceed_bound:
  "case compare_payloads (newDiffer (Some (wide_schema n)) (Some wide_value))
          (Some (wide_payload n)) (Some (JObject [])) of
     (differences, truncated) \<Rightarrow> length differences = n \<and> \<not> truncated"
proof -
  let ?item = "\<lambda>i. \<lparr>rd_path = reported [FieldPart (wide_name i)], rd_change = ChangeMissing, rd_retype = None, rd_count = 1\<rparr>"
  let ?d = "newDiffer (Some (wide_schema n)) (Some wide_value)"
  have inj: "wide_name i = wide_name j \<longleftrightarrow> i = j" for i j
    using wide_name_less [of i j] wide_name_less [of j i] by (cases i j rule: linorder_cases) auto
  have new: "fold record_place (map (\<lambda>i. (reported [FieldPart (wide_name i)], ChangeMissing, None)) [0..<n]) []
      = map ?item [0..<n]"
    by (subst record_new)
      (auto simp: o_def distinct_map inj_on_def inj reported_def path_String_def field_text_inject simp del: part_String.simps)
  have "diffItem ?d (Some (wide_payload n)) (Some (JObject [])) [] (Some wide_value)
      = ?d\<lparr>df_differences := map ?item [0..<n]\<rparr>"
  proof (cases "n = 0")
    case True
    then show ?thesis by (simp add: wide_payload_def newDiffer_def)
  next
    case False
    have room: "\<not> maxDifferences \<le> length (df_differences ?d)" "df_loaded ?d = Some (wide_schema n)"
      "df_differences ?d = []"
      by (simp_all add: newDiffer_def maxDifferences_def)
    show ?thesis
      using False room new wide_items [of n]
        diff_missing_items [of "object_items (Some (wide_schema n)) [] (Some wide_value)
          (map (\<lambda>i. (wide_name i, JString [])) [0..<n]) []" ?d]
      by (auto simp: wide_payload_def o_def)
  qed
  moreover have "card (merge_key ` set (map ?item [0..<n])) = n"
    unfolding set_map image_image
    by (subst card_image) (auto simp: inj_on_def wide_merge_key inj)
  ultimately show ?thesis
    by (simp add: compare_payloads_def mergeIndexes_length newDiffer_def)
qed

end
