(* ===== verification/Script_Rules.thy ===== *)
theory Script_Rules
  imports Payload_Schema Spectre_Model
begin

text \<open>
  \<open>internal/comparison/javascript\<close>: the rules that decide how responses are compared
  (\<open>rule.go\<close>) and the evaluator that calls script functions (\<open>evaluator.go\<close>).

  The JavaScript runtime is third-party code: its state is the type parameter \<open>'js\<close>, and a
  script function is any function from that state and an argument to an outcome and the next
  state. Script functions may therefore keep state between the calls of one evaluator.
\<close>

subsection \<open>HTTP headers\<close>

type_synonym header = "(string \<times> string list) list"

definition token_char :: "char \<Rightarrow> bool" where
  "token_char c \<longleftrightarrow>
     (CHR ''a'' \<le> c \<and> c \<le> CHR ''z'') \<or> (CHR ''A'' \<le> c \<and> c \<le> CHR ''Z'') \<or> is_digit c
     \<or> c \<in> set ''!#$%&*+-.^_|~'' \<or> (of_char c :: nat) = 39 \<or> (of_char c :: nat) = 96"

definition upper_char :: "char \<Rightarrow> char" where
  "upper_char c = (if CHR ''a'' \<le> c \<and> c \<le> CHR ''z'' then char_of ((of_char c :: nat) - 32) else c)"

definition lower_char :: "char \<Rightarrow> char" where
  "lower_char c = (if CHR ''A'' \<le> c \<and> c \<le> CHR ''Z'' then char_of ((of_char c :: nat) + 32) else c)"

fun canonical_chars :: "bool \<Rightarrow> string \<Rightarrow> string" where
  "canonical_chars upper [] = []"
| "canonical_chars upper (c # cs) =
     (if upper then upper_char c else lower_char c) # canonical_chars (c = CHR ''-'') cs"

text \<open>\<open>textproto.CanonicalMIMEHeaderKey\<close>: a name that is no token stays as it is.\<close>

definition canonical_key :: "string \<Rightarrow> string" where
  "canonical_key name = (if list_all token_char name then canonical_chars True name else name)"

definition header_values :: "header \<Rightarrow> string \<Rightarrow> string list" where
  "header_values h name = (case map_of h (canonical_key name) of Some vs \<Rightarrow> vs | None \<Rightarrow> [])"

definition joinedHeader :: "header \<Rightarrow> string \<Rightarrow> string option" where
  "joinedHeader h name =
     (let values = header_values h name in
      if length values = 0 then None else Some (join '', '' values))"

subsection \<open>Rules\<close>

datatype request_selector = RequestPattern (rq_pattern: string) | RequestScript

datatype status_selector = StatusAny | StatusCodes "int list" | StatusScript

datatype header_selector = HeaderValue string string | HeaderScript string

datatype action = ActionIgnore | ActionMatch (am_type: "type_ref option") (am_normalises: bool)

record rule =
  ru_index :: int
  ru_protocol :: protocol
  ru_request :: request_selector
  ru_status :: status_selector
  ru_request_headers :: "header_selector list"
  ru_response_headers :: "header_selector list"
  ru_action :: action

definition newRule :: "int \<Rightarrow> protocol \<Rightarrow> request_selector \<Rightarrow> status_selector
    \<Rightarrow> header_selector list \<Rightarrow> header_selector list \<Rightarrow> action \<Rightarrow> rule" where
  "newRule index protocol request status requestHeaders responseHeaders action =
     \<lparr>ru_index = index, ru_protocol = protocol, ru_request = request, ru_status = status,
      ru_request_headers = requestHeaders, ru_response_headers = responseHeaders, ru_action = action\<rparr>"

fun headerName :: "header_selector \<Rightarrow> string" where
  "headerName (HeaderValue n _) = n"
| "headerName (HeaderScript n) = n"

definition HeaderValue_Selects :: "string \<Rightarrow> string option \<Rightarrow> bool" where
  "HeaderValue_Selects expected value = (case value of Some present \<Rightarrow> present = expected | None \<Rightarrow> False)"

record http_request =
  hq_method :: string
  hq_path :: string
  hq_header :: header

record http_response =
  hs_status :: int
  hs_header :: header

definition Request_HeaderValue :: "http_request \<Rightarrow> string \<Rightarrow> string option" where
  "Request_HeaderValue r name = joinedHeader (hq_header r) name"

definition Response_HeaderValue :: "http_response \<Rightarrow> string \<Rightarrow> string option" where
  "Response_HeaderValue r name = joinedHeader (hs_header r) name"

definition SelectsRequestHeaders :: "rule \<Rightarrow> header \<Rightarrow> bool" where
  "SelectsRequestHeaders r h \<longleftrightarrow>
     \<not> list_ex (\<lambda>s. case s of HeaderValue n v \<Rightarrow> \<not> HeaderValue_Selects v (joinedHeader h n)
                | HeaderScript _ \<Rightarrow> False) (ru_request_headers r)"

fun is_script :: "header_selector \<Rightarrow> bool" where
  "is_script (HeaderScript _) = True"
| "is_script (HeaderValue _ _) = False"

definition SelectsEveryResponse :: "rule \<Rightarrow> bool" where
  "SelectsEveryResponse r \<longleftrightarrow>
     ru_status r = StatusAny \<and> \<not> list_ex is_script (ru_request_headers r)
     \<and> length (ru_response_headers r) = 0"

fun writeHeaders :: "string \<Rightarrow> header_selector list \<Rightarrow> string" where
  "writeHeaders method [] = []"
| "writeHeaders method (HeaderValue n v # hs) =
     ''.'' @ method @ ''('' @ go_quote n @ '', '' @ go_quote v @ '')'' @ writeHeaders method hs"
| "writeHeaders method (HeaderScript n # hs) =
     ''.'' @ method @ ''('' @ go_quote n @ '', <function>)'' @ writeHeaders method hs"

definition Rule_String :: "rule \<Rightarrow> string" where
  "Rule_String r =
     (case ru_request r of
        RequestPattern p \<Rightarrow> ru_protocol r @ ''('' @ go_quote p @ '')''
      | RequestScript \<Rightarrow> ru_protocol r @ ''(<function>)'')
     @ writeHeaders ''requestHeader'' (ru_request_headers r)
     @ (case ru_status r of
          StatusAny \<Rightarrow> []
        | StatusCodes codes \<Rightarrow> ''.status('' @ join '', '' (map show_int codes) @ '')''
        | StatusScript \<Rightarrow> ''.status(<function>)'')
     @ writeHeaders ''responseHeader'' (ru_response_headers r)"

definition sameHeaderValues :: "header_selector list \<Rightarrow> header_selector list \<Rightarrow> bool" where
  "sameHeaderValues headers other \<longleftrightarrow>
     length headers = length other \<and> list_all (\<lambda>(h, k). \<not> is_script h \<and> h = k) (zip headers other)"

definition sameSelectors :: "rule \<Rightarrow> rule \<Rightarrow> bool" where
  "sameSelectors r other =
     (case (ru_request r, ru_request other) of
        (RequestPattern p, RequestPattern q) \<Rightarrow>
          (if ru_protocol r \<noteq> ru_protocol other \<or> p \<noteq> q then False
           else case ru_status r of
             StatusAny \<Rightarrow>
               ru_status other = StatusAny
               \<and> sameHeaderValues (ru_request_headers r) (ru_request_headers other)
               \<and> sameHeaderValues (ru_response_headers r) (ru_response_headers other)
           | StatusCodes codes \<Rightarrow>
               ru_status other = StatusCodes codes
               \<and> sameHeaderValues (ru_request_headers r) (ru_request_headers other)
               \<and> sameHeaderValues (ru_response_headers r) (ru_response_headers other)
           | StatusScript \<Rightarrow> False)
      | _ \<Rightarrow> False)"

subsection \<open>The evaluator\<close>

record field_target =
  ft_type :: type_ref
  ft_path :: string

definition FieldTarget_String :: "field_target \<Rightarrow> string" where
  "FieldTarget_String t = ft_type t @ ''.'' @ ft_path t"

text \<open>
  A value of the runtime: \<open>undefined\<close>, one that the JSON helper can represent, or one that it
  rejects (a function, a symbol, a number that is not finite).
\<close>

datatype js_value = JsUndefined | JsJson json | JsOther

text \<open>No outcome means that the function threw an exception.\<close>

type_synonym 'js callable = "'js \<Rightarrow> js_value \<Rightarrow> js_value option \<times> 'js"

record 'js rule_callbacks =
  rc_request :: "'js callable option"
  rc_status :: "'js callable option"
  rc_request_headers :: "(string \<times> 'js callable) list"
  rc_response_headers :: "(string \<times> 'js callable) list"
  rc_normalise :: "'js callable option"

record 'js evaluator =
  ev_runtime :: 'js
  ev_fields :: "(field_target \<times> 'js callable) list"
  ev_messages :: "(type_ref \<times> 'js callable) list"
  ev_callbacks :: "'js rule_callbacks list"

definition no_callbacks :: "'js rule_callbacks" where
  "no_callbacks = \<lparr>rc_request = None, rc_status = None, rc_request_headers = [], rc_response_headers = [],
                   rc_normalise = None\<rparr>"

definition registry_rule :: "'js evaluator \<Rightarrow> int \<Rightarrow> 'js rule_callbacks" where
  "registry_rule e index =
     (if index < 0 \<or> index \<ge> int (length (ev_callbacks e)) then no_callbacks else ev_callbacks e ! nat index)"

fun js_argument :: "json option \<Rightarrow> js_value" where
  "js_argument None = JsUndefined"
| "js_argument (Some v) = JsJson v"

definition ev_normalise :: "'js evaluator \<Rightarrow> 'js callable \<Rightarrow> json option \<Rightarrow> json option result \<times> 'js evaluator" where
  "ev_normalise e callback value =
     (case callback (ev_runtime e) (js_argument value) of
        (outcome, js) \<Rightarrow>
          ((case outcome of
              None \<Rightarrow> Inl ''JavaScript normaliser threw an exception''
            | Some JsUndefined \<Rightarrow> Inr None
            | Some (JsJson v) \<Rightarrow> Inr (Some v)
            | Some JsOther \<Rightarrow> Inl ''JavaScript normaliser returned a value that is not representable as JSON''),
           e\<lparr>ev_runtime := js\<rparr>))"

definition NormaliseField :: "'js evaluator \<Rightarrow> field_target \<Rightarrow> json option \<Rightarrow> json option result \<times> 'js evaluator" where
  "NormaliseField e target value =
     (case map_of (ev_fields e) target of
        None \<Rightarrow>
          (Inl (''JavaScript field normaliser ('' @ go_quote (ft_type target) @ '', '' @ go_quote (ft_path target)
             @ '') is unavailable''), e)
      | Some callback \<Rightarrow> ev_normalise e callback value)"

definition NormaliseMessage :: "'js evaluator \<Rightarrow> type_ref \<Rightarrow> json option \<Rightarrow> json option result \<times> 'js evaluator" where
  "NormaliseMessage e target value =
     (case map_of (ev_messages e) target of
        None \<Rightarrow> (Inl (''JavaScript message normaliser '' @ go_quote target @ '' is unavailable''), e)
      | Some callback \<Rightarrow> ev_normalise e callback value)"

definition ev_NormaliseResponse :: "'js evaluator \<Rightarrow> rule \<Rightarrow> json \<Rightarrow> json option result \<times> 'js evaluator" where
  "ev_NormaliseResponse e r response =
     (case rc_normalise (registry_rule e (ru_index r)) of
        None \<Rightarrow> (Inl (''JavaScript normaliser of rule '' @ Rule_String r @ '' is unavailable''), e)
      | Some callback \<Rightarrow> ev_normalise e callback (Some response))"

definition ev_selects :: "'js evaluator \<Rightarrow> rule \<Rightarrow> 'js callable \<Rightarrow> js_value \<Rightarrow> bool result \<times> 'js evaluator" where
  "ev_selects e r callback argument =
     (case callback (ev_runtime e) argument of
        (outcome, js) \<Rightarrow>
          ((case outcome of
              None \<Rightarrow> Inl (''JavaScript selector of rule '' @ Rule_String r @ '' threw an exception'')
            | Some (JsJson (JBool selected)) \<Rightarrow> Inr selected
            | Some _ \<Rightarrow> Inl (''JavaScript selector of rule '' @ Rule_String r
                 @ '' returned a value that is not a boolean'')),
           e\<lparr>ev_runtime := js\<rparr>))"

definition request_argument :: "http_request \<Rightarrow> json" where
  "request_argument r =
     JObject
       [(''headers'', JObject (fold (\<lambda>(name, _). map_put (map lower_char name)
            (JString (case Request_HeaderValue r name of Some v \<Rightarrow> v | None \<Rightarrow> []))) (hq_header r) [])),
        (''method'', JString (hq_method r)), (''path'', JString (hq_path r))]"

definition SelectsRequest :: "'js evaluator \<Rightarrow> rule \<Rightarrow> http_request \<Rightarrow> bool result \<times> 'js evaluator" where
  "SelectsRequest e r request =
     (case rc_request (registry_rule e (ru_index r)) of
        None \<Rightarrow> (Inl (''JavaScript request function of rule '' @ Rule_String r @ '' is unavailable''), e)
      | Some callback \<Rightarrow> ev_selects e r callback (JsJson (request_argument request)))"

definition SelectsStatus :: "'js evaluator \<Rightarrow> rule \<Rightarrow> int \<Rightarrow> bool result \<times> 'js evaluator" where
  "SelectsStatus e r status =
     (case rc_status (registry_rule e (ru_index r)) of
        None \<Rightarrow> (Inl (''JavaScript status function of rule '' @ Rule_String r @ '' is unavailable''), e)
      | Some callback \<Rightarrow> ev_selects e r callback (JsJson (JNumber (of_int status))))"

definition selectsHeader :: "'js evaluator \<Rightarrow> rule \<Rightarrow> (string \<times> 'js callable) list \<Rightarrow> string \<Rightarrow> string
    \<Rightarrow> string option \<Rightarrow> bool result \<times> 'js evaluator" where
  "selectsHeader e r callbacks message name value =
     (case map_of callbacks name of
        None \<Rightarrow>
          (Inl (''JavaScript function for '' @ message @ '' header '' @ go_quote name @ '' of rule ''
             @ Rule_String r @ '' is unavailable''), e)
      | Some callback \<Rightarrow>
          ev_selects e r callback (case value of Some present \<Rightarrow> JsJson (JString present) | None \<Rightarrow> JsUndefined))"

definition SelectsRequestHeader :: "'js evaluator \<Rightarrow> rule \<Rightarrow> string \<Rightarrow> string option \<Rightarrow> bool result \<times> 'js evaluator" where
  "SelectsRequestHeader e r name value =
     selectsHeader e r (rc_request_headers (registry_rule e (ru_index r))) ''request'' name value"

definition SelectsResponseHeader :: "'js evaluator \<Rightarrow> rule \<Rightarrow> string \<Rightarrow> string option \<Rightarrow> bool result \<times> 'js evaluator" where
  "SelectsResponseHeader e r name value =
     selectsHeader e r (rc_response_headers (registry_rule e (ru_index r))) ''response'' name value"

subsection \<open>Laws\<close>

lemma sameHeaderValues_iff:
  "sameHeaderValues hs ks \<longleftrightarrow> hs = ks \<and> list_all (\<lambda>h. \<not> is_script h) hs"
proof -
  have "length hs = length ks \<Longrightarrow>
    list_all (\<lambda>(h, k). \<not> is_script h \<and> h = k) (zip hs ks) \<longleftrightarrow> hs = ks \<and> list_all (\<lambda>h. \<not> is_script h) hs"
    by (induction hs ks rule: list_induct2) auto
  then show ?thesis unfolding sameHeaderValues_def by auto
qed

lemma sameSelectors_iff:
  "sameSelectors r s \<longleftrightarrow>
     ru_request r \<noteq> RequestScript \<and> ru_status r \<noteq> StatusScript
     \<and> list_all (\<lambda>h. \<not> is_script h) (ru_request_headers r @ ru_response_headers r)
     \<and> ru_protocol r = ru_protocol s \<and> ru_request r = ru_request s \<and> ru_status r = ru_status s
     \<and> ru_request_headers r = ru_request_headers s \<and> ru_response_headers r = ru_response_headers s"
  by (cases "ru_request r"; cases "ru_request s"; cases "ru_status r")
    (auto simp: sameSelectors_def sameHeaderValues_iff)


end
