(* ===== verification/Payload_Normaliser.thy ===== *)
theory Payload_Normaliser
  imports Script_Rules Payload_Diff "HOL-Library.Multiset" "HOL-Library.Product_Lexorder"
begin

text \<open>
  \<open>internal/comparison/internal\<close>, the normalisation of one payload: resolving declared targets
  against the schema (\<open>target.go\<close>), finding where they occur in a payload (\<open>traverse.go\<close>),
  and rewriting the payload leaf first (\<open>plan.go\<close>, \<open>run.go\<close>). Log records are left out.
\<close>

subsection \<open>Document values\<close>

text \<open>A \<open>documentValue\<close> is its optional value: an absent path, or a value that may be JSON null.\<close>

definition isPresent :: "json option \<Rightarrow> bool" where
  "isPresent v \<longleftrightarrow> v \<noteq> None"

definition value_array :: "json option \<Rightarrow> json list" where
  "value_array v = (case v of Some (JList xs) \<Rightarrow> xs | _ \<Rightarrow> [])"

definition value_object :: "json option \<Rightarrow> (string \<times> json) list" where
  "value_object v = (case v of Some (JObject m) \<Rightarrow> m | _ \<Rightarrow> [])"

definition arrayLength :: "document \<Rightarrow> document_path \<Rightarrow> nat" where
  "arrayLength payload path = length (value_array (Document_Value payload path))"

definition objectKeys :: "document \<Rightarrow> document_path \<Rightarrow> string list" where
  "objectKeys payload path = sort (keys (value_object (Document_Value payload path)))"

subsection \<open>Targets\<close>

record field_step =
  fs_descriptor :: field
  fs_elements :: bool

definition newFieldStep :: "field \<Rightarrow> bool \<Rightarrow> field_step" where
  "newFieldStep descriptor elements = \<lparr>fs_descriptor = descriptor, fs_elements = elements\<rparr>"

definition jsonName :: "field_step \<Rightarrow> string" where
  "jsonName s = fl_name (fs_descriptor s)"

datatype target_kind = targetField | targetMessage

fun target_kind_text :: "target_kind \<Rightarrow> string" where
  "target_kind_text targetField = ''field''"
| "target_kind_text targetMessage = ''message''"

datatype target =
  Field_Target (tg_declared: field_target) (tg_root: stype) (tg_steps: "field_step list")
  | Message_Target (tg_name: type_ref) (tg_descriptor: stype)

fun target_kind_of :: "target \<Rightarrow> target_kind" where
  "target_kind_of (Field_Target _ _ _) = targetField"
| "target_kind_of (Message_Target _ _) = targetMessage"

fun target_name :: "target \<Rightarrow> string" where
  "target_name (Field_Target d _ _) = FieldTarget_String d"
| "target_name (Message_Target n _) = n"

fun target_priority :: "target \<Rightarrow> int" where
  "target_priority (Field_Target _ _ _) = 0"
| "target_priority (Message_Target _ _) = 1"

fun target_key :: "target \<Rightarrow> string" where
  "target_key (Field_Target d r s) =
     target_kind_text targetField @ '':'' @ ft_type d @ [CHR 0x00] @ ft_path d"
| "target_key (Message_Target n t) = target_kind_text targetMessage @ '':'' @ n"

fun split_on :: "char \<Rightarrow> string \<Rightarrow> string list" where
  "split_on c [] = [[]]"
| "split_on c (x # xs) =
     (if x = c then [] # split_on c xs
      else case split_on c xs of [] \<Rightarrow> [[x]] | p # ps \<Rightarrow> (x # p) # ps)"

definition has_suffix :: "string \<Rightarrow> string \<Rightarrow> bool" where
  "has_suffix s t \<longleftrightarrow> length t \<le> length s \<and> drop (length s - length t) s = t"

definition trim_suffix :: "string \<Rightarrow> string \<Rightarrow> string" where
  "trim_suffix s t = (if has_suffix s t then take (length s - length t) s else s)"

text \<open>The loop of \<open>resolveField\<close> over the parts of the path that are left.\<close>

fun resolve_steps :: "schema \<Rightarrow> stype \<Rightarrow> string list \<Rightarrow> field_step list result" where
  "resolve_steps loaded current [] = Inr []"
| "resolve_steps loaded current (part # parts) =
     (let elements = has_suffix part ''[]'';
          fieldName = trim_suffix part ''[]'';
          last_part = (parts = [])
      in case Type_Field current fieldName of
        None \<Rightarrow> Inl (''type '' @ go_quote (ty_name current) @ '' has no field '' @ go_quote fieldName)
      | Some f \<Rightarrow>
          (if elements \<and> sv_kind (fl_value f) \<noteq> KindList then Inl (''field '' @ go_quote fieldName @ '' is not a list'')
           else if elements \<and> last_part then Inl ''field target cannot end with []''
           else if last_part then Inr [newFieldStep f elements]
           else bind_result
             (if sv_kind (fl_value f) = KindList then
                (if \<not> elements then Inl (''list field '' @ go_quote fieldName @ '' requires [] before a child field'')
                 else case sv_element (fl_value f) of
                   None \<Rightarrow> Inl (''list field '' @ go_quote fieldName @ '' has no element type'')
                 | Some e \<Rightarrow> Inr e)
              else Inr (fl_value f)) (\<lambda>v.
             if sv_kind v \<noteq> KindObject then Inl (''field '' @ go_quote fieldName @ '' does not contain an object'')
             else bind_result (Schema_Type loaded (sv_type v)) (\<lambda>next.
             bind_result (resolve_steps loaded next parts) (\<lambda>steps. Inr (newFieldStep f elements # steps))))))"

definition resolveField :: "schema \<Rightarrow> field_target \<Rightarrow> (stype \<times> field_step list) result" where
  "resolveField loaded declared =
     bind_result (Schema_Type loaded (ft_type declared)) (\<lambda>top_type.
     bind_result (resolve_steps loaded top_type (split_on CHR ''.'' (ft_path declared))) (\<lambda>steps.
     Inr (top_type, steps)))"

subsection \<open>Traversal\<close>

lemma Document_Value_child_size:
  assumes "Document_Value payload path = Some (JObject m)" "Document_Value payload (path @ [FieldPart n]) = Some w"
  shows "size w < size (JObject m)"
  using assms by (auto simp: Document_Value_def path_value_append split: option.splits dest: size_member)

definition present_size :: "document \<Rightarrow> document_path \<Rightarrow> nat" where
  "present_size payload path = (case Document_Value payload path of None \<Rightarrow> 0 | Some v \<Rightarrow> Suc (Suc (size v)))"

lemma Document_Value_snoc:
  "Document_Value d (p @ [x]) = (case Document_Value d p of None \<Rightarrow> None | Some v \<Rightarrow> path_value v [x])"
  by (auto simp: Document_Value_def path_value_append split: option.splits)

lemma present_size_field:
  "present_size payload (appendField path n) < present_size payload path \<or> Document_Value payload (appendField path n) = None"
  by (auto simp: present_size_def appendField_def Document_Value_snoc
      split: option.splits json.splits dest: size_member)

lemma size_element: "i < length xs \<Longrightarrow> size (xs ! i) < size (JList xs)"
  using size_list_estimation' [of "xs ! i" xs "size (xs ! i)" size] by (simp add: less_Suc_eq_le)

lemma present_size_index:
  "i < arrayLength payload path \<Longrightarrow> present_size payload (appendIndex path (int i)) < present_size payload path"
  by (auto simp: present_size_def arrayLength_def value_array_def appendIndex_def Document_Value_snoc
      split: option.splits json.splits dest: size_element)

lemma present_size_key:
  "k \<in> set (objectKeys payload path) \<Longrightarrow> present_size payload (appendField path k) < present_size payload path"
  by (auto simp: present_size_def objectKeys_def value_object_def appendField_def Document_Value_snoc
      split: option.splits json.splits dest: size_member)

type_synonym path_with_presence = "document_path \<times> bool"

function (sequential) walk :: "schema \<Rightarrow> type_ref \<Rightarrow> document \<Rightarrow> svalue \<Rightarrow> document_path \<Rightarrow> bool \<Rightarrow> path_with_presence list" where
  "walk loaded target payload (Value KindObject lits el ty) path present =
     (if ty = target then [(path, present)] else [])
     @ (if \<not> present then []
        else case Schema_Type loaded ty of
          Inl _ \<Rightarrow> []
        | Inr current \<Rightarrow>
            concat (map (\<lambda>f. walk loaded target payload (fl_value f) (appendField path (fl_name f))
              (isPresent (Document_Value payload (appendField path (fl_name f))))) (ty_fields current)))"
| "walk loaded target payload (Value KindList lits (Some e) ty) path present =
     concat (map (\<lambda>i. walk loaded target payload e (appendIndex path (int i)) True) [0..<arrayLength payload path])"
| "walk loaded target payload (Value KindMap lits (Some e) ty) path present =
     concat (map (\<lambda>k. walk loaded target payload e (appendField path k) True) (objectKeys payload path))"
| "walk loaded target payload v path present = []"
  by pat_completeness auto
termination
proof (relation "measure (\<lambda>(loaded, target, payload, v, path, present). 2 * present_size payload path + (if present then 1 else 0))")
  fix loaded target payload lits el ty path present current f
  assume "\<not> \<not> (present :: bool)"
  then show "((loaded, target, payload, fl_value f, appendField path (fl_name f),
        isPresent (Document_Value payload (appendField path (fl_name f)))),
      loaded, target, payload, Value KindObject lits el ty, path, present)
    \<in> measure (\<lambda>(loaded, target, payload, v, path, present). 2 * present_size payload path + (if present then 1 else 0))"
    using present_size_field [of payload path "fl_name f"]
    by (auto simp: isPresent_def present_size_def [of payload "appendField path (fl_name f)"])
qed (auto dest!: present_size_index present_size_key)

definition findMessages :: "schema \<Rightarrow> stype \<Rightarrow> type_ref \<Rightarrow> document \<Rightarrow> path_with_presence list" where
  "findMessages loaded descriptor target payload =
     walk loaded target payload (Value KindObject [] None (ty_name descriptor)) []
       (isPresent (Document_Value payload []))"

definition descend_base :: "document \<Rightarrow> field_step \<Rightarrow> bool \<Rightarrow> path_with_presence \<Rightarrow> path_with_presence list" where
  "descend_base payload step last_step base =
     (let fieldPath = appendField (fst base) (jsonName step);
          present = isPresent (Document_Value payload fieldPath)
      in if last_step then [(fieldPath, present)]
         else if \<not> present then []
         else if fs_elements step
         then map (\<lambda>i. (appendIndex fieldPath (int i), True)) [0..<arrayLength payload fieldPath]
         else [(fieldPath, True)])"

definition descendField :: "document \<Rightarrow> path_with_presence list \<Rightarrow> field_step \<Rightarrow> bool \<Rightarrow> path_with_presence list" where
  "descendField payload paths step last_step = concat (map (descend_base payload step last_step) paths)"

fun descend_steps :: "document \<Rightarrow> path_with_presence list \<Rightarrow> field_step list \<Rightarrow> path_with_presence list" where
  "descend_steps payload paths [] = paths"
| "descend_steps payload paths (step # steps) =
     descend_steps payload (descendField payload paths step (steps = [])) steps"

record occurrence =
  oc_target :: target
  oc_path :: document_path

definition newOccurrence :: "target \<Rightarrow> document_path \<Rightarrow> occurrence" where
  "newOccurrence t p = \<lparr>oc_target = t, oc_path = p\<rparr>"

fun target_occurrences :: "schema \<Rightarrow> stype \<Rightarrow> document \<Rightarrow> target \<Rightarrow> occurrence list" where
  "target_occurrences loaded top_type payload (Field_Target d r steps) =
     concat (map (\<lambda>base.
         if \<not> snd base then []
         else map (\<lambda>p. newOccurrence (Field_Target d r steps) (fst p)) (descend_steps payload [base] steps))
       (findMessages loaded top_type (ty_name r) payload))"
| "target_occurrences loaded top_type payload (Message_Target n t) =
     map (\<lambda>p. newOccurrence (Message_Target n t) (fst p)) (findMessages loaded top_type (ty_name t) payload)"

definition location :: "occurrence \<Rightarrow> string" where
  "location occ = path_String (oc_path occ)"

definition before :: "occurrence \<Rightarrow> occurrence \<Rightarrow> bool" where
  "before occ other =
     (if path_depth (oc_path occ) \<noteq> path_depth (oc_path other)
      then path_depth (oc_path occ) > path_depth (oc_path other)
      else if target_priority (oc_target occ) \<noteq> target_priority (oc_target other)
      then target_priority (oc_target occ) < target_priority (oc_target other)
      else if indexedSiblingBefore (oc_path occ) (oc_path other) then True
      else if indexedSiblingBefore (oc_path other) (oc_path occ) then False
      else target_key (oc_target occ) < target_key (oc_target other))"

text \<open>
  Insertion into the reversed prefix that is already sorted: an element moves towards the front
  while it comes before its predecessor. This is how \<open>sort.SliceStable\<close> orders short slices.
\<close>

fun sift :: "('a \<Rightarrow> 'a \<Rightarrow> bool) \<Rightarrow> 'a \<Rightarrow> 'a list \<Rightarrow> 'a list" where
  "sift lt x [] = [x]"
| "sift lt x (y # ys) = (if lt x y then y # sift lt x ys else x # y # ys)"

definition stable_sort :: "('a \<Rightarrow> 'a \<Rightarrow> bool) \<Rightarrow> 'a list \<Rightarrow> 'a list" where
  "stable_sort lt xs = rev (fold (sift lt) xs [])"

definition replaced :: "occurrence list \<Rightarrow> occurrence \<Rightarrow> bool" where
  "replaced occs occ \<longleftrightarrow>
     target_kind_of (oc_target occ) = targetMessage
     \<and> list_ex (\<lambda>other. target_kind_of (oc_target other) = targetField \<and> location other = location occ) occs"

definition collectOccurrences :: "schema \<Rightarrow> stype \<Rightarrow> target list \<Rightarrow> document \<Rightarrow> occurrence list" where
  "collectOccurrences loaded top_type targets payload =
     (let occs = concat (map (target_occurrences loaded top_type payload) targets)
      in stable_sort before (filter (\<lambda>occ. \<not> replaced occs occ) occs))"

subsection \<open>Plans and runs\<close>

fun target_normalise :: "'js evaluator \<Rightarrow> target \<Rightarrow> json option \<Rightarrow> json option result \<times> 'js evaluator" where
  "target_normalise e (Field_Target d r s) v =
     (case NormaliseField e d v of
        (Inl err, e') \<Rightarrow> (Inl (wrap ''invoke field normaliser'' err), e')
      | (Inr w, e') \<Rightarrow> (Inr w, e'))"
| "target_normalise e (Message_Target n t) v =
     (case NormaliseMessage e n v of
        (Inl err, e') \<Rightarrow> (Inl (wrap ''invoke message normaliser'' err), e')
      | (Inr w, e') \<Rightarrow> (Inr w, e'))"

definition occurrence_apply :: "occurrence \<Rightarrow> document \<Rightarrow> json option \<Rightarrow> document result" where
  "occurrence_apply occ payload normalised =
     (case normalised of
        Some v \<Rightarrow>
          (case Document_Set payload (oc_path occ) v of
             Inl err \<Rightarrow> Inl (wrap ''replace normalised value'' err) | Inr d \<Rightarrow> Inr d)
      | None \<Rightarrow>
          (case Document_Delete payload (oc_path occ) of
             Inl err \<Rightarrow> Inl (wrap ''remove normalised value'' err) | Inr d \<Rightarrow> Inr d))"

fun run_occurrences :: "'js evaluator \<Rightarrow> occurrence list \<Rightarrow> document \<Rightarrow> document result \<times> 'js evaluator" where
  "run_occurrences e [] payload = (Inr payload, e)"
| "run_occurrences e (occ # occs) payload =
     (case target_normalise e (oc_target occ) (Document_Value payload (oc_path occ)) of
        (Inl err, e') \<Rightarrow> (Inl err, e')
      | (Inr normalised, e') \<Rightarrow>
          (case occurrence_apply occ payload normalised of
             Inl err \<Rightarrow> (Inl err, e')
           | Inr payload' \<Rightarrow> run_occurrences e' occs payload'))"

definition run_normalise :: "schema \<Rightarrow> 'js evaluator \<Rightarrow> stype \<Rightarrow> target list \<Rightarrow> document \<Rightarrow> document result \<times> 'js evaluator" where
  "run_normalise loaded e top_type targets payload =
     run_occurrences e (collectOccurrences loaded top_type targets payload) payload"

record plan =
  pl_loaded :: schema
  pl_resolved :: "target list"

fun plan_fields :: "schema \<Rightarrow> field_target list \<Rightarrow> target list result" where
  "plan_fields loaded [] = Inr []"
| "plan_fields loaded (d # ds) =
     (case resolveField loaded d of
        Inl err \<Rightarrow> Inl (wrap (''validate normaliser target '' @ go_quote (FieldTarget_String d)) err)
      | Inr (r, steps) \<Rightarrow>
          (case plan_fields loaded ds of Inl err \<Rightarrow> Inl err | Inr ts \<Rightarrow> Inr (Field_Target d r steps # ts)))"

fun plan_messages :: "schema \<Rightarrow> type_ref list \<Rightarrow> target list result" where
  "plan_messages loaded [] = Inr []"
| "plan_messages loaded (n # ns) =
     (case Schema_Type loaded n of
        Inl err \<Rightarrow> Inl (wrap (''validate normaliser target '' @ go_quote n) err)
      | Inr t \<Rightarrow>
          (case plan_messages loaded ns of Inl err \<Rightarrow> Inl err | Inr ts \<Rightarrow> Inr (Message_Target n t # ts)))"

definition NewPlan :: "schema \<Rightarrow> field_target list \<Rightarrow> type_ref list \<Rightarrow> plan result" where
  "NewPlan loaded declared messages =
     bind_result (plan_fields loaded declared) (\<lambda>fs.
     bind_result (plan_messages loaded messages) (\<lambda>ms.
     Inr \<lparr>pl_loaded = loaded, pl_resolved = fs @ ms\<rparr>))"

record normalised =
  nm_payload :: document
  nm_loaded :: "schema option"
  nm_root :: "svalue option"

definition Raw :: "json \<Rightarrow> normalised" where
  "Raw payload = \<lparr>nm_payload = newDocument payload, nm_loaded = None, nm_root = None\<rparr>"

definition Plan_Normalise :: "plan \<Rightarrow> 'js evaluator \<Rightarrow> stype \<Rightarrow> json \<Rightarrow> normalised result \<times> 'js evaluator" where
  "Plan_Normalise p e top_type payload =
     (case run_normalise (pl_loaded p) e top_type (pl_resolved p) (newDocument payload) of
        (Inl err, e') \<Rightarrow> (Inl err, e')
      | (Inr d, e') \<Rightarrow>
          (Inr \<lparr>nm_payload = d, nm_loaded = Some (pl_loaded p),
                nm_root = Some (Value KindObject [] None (ty_name top_type))\<rparr>, e'))"

definition Diff :: "normalised \<Rightarrow> normalised \<Rightarrow> difference list \<times> bool" where
  "Diff reference candidate =
     compare_payloads (newDiffer (nm_loaded reference) (nm_root reference))
       (Document_Export (nm_payload reference)) (Document_Export (nm_payload candidate))"

subsection \<open>The stable sort\<close>

lemma mset_sift: "mset (sift lt x ys) = add_mset x (mset ys)"
  by (induction ys) auto

lemma mset_stable_sort [simp]: "mset (stable_sort lt xs) = mset xs"
proof -
  have "mset (fold (sift lt) xs acc) = mset xs + mset acc" for acc
    by (induction xs arbitrary: acc) (auto simp: mset_sift)
  then show ?thesis by (simp add: stable_sort_def)
qed

lemma set_stable_sort [simp]: "set (stable_sort lt xs) = set xs"
  by (metis mset_stable_sort set_mset_mset)

text \<open>A sort whose comparison first compares a rank orders the result by that rank.\<close>

lemma stable_sort_rank:
  fixes rank :: "'a \<Rightarrow> 'r::linorder"
  assumes "\<And>x y. rank x < rank y \<Longrightarrow> lt x y" "\<And>x y. rank y < rank x \<Longrightarrow> \<not> lt x y"
  shows "sorted (map rank (stable_sort lt xs))"
proof -
  have sift: "sorted_wrt (\<ge>) (map rank (sift lt x ys))" if "sorted_wrt (\<ge>) (map rank ys)" for x ys
    using that
  proof (induction ys)
    case (Cons y ys)
    have "set (sift lt x ys) = insert x (set ys)"
      using mset_sift [of lt x ys] by (metis set_mset_add_mset_insert set_mset_mset)
    moreover have "rank x \<le> rank y" if "lt x y" using assms(2) that not_le by blast
    moreover have "rank y \<le> rank x" if "\<not> lt x y" using assms(1) that not_le by blast
    ultimately show ?case using Cons by (auto dest: order_trans)
  qed simp
  have "sorted_wrt (\<ge>) (map rank (fold (sift lt) xs acc))" if "sorted_wrt (\<ge>) (map rank acc)" for acc
    using that by (induction xs arbitrary: acc) (auto intro: sift)
  from this [of "[]"] show ?thesis
    by (simp add: stable_sort_def rev_map [symmetric] sorted_wrt_rev)
qed

subsection \<open>Where messages occur\<close>

text \<open>
  The declared type of every path, as a relation between a typed path and its members: the
  fields that the type of a present object declares, the elements of a list and the values of
  a map.
\<close>

inductive typed_child :: "schema \<Rightarrow> document \<Rightarrow> document_path \<times> svalue \<Rightarrow> document_path \<times> svalue \<Rightarrow> bool"
  for loaded payload where
  child_field: "Document_Value payload p \<noteq> None \<Longrightarrow> Schema_Type loaded ty = Inr t \<Longrightarrow> f \<in> set (ty_fields t) \<Longrightarrow>
     typed_child loaded payload (p, Value KindObject l e ty) (p @ [FieldPart (fl_name f)], fl_value f)"
| child_element: "Document_Value payload p = Some (JList xs) \<Longrightarrow> i < length xs \<Longrightarrow>
     typed_child loaded payload (p, Value KindList l (Some e) ty) (p @ [IndexPart (int i)], e)"
| child_key: "Document_Value payload p = Some (JObject m) \<Longrightarrow> k \<in> set (keys m) \<Longrightarrow>
     typed_child loaded payload (p, Value KindMap l (Some e) ty) (p @ [FieldPart k], e)"

inductive_cases child_objectE: "typed_child loaded payload (p, Value KindObject l e ty) (q, w)"
inductive_cases child_listE: "typed_child loaded payload (p, Value KindList l e ty) (q, w)"
inductive_cases child_mapE: "typed_child loaded payload (p, Value KindMap l e ty) (q, w)"
inductive_cases childE: "typed_child loaded payload (p, v) (q, w)"

abbreviation typed_at :: "schema \<Rightarrow> document \<Rightarrow> document_path \<times> svalue \<Rightarrow> document_path \<times> svalue \<Rightarrow> bool" where
  "typed_at loaded payload \<equiv> (typed_child loaded payload)\<^sup>*\<^sup>*"

lemma typed_at_cases:
  "typed_at l d x z \<longleftrightarrow> x = z \<or> (\<exists>y. typed_child l d x y \<and> typed_at l d y z)"
  by (metis converse_rtranclpE converse_rtranclp_into_rtranclp rtranclp.rtrancl_refl)

lemma element_present: "i < arrayLength d p \<Longrightarrow> Document_Value d (appendIndex p (int i)) \<noteq> None"
  by (auto simp: arrayLength_def value_array_def appendIndex_def Document_Value_snoc split: option.splits json.splits)

lemma key_present: "k \<in> set (objectKeys d p) \<Longrightarrow> Document_Value d (appendField p k) \<noteq> None"
  by (auto simp: objectKeys_def value_object_def appendField_def Document_Value_snoc map_of_None_keys
      split: option.splits json.splits)

lemma child_element_iff:
  "typed_child loaded d (p, Value KindList l (Some e) ty) y \<longleftrightarrow>
   (\<exists>i < arrayLength d p. y = (appendIndex p (int i), e))"
  by (cases y) (auto simp: arrayLength_def value_array_def appendIndex_def elim!: child_listE
      intro: child_element split: option.splits json.splits)

lemma child_key_iff:
  "typed_child loaded d (p, Value KindMap l (Some e) ty) y \<longleftrightarrow>
   (\<exists>k \<in> set (objectKeys d p). y = (appendField p k, e))"
  by (cases y) (auto simp: objectKeys_def value_object_def appendField_def elim!: child_mapE
      intro: child_key split: option.splits json.splits)

lemma child_field_iff:
  "typed_child loaded d (p, Value KindObject l e ty) y \<longleftrightarrow>
   Document_Value d p \<noteq> None \<and> (\<exists>t f. Schema_Type loaded ty = Inr t \<and> f \<in> set (ty_fields t)
     \<and> y = (appendField p (fl_name f), fl_value f))"
  by (cases y) (auto simp: appendField_def elim!: child_objectE intro: child_field [unfolded not_None_eq])

lemma typed_at_list:
  "typed_at l d (p, Value KindList lits (Some e) ty) (q, Value KindObject l' e' t) \<longleftrightarrow>
   (\<exists>i < arrayLength d p. typed_at l d (appendIndex p (int i), e) (q, Value KindObject l' e' t))"
  by (subst typed_at_cases) (auto simp: child_element_iff)

lemma typed_at_map:
  "typed_at l d (p, Value KindMap lits (Some e) ty) (q, Value KindObject l' e' t) \<longleftrightarrow>
   (\<exists>k \<in> set (objectKeys d p). typed_at l d (appendField p k, e) (q, Value KindObject l' e' t))"
  by (subst typed_at_cases) (auto simp: child_key_iff)

lemma typed_at_leaf:
  assumes "sv_kind v \<noteq> KindObject" "sv_kind v \<in> {KindList, KindMap} \<longrightarrow> sv_element v = None"
  shows "\<not> typed_at l d (p, v) (q, Value KindObject l' e' t)"
proof -
  have "\<not> typed_child l d (p, v) y" for y using assms by (cases y) (auto elim!: childE)
  with assms(1) show ?thesis by (subst typed_at_cases) auto
qed

lemma walk_exact:
  "present = isPresent (Document_Value d p) \<Longrightarrow>
   (q, b) \<in> set (walk loaded target d v p present) \<longleftrightarrow>
     b = isPresent (Document_Value d q) \<and> (\<exists>l e. typed_at loaded d (p, v) (q, Value KindObject l e target))"
proof (induction loaded target d v p present arbitrary: q b rule: walk.induct)
  case (1 loaded target d lits el ty p present)
  show ?case
  proof (cases "Document_Value d p = None")
    case True
    with "1.prems" show ?thesis
      by (subst typed_at_cases) (auto simp: child_field_iff isPresent_def)
  next
    case False
    with "1.prems" have present: "present = True" by (simp add: isPresent_def)
    show ?thesis
    proof (cases "Schema_Type loaded ty")
      case (Inl err)
      with present "1.prems" show ?thesis
        by (subst typed_at_cases) (auto simp: child_field_iff)
    next
      case (Inr t)
      have "(q, b) \<in> set (walk loaded target d (fl_value f) (appendField p (fl_name f))
            (isPresent (Document_Value d (appendField p (fl_name f))))) \<longleftrightarrow>
          b = isPresent (Document_Value d q)
          \<and> (\<exists>l e. typed_at loaded d (appendField p (fl_name f), fl_value f) (q, Value KindObject l e target))"
        if "f \<in> set (ty_fields t)" for f
        using "1.IH" [OF _ Inr that refl] present by simp
      with present "1.prems" Inr False show ?thesis
        by (subst typed_at_cases) (auto simp: child_field_iff, blast+)
    qed
  qed
next
  case (2 loaded target d lits e ty p present)
  have "(q, b) \<in> set (walk loaded target d e (appendIndex p (int i)) True) \<longleftrightarrow>
      b = isPresent (Document_Value d q)
      \<and> (\<exists>l e'. typed_at loaded d (appendIndex p (int i), e) (q, Value KindObject l e' target))"
    if "i < arrayLength d p" for i
    using "2.IH" [of i q b] element_present [OF that] that by (simp add: isPresent_def)
  then have "(\<exists>i < arrayLength d p. (q, b) \<in> set (walk loaded target d e (appendIndex p (int i)) True)) \<longleftrightarrow>
      b = isPresent (Document_Value d q) \<and>
      (\<exists>l e'. \<exists>i < arrayLength d p. typed_at loaded d (appendIndex p (int i), e) (q, Value KindObject l e' target))"
    by blast
  then show ?case by (simp add: typed_at_list Bex_def)
next
  case (3 loaded target d lits e ty p present)
  have "(q, b) \<in> set (walk loaded target d e (appendField p k) True) \<longleftrightarrow>
      b = isPresent (Document_Value d q)
      \<and> (\<exists>l e'. typed_at loaded d (appendField p k, e) (q, Value KindObject l e' target))"
    if "k \<in> set (objectKeys d p)" for k
    using "3.IH" [of k q b] key_present [OF that] that by (simp add: isPresent_def)
  then show ?case by (simp add: typed_at_map) blast
qed (simp_all add: typed_at_leaf)

text \<open>
  The traversal finds exactly the occurrences of a message type: every path whose declared
  type it is, with whether the payload holds a value there, and no other path.
\<close>

theorem findMessages_exact:
  "(p, present) \<in> set (findMessages loaded descriptor target payload) \<longleftrightarrow>
     present = isPresent (Document_Value payload p)
     \<and> (\<exists>l e. typed_at loaded payload ([], Value KindObject [] None (ty_name descriptor)) (p, Value KindObject l e target))"
  unfolding findMessages_def by (rule walk_exact) (rule refl)

subsection \<open>The order of normalisation\<close>

definition occurrence_rank :: "occurrence \<Rightarrow> int \<times> int" where
  "occurrence_rank occ = (- int (path_depth (oc_path occ)), target_priority (oc_target occ))"

lemma before_rank:
  "occurrence_rank x < occurrence_rank y \<Longrightarrow> before x y"
  "occurrence_rank y < occurrence_rank x \<Longrightarrow> \<not> before x y"
  by (auto simp: occurrence_rank_def before_def less_prod_def')

lemma location_inject: "location a = location b \<longleftrightarrow> oc_path a = oc_path b"
  using parts_inject by (auto simp: location_def path_String_def)

text \<open>
  Normalisation is planned before the payload changes and visits leaves first: an occurrence
  never precedes a deeper one, field normalisers precede message normalisers of the same depth,
  and exactly the message occurrences at a location that a field normaliser claims are dropped.
\<close>

theorem collectOccurrences_order:
  fixes loaded top_type targets payload
  defines "occs \<equiv> concat (map (target_occurrences loaded top_type payload) targets)"
  shows "sorted_wrt (\<lambda>x y. path_depth (oc_path x) > path_depth (oc_path y)
        \<or> (path_depth (oc_path x) = path_depth (oc_path y)
           \<and> target_priority (oc_target x) \<le> target_priority (oc_target y)))
      (collectOccurrences loaded top_type targets payload)
    \<and> mset (collectOccurrences loaded top_type targets payload)
      = mset (filter (\<lambda>x. \<not> (target_kind_of (oc_target x) = targetMessage
          \<and> (\<exists>y \<in> set occs. target_kind_of (oc_target y) = targetField \<and> oc_path y = oc_path x))) occs)"
proof
  have "sorted (map occurrence_rank (collectOccurrences loaded top_type targets payload))"
    unfolding collectOccurrences_def Let_def by (rule stable_sort_rank) (auto intro: before_rank dest: before_rank)
  then show "sorted_wrt (\<lambda>x y. path_depth (oc_path x) > path_depth (oc_path y)
        \<or> (path_depth (oc_path x) = path_depth (oc_path y)
           \<and> target_priority (oc_target x) \<le> target_priority (oc_target y)))
      (collectOccurrences loaded top_type targets payload)"
    unfolding sorted_wrt_map by (rule sorted_wrt_mono_rel [rotated]) (auto simp: occurrence_rank_def less_eq_prod_def)
  have "replaced occs x \<longleftrightarrow> target_kind_of (oc_target x) = targetMessage
      \<and> (\<exists>y \<in> set occs. target_kind_of (oc_target y) = targetField \<and> oc_path y = oc_path x)" for x
    by (auto simp: replaced_def list_ex_iff location_inject)
  then show "mset (collectOccurrences loaded top_type targets payload)
      = mset (filter (\<lambda>x. \<not> (target_kind_of (oc_target x) = targetMessage
          \<and> (\<exists>y \<in> set occs. target_kind_of (oc_target y) = targetField \<and> oc_path y = oc_path x))) occs)"
    unfolding collectOccurrences_def Let_def occs_def by simp
qed

subsection \<open>Well-formed results\<close>

lemma json_ok_path_set:
  assumes "path_set p v w = Inr v'" "json_ok v" "json_ok w"
  shows "json_ok v'"
proof -
  obtain parent where parent: "path_value v (butlast p) = Some parent"
    using assms(1) by (auto simp: path_set_def split: option.splits)
  have "json_ok parent" using json_ok_path_value [OF assms(2) parent] .
  then show ?thesis
    using assms parent
    by (auto simp: path_set_def simp del: json_ok.simps split: option.splits json.splits if_splits
        intro!: json_ok_replace_at json_ok_update json_ok_put)
qed

lemma json_ok_remove: "json_ok (JObject m) \<Longrightarrow> json_ok (JObject (map_del n m))"
  by (auto simp: list_all_iff map_del_def ordered_map_def keys_def filter_map o_def
      intro: sorted_wrt_map [THEN iffD2] sorted_wrt_filter dest: sorted_wrt_map [THEN iffD1])

lemma json_ok_delete: "deleteDocumentValue v p = Inr v' \<Longrightarrow> json_ok v \<Longrightarrow> json_ok v'"
proof (induction v p arbitrary: v' rule: deleteDocumentValue.induct)
  case (2 v i ps)
  show ?case
  proof (cases v)
    case (JList xs)
    show ?thesis
    proof (cases "i < 0 \<or> i \<ge> int (length xs)")
      case False
      with "2.prems" JList have "json_ok (xs ! nat i)" by auto
      with False "2.prems" JList "2.IH" [OF JList False] show ?thesis
        by (auto simp: list_all_iff split: if_splits sum.splits
            dest!: in_set_takeD in_set_dropD set_update_subset_insert [THEN subsetD])
    qed (use "2.prems" JList in auto)
  qed (use "2.prems" in auto)
next
  case (4 v n ps)
  show ?case
  proof (cases v)
    case (JObject m)
    show ?thesis
    proof (cases "map_of m n")
      case (Some child)
      have "json_ok child" using "4.prems"(2) JObject Some json_ok_member by auto
      with Some "4.prems" JObject "4.IH" [OF JObject Some] show ?thesis
        by (auto simp del: json_ok.simps split: if_splits sum.splits intro!: json_ok_remove json_ok_put)
    qed (use "4.prems" JObject in auto)
  qed (use "4.prems" in auto)
qed auto

lemma occurrence_apply_ok:
  assumes "occurrence_apply occ d v = Inr d'" "document_ok d" "option_ok v"
  shows "document_ok d'"
  using assms
  by (auto simp: occurrence_apply_def Document_Set_def Document_Delete_def document_ok_def
      split: option.splits sum.splits if_splits dest: json_ok_path_set json_ok_delete)

text \<open>Script results are decoded from JSON text, so they are well-formed payloads.\<close>

definition callable_ok :: "'js callable \<Rightarrow> bool" where
  "callable_ok f \<longleftrightarrow> (\<forall>js v w js'. f js v = (Some (JsJson w), js') \<longrightarrow> json_ok w)"

definition evaluator_ok :: "'js evaluator \<Rightarrow> bool" where
  "evaluator_ok e \<longleftrightarrow> (\<forall>(t, f) \<in> set (ev_fields e). callable_ok f) \<and> (\<forall>(t, f) \<in> set (ev_messages e). callable_ok f)"

lemma ev_normalise_ok:
  "ev_normalise e f v = (Inr w, e') \<Longrightarrow> callable_ok f \<Longrightarrow> option_ok w"
  by (auto simp: ev_normalise_def callable_ok_def split: prod.splits option.splits js_value.splits)

lemma ev_normalise_keeps: "ev_normalise e f v = (r, e') \<Longrightarrow> ev_fields e' = ev_fields e \<and> ev_messages e' = ev_messages e"
  by (auto simp: ev_normalise_def split: prod.splits)

lemma target_normalise_ok:
  assumes "target_normalise e t v = (r, e')" "evaluator_ok e"
  shows "evaluator_ok e' \<and> (\<forall>w. r = Inr w \<longrightarrow> option_ok w)"
proof (cases t)
  case (Field_Target d s steps)
  with assms show ?thesis
    by (auto simp: NormaliseField_def evaluator_ok_def split: option.splits prod.splits sum.splits
        dest!: map_of_SomeD dest: ev_normalise_keeps ev_normalise_ok)
next
  case (Message_Target n s)
  with assms show ?thesis
    by (auto simp: NormaliseMessage_def evaluator_ok_def split: option.splits prod.splits sum.splits
        dest!: map_of_SomeD dest: ev_normalise_keeps ev_normalise_ok)
qed

lemma run_occurrences_ok:
  "run_occurrences e occs d = (Inr d', e') \<Longrightarrow> evaluator_ok e \<Longrightarrow> document_ok d \<Longrightarrow> document_ok d'"
proof (induction occs arbitrary: e d)
  case (Cons occ occs)
  obtain r e1 where n: "target_normalise e (oc_target occ) (Document_Value d (oc_path occ)) = (r, e1)"
    by (cases "target_normalise e (oc_target occ) (Document_Value d (oc_path occ))")
  with Cons.prems(1) obtain w d1 where w: "r = Inr w" "occurrence_apply occ d w = Inr d1"
    "run_occurrences e1 occs d1 = (Inr d', e')"
    by (auto split: sum.splits)
  with target_normalise_ok [OF n Cons.prems(2)] Cons show ?case
    using occurrence_apply_ok by blast
qed simp

lemma Plan_Normalise_ok:
  "Plan_Normalise p e t v = (Inr n, e') \<Longrightarrow> evaluator_ok e \<Longrightarrow> json_ok v \<Longrightarrow>
   option_ok (Document_Export (nm_payload n)) \<and> nm_loaded n = Some (pl_loaded p)
   \<and> nm_root n = Some (Value KindObject [] None (ty_name t))"
  using run_occurrences_ok [of e _ "newDocument v"]
  by (fastforce simp: Plan_Normalise_def run_normalise_def document_ok_def newDocument_def Document_Export_def
      split: prod.splits sum.splits)

lemma Raw_ok: "json_ok v \<Longrightarrow> option_ok (Document_Export (nm_payload (Raw v)))"
  by (simp add: Raw_def Document_Export_def newDocument_def)

end
