(* ===== verification/Comparison_Scripts.thy ===== *)
theory Comparison_Scripts
  imports Payload_Normaliser
begin

text \<open>
  \<open>internal/comparison/scripts.go\<close>: one immutable set of normaliser scripts. It selects the rule
  that decides how a response is compared, normalises payloads and responses, and compares or
  hashes the results.

  Creating an evaluator runs third-party code, so what it gives is an argument of each operation:
  the evaluator with the registrations it produced, or the error. A timeout is an error of a
  script function.
\<close>

subsection \<open>Programs\<close>

record endpoint =
  ep_direction :: direction
  ep_protocol :: protocol
  ep_pattern :: string
  ep_type :: type_ref

record registrations =
  rg_endpoints :: "endpoint list"
  rg_rules :: "rule list"
  rg_fields :: "field_target list"
  rg_messages :: "type_ref list"

record program =
  pg_schema :: schema
  pg_endpoints :: "endpoint list"
  pg_rules :: "rule list"
  pg_fields :: "field_target list"
  pg_messages :: "type_ref list"

type_synonym 'js created = "('js evaluator \<times> registrations) result"

definition Program_Endpoints :: "program \<Rightarrow> direction \<Rightarrow> endpoint list" where
  "Program_Endpoints p direction = filter (\<lambda>e. ep_direction e = direction) (pg_endpoints p)"

definition NewEvaluator :: "program \<Rightarrow> 'js created \<Rightarrow> 'js evaluator result" where
  "NewEvaluator p created =
     bind_result created (\<lambda>(e, registered).
     if rg_endpoints registered \<noteq> pg_endpoints p \<or> rg_rules registered \<noteq> pg_rules p
        \<or> rg_fields registered \<noteq> pg_fields p \<or> rg_messages registered \<noteq> pg_messages p
     then Inl ''comparison script registrations changed after startup''
     else Inr e)"

record scripts =
  st_program :: program
  st_plan :: plan

definition Scripts_Endpoints :: "program \<Rightarrow> endpoint list" where
  "Scripts_Endpoints p = Program_Endpoints p Ingress @ Program_Endpoints p Egress"

fun resolve_endpoints :: "schema \<Rightarrow> endpoint list \<Rightarrow> unit result" where
  "resolve_endpoints loaded [] = Inr ()"
| "resolve_endpoints loaded (e # es) =
     (case Schema_Type loaded (ep_type e) of
        Inl err \<Rightarrow> Inl (wrap (''resolve endpoint '' @ go_quote (ep_pattern e)) err)
      | Inr _ \<Rightarrow> resolve_endpoints loaded es)"

fun resolve_rules :: "schema \<Rightarrow> rule list \<Rightarrow> unit result" where
  "resolve_rules loaded [] = Inr ()"
| "resolve_rules loaded (r # rs) =
     (case ru_action r of
        ActionMatch (Some name) normalises \<Rightarrow>
          (case Schema_Type loaded name of
             Inl err \<Rightarrow> Inl (wrap (''resolve rule '' @ Rule_String r) err)
           | Inr _ \<Rightarrow> resolve_rules loaded rs)
      | _ \<Rightarrow> resolve_rules loaded rs)"

definition New_Scripts :: "program \<Rightarrow> scripts result" where
  "New_Scripts p =
     bind_result (resolve_endpoints (pg_schema p) (Scripts_Endpoints p)) (\<lambda>_.
     bind_result (resolve_rules (pg_schema p) (pg_rules p)) (\<lambda>_.
     case NewPlan (pg_schema p) (pg_fields p) (pg_messages p) of
       Inl err \<Rightarrow> Inl (wrap ''prepare comparison plan'' err)
     | Inr pl \<Rightarrow> Inr \<lparr>st_program = p, st_plan = pl\<rparr>))"

subsection \<open>Selecting a rule\<close>

text \<open>The evaluator that the functions of one selection share, once one of them has needed it.\<close>

type_synonym 'js shared = "'js evaluator option"

definition script :: "program \<Rightarrow> 'js created \<Rightarrow> 'js shared \<Rightarrow> 'js evaluator result" where
  "script p created shared =
     (case shared of
        Some e \<Rightarrow> Inr e
      | None \<Rightarrow>
          (case NewEvaluator p created of
             Inl err \<Rightarrow> Inl (wrap ''initialise JavaScript evaluator'' err)
           | Inr e \<Rightarrow> Inr e))"

type_synonym 'js selector = "'js shared \<Rightarrow> bool result \<times> 'js shared"

definition call_script :: "program \<Rightarrow> 'js created \<Rightarrow> ('js evaluator \<Rightarrow> bool result \<times> 'js evaluator) \<Rightarrow> 'js selector" where
  "call_script p created f shared =
     (case script p created shared of
        Inl err \<Rightarrow> (Inl err, shared)
      | Inr e \<Rightarrow> (case f e of (r, e') \<Rightarrow> (r, Some e')))"

text \<open>The early return of every test: an error or a rejection ends the selection.\<close>

definition and_then :: "'js selector \<Rightarrow> 'js selector \<Rightarrow> 'js selector" where
  "and_then f g shared =
     (case f shared of
        (Inl err, shared') \<Rightarrow> (Inl err, shared')
      | (Inr False, shared') \<Rightarrow> (Inr False, shared')
      | (Inr True, shared') \<Rightarrow> g shared')"

definition accept :: "'js selector" where
  "accept shared = (Inr True, shared)"

definition selectsRequest :: "program \<Rightarrow> 'js created \<Rightarrow> rule \<Rightarrow> http_request \<Rightarrow> 'js selector" where
  "selectsRequest p created r request =
     (case ru_request r of
        RequestScript \<Rightarrow> call_script p created (\<lambda>e. SelectsRequest e r request)
      | RequestPattern _ \<Rightarrow> accept)"

fun selectsHeaders :: "program \<Rightarrow> 'js created \<Rightarrow> header_selector list \<Rightarrow> (string \<Rightarrow> string option)
    \<Rightarrow> ('js evaluator \<Rightarrow> string \<Rightarrow> string option \<Rightarrow> bool result \<times> 'js evaluator) \<Rightarrow> 'js selector" where
  "selectsHeaders p created [] lookup evaluate = accept"
| "selectsHeaders p created (HeaderValue name expected # hs) lookup evaluate =
     and_then (\<lambda>shared. (Inr (HeaderValue_Selects expected (lookup name)), shared))
       (selectsHeaders p created hs lookup evaluate)"
| "selectsHeaders p created (HeaderScript name # hs) lookup evaluate =
     and_then (call_script p created (\<lambda>e. evaluate e name (lookup name)))
       (selectsHeaders p created hs lookup evaluate)"

definition selectsStatus :: "program \<Rightarrow> 'js created \<Rightarrow> rule \<Rightarrow> int \<Rightarrow> 'js selector" where
  "selectsStatus p created r status =
     (case ru_status r of
        StatusAny \<Rightarrow> accept
      | StatusCodes codes \<Rightarrow> (\<lambda>shared. (Inr (status \<in> set codes), shared))
      | StatusScript \<Rightarrow> call_script p created (\<lambda>e. SelectsStatus e r status))"

definition selects :: "program \<Rightarrow> 'js created \<Rightarrow> rule \<Rightarrow> http_request \<Rightarrow> http_response \<Rightarrow> 'js selector" where
  "selects p created r request response =
     and_then (selectsRequest p created r request)
     (and_then (selectsHeaders p created (ru_request_headers r) (Request_HeaderValue request)
        (\<lambda>e. SelectsRequestHeader e r))
     (and_then (selectsStatus p created r (hs_status response))
       (selectsHeaders p created (ru_response_headers r) (Response_HeaderValue response)
        (\<lambda>e. SelectsResponseHeader e r))))"

fun select_rule :: "program \<Rightarrow> 'js created \<Rightarrow> rule list \<Rightarrow> http_request \<Rightarrow> http_response
    \<Rightarrow> 'js shared \<Rightarrow> rule option result \<times> 'js shared" where
  "select_rule p created [] request response shared = (Inr None, shared)"
| "select_rule p created (r # rs) request response shared =
     (case selects p created r request response shared of
        (Inl err, shared') \<Rightarrow> (Inl err, shared')
      | (Inr True, shared') \<Rightarrow> (Inr (Some r), shared')
      | (Inr False, shared') \<Rightarrow> select_rule p created rs request response shared')"

definition SelectRule :: "scripts \<Rightarrow> 'js created \<Rightarrow> rule list \<Rightarrow> http_request \<Rightarrow> http_response \<Rightarrow> rule option result" where
  "SelectRule s created rules request response =
     fst (select_rule (st_program s) created rules request response None)"

subsection \<open>Normalising a response\<close>

text \<open>
  Go visits the members of the result in no particular order, which only decides which of
  several errors is reported; the model visits them in key order.
\<close>

fun normalised_members :: "(string \<times> json) list \<Rightarrow> int option \<Rightarrow> json option \<Rightarrow> (int option \<times> json option) result" where
  "normalised_members [] status body = Inr (status, body)"
| "normalised_members ((key, v) # members) status body =
     (if key = ''status'' then
        (case v of
           JNumber code \<Rightarrow>
             (if of_int \<lfloor>code\<rfloor> \<noteq> code \<or> code < 100 \<or> code > 599
              then Inl ''normalised status must be an integer from 100 to 599''
              else normalised_members members (Some \<lfloor>code\<rfloor>) body)
         | _ \<Rightarrow> Inl ''normalised status must be an integer from 100 to 599'')
      else if key = ''body'' then normalised_members members status (Some v)
      else Inl (''normalised response has an unknown member '' @ go_quote key))"

fun is_text :: "json \<Rightarrow> bool" where
  "is_text (JString _) = True"
| "is_text _ = False"

definition normalisedResponse :: "scripts \<Rightarrow> type_ref option \<Rightarrow> json option \<Rightarrow> (int option \<times> json option) result" where
  "normalisedResponse s match_type outcome =
     (case outcome of
        Some (JObject response) \<Rightarrow>
          bind_result (normalised_members response None None) (\<lambda>(status, body).
          case body of
            None \<Rightarrow> Inr (status, body)
          | Some v \<Rightarrow>
              (case match_type of
                 None \<Rightarrow> if is_text v then Inr (status, body) else Inl ''normalised Text body must be a string''
               | Some name \<Rightarrow>
                   (case Validate (pl_loaded (st_plan s)) name v of
                      Some err \<Rightarrow> Inl (wrap ''validate normalised body'' err)
                    | None \<Rightarrow> Inr (status, body))))
      | _ \<Rightarrow> Inl ''response normaliser must return an object'')"

definition NormaliseResponse :: "scripts \<Rightarrow> 'js created \<Rightarrow> rule \<Rightarrow> int \<Rightarrow> json option \<Rightarrow> (int option \<times> json option) result" where
  "NormaliseResponse s created r status body =
     (case ru_action r of
        ActionMatch match_type True \<Rightarrow>
          (case NewEvaluator (st_program s) created of
             Inl err \<Rightarrow> Inl (wrap ''initialise JavaScript evaluator'' err)
           | Inr e \<Rightarrow>
               (let argument = (case body of Some v \<Rightarrow> [(''body'', v)] | None \<Rightarrow> [])
                      @ [(''status'', JNumber (of_int status))]
                in case fst (ev_NormaliseResponse e r (JObject argument)) of
                     Inl err \<Rightarrow> Inl err
                   | Inr outcome \<Rightarrow> normalisedResponse s match_type outcome))
      | _ \<Rightarrow> Inr (Some status, body))"

subsection \<open>Comparing and hashing\<close>

definition scripts_normalise :: "scripts \<Rightarrow> 'js created \<Rightarrow> type_ref option \<Rightarrow> json \<Rightarrow> normalised result" where
  "scripts_normalise s created typeName payload =
     (case typeName of
        None \<Rightarrow> Inr (Raw payload)
      | Some name \<Rightarrow>
          bind_result (Schema_Type (pl_loaded (st_plan s)) name) (\<lambda>top_type.
          case NewEvaluator (st_program s) created of
            Inl err \<Rightarrow> Inl (wrap ''initialise JavaScript evaluator'' err)
          | Inr e \<Rightarrow> fst (Plan_Normalise (st_plan s) e top_type payload)))"

definition Compare :: "scripts \<Rightarrow> 'js created \<Rightarrow> 'js created \<Rightarrow> type_ref option \<Rightarrow> json \<Rightarrow> json
    \<Rightarrow> (difference list \<times> bool) result" where
  "Compare s created created' typeName reference candidate =
     (case scripts_normalise s created typeName reference of
        Inl err \<Rightarrow> Inl (wrap ''normalise reference'' err)
      | Inr r \<Rightarrow>
          (case scripts_normalise s created' typeName candidate of
             Inl err \<Rightarrow> Inl (wrap ''normalise candidate'' err)
           | Inr c \<Rightarrow> Inr (Diff r c)))"

text \<open>
  \<open>json.Marshal\<close> on a decoded payload, with the text of numbers as an argument. Objects keep
  their keys in order.
\<close>

fun json_marshal :: "(rat \<Rightarrow> string) \<Rightarrow> json \<Rightarrow> string" where
  "json_marshal num JNull = ''null''"
| "json_marshal num (JBool b) = (if b then ''true'' else ''false'')"
| "json_marshal num (JNumber x) = num x"
| "json_marshal num (JString s) = json_quote s"
| "json_marshal num (JList xs) = ''['' @ join '','' (map (json_marshal num) xs) @ '']''"
| "json_marshal num (JObject m) = ''{'' @ join '','' (map (\<lambda>(k, v). json_quote k @ '':'' @ json_marshal num v) m) @ ''}''"

definition CanonicalJSON :: "(rat \<Rightarrow> string) \<Rightarrow> normalised \<Rightarrow> string" where
  "CanonicalJSON num n =
     (case Document_Export (nm_payload n) of None \<Rightarrow> ''null'' | Some v \<Rightarrow> json_marshal num v)"

definition hash_input :: "string \<Rightarrow> string \<Rightarrow> string" where
  "hash_input identity canonical = identity @ [CHR 0x00] @ canonical"

definition Hash :: "(rat \<Rightarrow> string) \<Rightarrow> (string \<Rightarrow> 'h) \<Rightarrow> scripts \<Rightarrow> 'js created \<Rightarrow> string \<Rightarrow> type_ref option
    \<Rightarrow> json \<Rightarrow> 'h result" where
  "Hash num sha256 s created identity typeName payload =
     (case scripts_normalise s created typeName payload of
        Inl err \<Rightarrow> Inl (wrap ''normalise payload'' err)
      | Inr n \<Rightarrow> Inr (sha256 (hash_input identity (CanonicalJSON num n))))"

subsection \<open>Rules without script functions\<close>

definition static_headers :: "header_selector list \<Rightarrow> (string \<Rightarrow> string option) \<Rightarrow> bool" where
  "static_headers hs lookup \<longleftrightarrow> (\<forall>n v. HeaderValue n v \<in> set hs \<longrightarrow> lookup n = Some v)"

definition script_free :: "rule \<Rightarrow> bool" where
  "script_free r \<longleftrightarrow> ru_request r \<noteq> RequestScript \<and> ru_status r \<noteq> StatusScript
     \<and> list_all (\<lambda>h. \<not> is_script h) (ru_request_headers r @ ru_response_headers r)"

definition static_selects :: "rule \<Rightarrow> http_request \<Rightarrow> http_response \<Rightarrow> bool" where
  "static_selects r request response \<longleftrightarrow>
     static_headers (ru_request_headers r) (Request_HeaderValue request)
     \<and> (case ru_status r of StatusCodes codes \<Rightarrow> hs_status response \<in> set codes | _ \<Rightarrow> True)
     \<and> static_headers (ru_response_headers r) (Response_HeaderValue response)"

lemma selectsHeaders_static:
  "list_all (\<lambda>h. \<not> is_script h) hs \<Longrightarrow>
   selectsHeaders p created hs lookup ev shared = (Inr (static_headers hs lookup), shared)"
proof (induction hs)
  case (Cons h hs)
  then obtain n v where "h = HeaderValue n v" by (cases h) auto
  with Cons show ?case
    by (auto simp: and_then_def static_headers_def HeaderValue_Selects_def split: option.splits bool.splits)
qed (simp add: accept_def static_headers_def)

lemma selects_static:
  assumes "script_free r"
  shows "selects p created r request response shared = (Inr (static_selects r request response), shared)"
proof -
  have "selectsRequest p created r request shared = (Inr True, shared)"
    using assms by (cases "ru_request r") (auto simp: selectsRequest_def accept_def script_free_def)
  moreover have "selectsStatus p created r (hs_status response) shared
      = (Inr (case ru_status r of StatusCodes codes \<Rightarrow> hs_status response \<in> set codes | _ \<Rightarrow> True), shared)"
    using assms by (cases "ru_status r") (auto simp: selectsStatus_def accept_def script_free_def)
  ultimately show ?thesis
    using assms unfolding script_free_def
    by (auto simp: selects_def static_selects_def and_then_def selectsHeaders_static split: bool.splits)
qed

text \<open>
  Rules apply in declaration order: when no rule has a script function, the selection is the
  first rule whose header values and status accept the response. No evaluator is created, so a
  script that cannot start does not matter.
\<close>

theorem SelectRule_first:
  assumes "list_all script_free rules"
  shows "SelectRule s created rules request response
    = Inr (find (\<lambda>r. static_selects r request response) rules)"
proof -
  have "fst (select_rule p created rules request response shared)
      = Inr (find (\<lambda>r. static_selects r request response) rules)" for p shared
    using assms by (induction rules) (auto simp: selects_static split: bool.splits)
  then show ?thesis by (simp add: SelectRule_def)
qed

text \<open>Scripts that register nothing, and rules for the witnesses.\<close>

definition empty_program :: program where
  "empty_program = \<lparr>pg_schema = \<lparr>sc_types = [], sc_operations = []\<rparr>, pg_endpoints = [], pg_rules = [],
     pg_fields = [], pg_messages = []\<rparr>"

definition empty_scripts :: scripts where
  "empty_scripts = \<lparr>st_program = empty_program, st_plan = \<lparr>pl_loaded = \<lparr>sc_types = [], sc_operations = []\<rparr>, pl_resolved = []\<rparr>\<rparr>"

definition any_rule :: rule where
  "any_rule = newRule 0 ProtocolHTTP (RequestPattern ''/'') StatusAny [HeaderValue ''Accept'' ''text''] [] ActionIgnore"

definition missing_rule :: rule where
  "missing_rule = newRule 1 ProtocolHTTP (RequestPattern ''/'') (StatusCodes [404]) [] [] ActionIgnore"

definition text_request :: http_request where
  "text_request = \<lparr>hq_method = ''GET'', hq_path = ''/'', hq_header = [(''Accept'', [''text''])]\<rparr>"

lemma text_request_accept: "Request_HeaderValue text_request ''Accept'' = Some ''text''"
  by (simp add: Request_HeaderValue_def text_request_def joinedHeader_def header_values_def canonical_key_def
      token_char_def upper_char_def lower_char_def is_digit_def)

text \<open>
  Two rules with the same selectors select exactly the same responses, so the later of the two
  could never apply.
\<close>

theorem sameSelectors_sound:
  assumes "sameSelectors r r'"
  shows "selects p created r request response shared = selects p created r' request response shared"
proof -
  have "script_free r" "script_free r'" using assms unfolding sameSelectors_iff script_free_def by auto
  moreover have "static_selects r request response = static_selects r' request response"
    using assms unfolding sameSelectors_iff static_selects_def by simp
  ultimately show ?thesis by (simp add: selects_static)
qed

text \<open>
  A rule that claims to select every response does, for each request with the header values
  that it names: servers may decide before the response exists.
\<close>

theorem SelectsEveryResponse_sound:
  assumes "SelectsEveryResponse r" "SelectsRequestHeaders r (hq_header request)" "ru_request r \<noteq> RequestScript"
  shows "selects p created r request response shared = (Inr True, shared)"
proof -
  have "script_free r"
    using assms by (auto simp: SelectsEveryResponse_def script_free_def list_ex_iff list_all_iff)
  moreover have "static_selects r request response"
    using assms by (auto simp: static_selects_def static_headers_def SelectsEveryResponse_def SelectsRequestHeaders_def
        list_ex_iff Request_HeaderValue_def HeaderValue_Selects_def split: header_selector.splits option.splits)
  ultimately show ?thesis by (simp add: selects_static)
qed

subsection \<open>What a comparison means\<close>

definition created_ok :: "'js created \<Rightarrow> bool" where
  "created_ok created \<longleftrightarrow> (\<forall>e r. created = Inr (e, r) \<longrightarrow> evaluator_ok e)"

lemma NewEvaluator_ok: "NewEvaluator p created = Inr e \<Longrightarrow> created_ok created \<Longrightarrow> evaluator_ok e"
  by (auto simp: NewEvaluator_def created_ok_def split: prod.splits if_splits)

lemma scripts_normalise_ok:
  assumes "scripts_normalise s created t v = Inr n" "created_ok created" "json_ok v"
  shows "option_ok (Document_Export (nm_payload n))"
proof (cases t)
  case None
  with assms show ?thesis by (auto simp: scripts_normalise_def Raw_ok)
next
  case (Some name)
  with assms(1) obtain top_type e where e: "NewEvaluator (st_program s) created = Inr e"
    "fst (Plan_Normalise (st_plan s) e top_type v) = Inr n"
    by (cases "NewEvaluator (st_program s) created") (auto simp: scripts_normalise_def)
  then show ?thesis
    using Plan_Normalise_ok [OF _ NewEvaluator_ok [OF e(1) assms(2)] assms(3)]
    by (cases "Plan_Normalise (st_plan s) e top_type v") auto
qed

text \<open>
  C33. A comparison reports no difference exactly when both payloads normalise to the same content,
  whatever the scripts do, as long as their results are JSON.
\<close>

theorem Compare_iff_same_content:
  assumes "Compare s created created' t reference candidate = Inr (differences, truncated)"
    and "created_ok created" "created_ok created'" "json_ok reference" "json_ok candidate"
  shows "differences = [] \<longleftrightarrow>
    (\<exists>r c. scripts_normalise s created t reference = Inr r \<and> scripts_normalise s created' t candidate = Inr c
       \<and> Document_Export (nm_payload r) = Document_Export (nm_payload c))"
proof -
  obtain r c where rc: "scripts_normalise s created t reference = Inr r" "scripts_normalise s created' t candidate = Inr c"
    "(differences, truncated) = Diff r c"
    using assms(1) by (auto simp: Compare_def split: sum.splits)
  have ok: "option_ok (Document_Export (nm_payload r))" "option_ok (Document_Export (nm_payload c))"
    using scripts_normalise_ok rc assms by blast+
  have "differences = [] \<longleftrightarrow> Document_Export (nm_payload r) = Document_Export (nm_payload c)"
    using compare_empty_iff [OF ok] rc(3) unfolding Diff_def by (metis fst_conv)
  with rc show ?thesis by auto
qed

theorem Compare_iff_same_content_witness:
  "Compare empty_scripts (Inl [] :: unit created) (Inl []) None (JBool True) (JBool True) = Inr ([], False)"
proof -
  have "Compare empty_scripts (Inl [] :: unit created) (Inl []) None (JBool True) (JBool True)
      = Inr (Diff (Raw (JBool True)) (Raw (JBool True)))"
    by (simp add: Compare_def scripts_normalise_def)
  moreover obtain ds t where d: "Diff (Raw (JBool True)) (Raw (JBool True)) = (ds, t)" by fastforce
  ultimately have "ds = []"
    using Compare_iff_same_content [of empty_scripts "Inl [] :: unit created" "Inl []" None "JBool True" "JBool True" ds t]
    by (auto simp: created_ok_def scripts_normalise_def)
  moreover have "\<not> t"
    using d by (auto simp: Diff_def compare_payloads_def newDiffer_def Raw_def Document_Export_def newDocument_def
        maxDifferences_def)
  ultimately show ?thesis using d by (simp add: Compare_def scripts_normalise_def)
qed

text \<open>
  Equal payloads never diverge: when both evaluators start alike, comparing a payload with
  itself fails or reports no difference.
\<close>

theorem Compare_same_payload:
  assumes "created_ok created" "json_ok payload"
  shows "(\<exists>err. Compare s created created t payload payload = Inl err)
    \<or> Compare s created created t payload payload = Inr ([], False)"
proof (cases "scripts_normalise s created t payload")
  case (Inr n)
  have ok: "option_ok (Document_Export (nm_payload n))"
    using scripts_normalise_ok [OF Inr assms] .
  have "Diff n n = ([], False)"
    unfolding Diff_def using compare_empty_iff [OF ok ok] compare_truncated [OF ok ok]
    by (metis prod.collapse)
  with Inr show ?thesis by (simp add: Compare_def)
qed (simp add: Compare_def)

subsection \<open>Checked results\<close>

lemma normalised_members_status:
  "normalised_members ms st body = Inr (Some code, b) \<Longrightarrow> (\<forall>c. st = Some c \<longrightarrow> 100 \<le> c \<and> c \<le> 599) \<Longrightarrow>
   100 \<le> code \<and> code \<le> 599"
proof (induction ms st body rule: normalised_members.induct)
  case (2 key v members status body)
  then show ?case
    by (auto split: if_splits json.splits)
qed auto

text \<open>
  C34. A response normaliser cannot smuggle in other content: what it returns has a status from 100
  to 599, if any, and a body of the rule's own type, or a string for text.
\<close>

theorem NormaliseResponse_checked:
  assumes "NormaliseResponse s created r status body = Inr (status', body')" "ru_action r = ActionMatch t True"
  shows "(\<forall>code. status' = Some code \<longrightarrow> 100 \<le> code \<and> code \<le> 599)
    \<and> (\<forall>v. body' = Some v \<longrightarrow>
        (case t of None \<Rightarrow> is_text v | Some name \<Rightarrow> Validate (pl_loaded (st_plan s)) name v = None))"
proof -
  obtain response where n: "normalisedResponse s t (Some (JObject response)) = Inr (status', body')"
    using assms by (auto simp: NormaliseResponse_def normalisedResponse_def Let_def split: sum.splits option.splits json.splits)
  then obtain st b where st: "normalised_members response None None = Inr (st, b)"
    by (cases "normalised_members response None None") (auto simp: normalisedResponse_def)
  with n have m: "normalised_members response None None = Inr (status', body')"
    by (auto simp: normalisedResponse_def split: option.splits if_splits)
  have "100 \<le> code \<and> code \<le> 599" if "status' = Some code" for code
    using normalised_members_status [OF m [unfolded that]] by simp
  with n m show ?thesis
    by (auto simp: normalisedResponse_def split: option.splits if_splits)
qed

theorem NormaliseResponse_checked_witness:
  "let r = any_rule\<lparr>ru_action := ActionMatch None True\<rparr>;
       f = (\<lambda>js v. (Some (JsJson (JObject [(''body'', JString ''x''), (''status'', JNumber 204)])), js));
       e = \<lparr>ev_runtime = (), ev_fields = [], ev_messages = [], ev_callbacks = [no_callbacks\<lparr>rc_normalise := Some f\<rparr>]\<rparr>
   in NormaliseResponse empty_scripts (Inr (e, \<lparr>rg_endpoints = [], rg_rules = [], rg_fields = [], rg_messages = []\<rparr>)) r 200 None
        = Inr (Some 204, Some (JString ''x'')) \<and> is_text (JString ''x'')"
proof -
  let ?r = "any_rule\<lparr>ru_action := ActionMatch None True\<rparr>"
  let ?f = "\<lambda>js v. (Some (JsJson (JObject [(''body'', JString ''x''), (''status'', JNumber 204)])), js)"
  let ?e = "\<lparr>ev_runtime = (), ev_fields = [], ev_messages = [], ev_callbacks = [no_callbacks\<lparr>rc_normalise := Some ?f\<rparr>]\<rparr>"
  have run: "NormaliseResponse empty_scripts (Inr (?e, \<lparr>rg_endpoints = [], rg_rules = [], rg_fields = [], rg_messages = []\<rparr>)) ?r 200 None
      = Inr (Some 204, Some (JString ''x''))"
    by (simp add: NormaliseResponse_def any_rule_def newRule_def NewEvaluator_def empty_scripts_def empty_program_def
        ev_NormaliseResponse_def registry_rule_def ev_normalise_def normalisedResponse_def)
  then show ?thesis using NormaliseResponse_checked [OF run, of None] by (simp add: Let_def)
qed

lemma separator_unique:
  "z \<notin> set a \<Longrightarrow> z \<notin> set b \<Longrightarrow> a @ z # x = b @ z # y \<Longrightarrow> a = b \<and> x = y"
proof (induction a arbitrary: b)
  case Nil
  then show ?case by (cases b) auto
next
  case (Cons c a)
  then show ?case by (cases b) auto
qed

text \<open>
  Requests share a hash only when they mean the same: unless the digest itself collides, equal
  hashes come from equal identities and equal canonical content, because the zero byte that ends
  an identity appears in none.
\<close>

theorem Hash_identifies:
  assumes "Hash num sha256 s created i t v = Inr h" "Hash num sha256 s created' i' t' v' = Inr h"
    and "CHR 0x00 \<notin> set i" "CHR 0x00 \<notin> set i'"
    and "\<And>x y. sha256 x = sha256 y \<Longrightarrow> x = y"
  shows "i = i' \<and> (\<exists>n n'. scripts_normalise s created t v = Inr n \<and> scripts_normalise s created' t' v' = Inr n'
    \<and> CanonicalJSON num n = CanonicalJSON num n')"
proof -
  obtain n n' where n: "scripts_normalise s created t v = Inr n" "scripts_normalise s created' t' v' = Inr n'"
    "h = sha256 (hash_input i (CanonicalJSON num n))" "h = sha256 (hash_input i' (CanonicalJSON num n'))"
    using assms(1,2) by (auto simp: Hash_def split: sum.splits)
  then have "i @ CHR 0x00 # CanonicalJSON num n = i' @ CHR 0x00 # CanonicalJSON num n'"
    using assms(5) by (auto simp: hash_input_def)
  with assms(3,4) have "i = i' \<and> CanonicalJSON num n = CanonicalJSON num n'"
    by (rule separator_unique)
  with n show ?thesis by blast
qed

end
