(* ===== verification/Ingress_Pairs.thy ===== *)
theory Ingress_Pairs
  imports Comparison_Scripts Future_Value
begin

text \<open>
  \<open>internal/protocol/ingress.go\<close> and the types of \<open>types.go\<close> that it uses: each reference request
  is paired with the candidate request that mirrors it, and their responses are compared.

  A pair is a shared object. It is addressed by its \<open>RequestID\<close>, which is fresh, so the map of
  requests is a set of addresses and the store \<open>ip_heap\<close> keeps each pair for the handlers that
  still hold it. The calls to the quarantiner and to \<open>Raw.Release\<close> are recorded in the order
  they happen. New identifiers, the contents that \<open>Decode\<close> returns, the evaluators that scripts
  create and the errors of contexts are arguments.
\<close>

subsection \<open>Messages and results\<close>

type_synonym request_id = string
type_synonym exchange = string
type_synonym raw = nat

record message =
  ms_type :: "type_ref option"
  ms_value :: json

record content =
  ct_status :: "string option"
  ct_message :: "message option"
  ct_failure :: "string option"
  ct_ignored :: "string option"
  ct_rule :: "rule option"

record response =
  rs_raw :: raw
  rs_latency :: duration
  rs_content :: content

datatype decision =
  DecisionForward "request_id option" exchange
  | DecisionIntercept raw

datatype outcome = outcomeEquivalent | outcomeDivergent | outcomeSkipped | outcomeUnable

record comparison_result =
  cr_outcome :: outcome
  cr_differences :: "difference list"
  cr_truncated :: bool
  cr_reason :: string

definition newComparisonResult :: "outcome \<Rightarrow> string \<Rightarrow> comparison_result" where
  "newComparisonResult oc reason =
     \<lparr>cr_outcome = oc, cr_differences = [], cr_truncated = False, cr_reason = reason\<rparr>"

definition newDifferenceResult :: "bool \<Rightarrow> difference list \<Rightarrow> comparison_result" where
  "newDifferenceResult truncated differences =
     \<lparr>cr_outcome = outcomeDivergent, cr_differences = differences, cr_truncated = truncated, cr_reason = []\<rparr>"

definition rootDifference :: "string \<Rightarrow> change \<Rightarrow> comparison_result" where
  "rootDifference path change =
     newDifferenceResult False [\<lparr>d_path = path, d_change = change, d_retype = None, d_count = 1\<rparr>]"

subsection \<open>Comparing responses\<close>

text \<open>\<open>strconv.Atoi\<close>: an optional sign and decimal digits, within 64 bits.\<close>

fun digits_value :: "string \<Rightarrow> int \<Rightarrow> int" where
  "digits_value [] acc = acc"
| "digits_value (c # cs) acc = digits_value cs (10 * acc + int (undigit c))"

definition atoi_digits :: "bool \<Rightarrow> string \<Rightarrow> int option" where
  "atoi_digits negative ds =
     (if ds = [] \<or> \<not> list_all is_digit ds then None
      else let n = (if negative then - digits_value ds 0 else digits_value ds 0)
           in if n < - (2 ^ 63) \<or> n \<ge> 2 ^ 63 then None else Some n)"

definition atoi :: "string \<Rightarrow> int option" where
  "atoi s =
     (case s of
        [] \<Rightarrow> None
      | c # cs \<Rightarrow>
          (if c = CHR ''-'' then atoi_digits True cs
           else if c = CHR ''+'' then atoi_digits False cs
           else atoi_digits False s))"

definition normaliseResponse :: "scripts \<Rightarrow> 'js created \<Rightarrow> content \<Rightarrow> content result" where
  "normaliseResponse s created content =
     (case ct_rule content of
        None \<Rightarrow> Inr content
      | Some r \<Rightarrow>
          (case atoi (case ct_status content of Some t \<Rightarrow> t | None \<Rightarrow> []) of
             None \<Rightarrow> Inl (''rule '' @ Rule_String r @ '' needs an HTTP status'')
           | Some status \<Rightarrow>
               (case NormaliseResponse s created r status (map_option ms_value (ct_message content)) of
                  Inl err \<Rightarrow> Inl (wrap (''normalise response with rule '' @ Rule_String r) err)
                | Inr (status', body') \<Rightarrow>
                    Inr (content
                      \<lparr>ct_status := map_option show_int status',
                       ct_message := map_option (\<lambda>v.
                         \<lparr>ms_type = (case ru_action r of ActionMatch t _ \<Rightarrow> t | ActionIgnore \<Rightarrow> None), ms_value = v\<rparr>) body'\<rparr>))))"

definition compareMessages :: "scripts \<Rightarrow> 'js created \<Rightarrow> 'js created \<Rightarrow> message option \<Rightarrow> message option \<Rightarrow> comparison_result" where
  "compareMessages s created created' reference candidate =
     (case (reference, candidate) of
        (None, None) \<Rightarrow> newComparisonResult outcomeEquivalent []
      | (Some r, None) \<Rightarrow> rootDifference ''$'' ChangeMissing
      | (None, Some c) \<Rightarrow> rootDifference ''$'' ChangeAdded
      | (Some r, Some c) \<Rightarrow>
          (if ms_type r \<noteq> ms_type c
           then newComparisonResult outcomeUnable ''reference and candidate messages have different types''
           else case Compare s created created' (ms_type r) (ms_value r) (ms_value c) of
             Inl err \<Rightarrow> newComparisonResult outcomeUnable err
           | Inr (differences, truncated) \<Rightarrow>
               (if length differences > 0 then newDifferenceResult truncated differences
                else newComparisonResult outcomeEquivalent [])))"

record ingress_outcome =
  io_reference :: "response option"
  io_failure :: "string option"
  io_cancelled :: bool

text \<open>The evaluators of one comparison, in the order in which the code creates them.\<close>

record 'js evaluations =
  ce_reference_response :: "'js created"
  ce_candidate_response :: "'js created"
  ce_reference :: "'js created"
  ce_candidate :: "'js created"

definition compare_contents :: "scripts \<Rightarrow> 'js evaluations \<Rightarrow> content \<Rightarrow> content \<Rightarrow> comparison_result" where
  "compare_contents s ce rc cc =
     (if ct_ignored rc \<noteq> None \<and> ct_ignored cc \<noteq> None
      then newComparisonResult outcomeSkipped (the (ct_ignored rc))
      else let
          known = (ct_status rc \<noteq> None \<and> ct_status cc \<noteq> None);
          decoded = (ct_failure rc = None \<and> ct_failure cc = None);
          ignored = (ct_ignored rc \<noteq> None \<or> ct_ignored cc \<noteq> None)
        in
        if known \<and> ct_status rc \<noteq> ct_status cc \<and> (\<not> decoded \<or> ignored) then rootDifference ''$status'' ChangeChanged
        else case ct_failure rc of
          Some failure \<Rightarrow> newComparisonResult outcomeUnable (''reference: '' @ failure)
        | None \<Rightarrow>
            (case ct_failure cc of
               Some failure \<Rightarrow> newComparisonResult outcomeUnable (''candidate: '' @ failure)
             | None \<Rightarrow>
                 (if ignored then newComparisonResult outcomeUnable ''only one response is ignored''
                  else if \<not> known then newComparisonResult outcomeUnable ''response status is unknown''
                  else case normaliseResponse s (ce_reference_response ce) rc of
                    Inl err \<Rightarrow> newComparisonResult outcomeUnable (''reference: '' @ err)
                  | Inr rc' \<Rightarrow>
                      (case normaliseResponse s (ce_candidate_response ce) cc of
                         Inl err \<Rightarrow> newComparisonResult outcomeUnable (''candidate: '' @ err)
                       | Inr cc' \<Rightarrow>
                           (if ct_status rc' \<noteq> ct_status cc' then rootDifference ''$status'' ChangeChanged
                            else compareMessages s (ce_reference ce) (ce_candidate ce) (ct_message rc') (ct_message cc'))))))"

definition compareResponses :: "scripts \<Rightarrow> 'js evaluations \<Rightarrow> ingress_outcome \<Rightarrow> response \<Rightarrow> comparison_result" where
  "compareResponses s ce oc candidate =
     (case io_failure oc of
        Some failure \<Rightarrow> newComparisonResult outcomeUnable (''reference: '' @ failure)
      | None \<Rightarrow>
          (case io_reference oc of
             None \<Rightarrow> newComparisonResult outcomeUnable ''reference response is missing''
           | Some reference \<Rightarrow> compare_contents s ce (rs_content reference) (rs_content candidate)))"

subsection \<open>Pairs\<close>

record ingress_pair =
  pa_protocol :: protocol
  pa_route :: route
  pa_id :: request_id
  pa_ignored :: "string option"
  pa_outcome :: "ingress_outcome future"
  pa_joined :: bool
  pa_candidate_done :: bool

definition newIngressPair :: "protocol \<Rightarrow> request_id \<Rightarrow> route \<Rightarrow> string option \<Rightarrow> ingress_pair" where
  "newIngressPair protocol requestID route ignored =
     \<lparr>pa_protocol = protocol, pa_route = route, pa_id = requestID, pa_ignored = ignored,
      pa_outcome = New_Future, pa_joined = False, pa_candidate_done = False\<rparr>"

definition ingressTraffic :: "protocol \<Rightarrow> route \<Rightarrow> traffic" where
  "ingressTraffic protocol route = \<lparr>tr_direction = Ingress, tr_protocol = protocol, tr_route = route\<rparr>"

definition pair_join :: "ingress_pair \<Rightarrow> protocol \<Rightarrow> ingress_pair result" where
  "pair_join p protocol =
     (if pa_joined p then Inl (''reference request '' @ pa_id p @ '' already has a candidate'')
      else if pa_protocol p \<noteq> protocol
      then Inl (''candidate request '' @ pa_id p @ '' uses '' @ protocol @ '', not '' @ pa_protocol p)
      else Inr (p\<lparr>pa_joined := True\<rparr>))"

definition releaseResponse :: "response option \<Rightarrow> raw list" where
  "releaseResponse r = (case r of Some resp \<Rightarrow> [rs_raw resp] | None \<Rightarrow> [])"

definition releaseReference :: "ingress_pair \<Rightarrow> raw list" where
  "releaseReference p =
     (case Future_Get (pa_outcome p) of Some oc \<Rightarrow> releaseResponse (io_reference oc) | None \<Rightarrow> [])"

text \<open>Whether the pair is finished, the pair, and what is released.\<close>

definition pair_finishReference :: "ingress_pair \<Rightarrow> ingress_outcome \<Rightarrow> bool \<times> ingress_pair \<times> raw list" where
  "pair_finishReference p oc =
     (case Future_Set (pa_outcome p) oc of
        (False, f) \<Rightarrow> (False, p, releaseResponse (io_reference oc))
      | (True, f) \<Rightarrow>
          (let p' = p\<lparr>pa_outcome := f\<rparr>; finished = pa_candidate_done p' \<or> \<not> pa_joined p'
           in (finished, p', if finished then releaseReference p' else [])))"

definition pair_finishCandidate :: "ingress_pair \<Rightarrow> ingress_pair \<times> raw list" where
  "pair_finishCandidate p = (let p' = p\<lparr>pa_candidate_done := True\<rparr> in (p', releaseReference p'))"

definition awaitReference :: "ingress_pair \<Rightarrow> string option \<Rightarrow> bool \<Rightarrow> ingress_outcome result option" where
  "awaitReference p ctx prefer =
     (case Future_Wait (pa_outcome p) ctx prefer of
        None \<Rightarrow> None
      | Some (Inl err) \<Rightarrow> Some (Inl err)
      | Some (Inr oc) \<Rightarrow>
          (case io_failure oc of
             Some failure \<Rightarrow> if io_cancelled oc then Some (Inl failure) else Some (Inr oc)
           | None \<Rightarrow> Some (Inr oc)))"

definition latencyDelta :: "ingress_pair \<Rightarrow> duration \<Rightarrow> duration option" where
  "latencyDelta p candidate =
     (if candidate \<le> 0 then None
      else case Future_Get (pa_outcome p) of
        None \<Rightarrow> None
      | Some oc \<Rightarrow>
          (case io_reference oc of
             Some reference \<Rightarrow> if rs_latency reference > 0 then Some (candidate - rs_latency reference) else None
           | None \<Rightarrow> None))"

subsection \<open>The table of pairs\<close>

record ingress_pairs =
  ip_heap :: "request_id \<rightharpoonup> ingress_pair"
  ip_requests :: "request_id set"
  ip_exchanges :: "exchange \<rightharpoonup> request_id"
  ip_quarantined :: "quarantine_reason list"
  ip_released :: "raw list"

definition newIngressPairs :: ingress_pairs where
  "newIngressPairs = \<lparr>ip_heap = Map.empty, ip_requests = {}, ip_exchanges = Map.empty,
     ip_quarantined = [], ip_released = []\<rparr>"

abbreviation Release :: "raw list \<Rightarrow> ingress_pairs \<Rightarrow> ingress_pairs" where
  "Release raws t \<equiv> t\<lparr>ip_released := ip_released t @ raws\<rparr>"

abbreviation Quarantine_call :: "quarantine_reason \<Rightarrow> ingress_pairs \<Rightarrow> ingress_pairs" where
  "Quarantine_call reason t \<equiv> t\<lparr>ip_quarantined := ip_quarantined t @ [reason]\<rparr>"

definition ingress_start :: "ingress_pairs \<Rightarrow> request_id \<Rightarrow> exchange \<Rightarrow> protocol \<Rightarrow> route \<Rightarrow> string option
    \<Rightarrow> decision \<times> ingress_pairs" where
  "ingress_start t requestID exchange protocol route ignored =
     (DecisionForward (Some requestID) exchange,
      t\<lparr>ip_heap := (ip_heap t)(requestID \<mapsto> newIngressPair protocol requestID route ignored),
        ip_requests := insert requestID (ip_requests t),
        ip_exchanges := (ip_exchanges t)(exchange \<mapsto> requestID)\<rparr>)"

definition ingress_admit :: "ingress_pairs \<Rightarrow> exchange \<Rightarrow> protocol \<Rightarrow> request_id option \<Rightarrow> exchange result \<times> ingress_pairs" where
  "ingress_admit t fresh protocol requestID =
     (case requestID of
        None \<Rightarrow> (Inl ''candidate request has no request ID'', t)
      | Some i \<Rightarrow>
          (if i \<notin> ip_requests t then (Inl (''candidate request '' @ i @ '' has no reference request''), t)
           else case pair_join (the (ip_heap t i)) protocol of
             Inl err \<Rightarrow> (Inl err, t)
           | Inr p \<Rightarrow> (Inr fresh, t\<lparr>ip_heap := (ip_heap t)(i \<mapsto> p), ip_exchanges := (ip_exchanges t)(fresh \<mapsto> i)\<rparr>)))"

definition ingress_join :: "ingress_pairs \<Rightarrow> exchange \<Rightarrow> protocol \<Rightarrow> route \<Rightarrow> request_id option \<Rightarrow> decision result \<times> ingress_pairs" where
  "ingress_join t fresh protocol route requestID =
     (case ingress_admit t fresh protocol requestID of
        (Inl err, t') \<Rightarrow>
          (Inl err, Quarantine_call (plain_reason QuarantinePairing (Some (ingressTraffic protocol route)) err) t')
      | (Inr exchange, t') \<Rightarrow> (Inr (DecisionForward requestID exchange), t'))"

definition ingress_take :: "ingress_pairs \<Rightarrow> exchange \<Rightarrow> request_id option \<times> ingress_pairs" where
  "ingress_take t exchange =
     (case ip_exchanges t exchange of
        None \<Rightarrow> (None, t)
      | Some i \<Rightarrow> (Some i, t\<lparr>ip_exchanges := (ip_exchanges t)(exchange := None)\<rparr>))"

text \<open>The two critical sections of \<open>finishReference\<close>: taking the exchange, then publishing.\<close>

definition reference_outcome :: "response option \<Rightarrow> string option \<Rightarrow> string option \<Rightarrow> ingress_outcome" where
  "reference_outcome response failure ctx =
     \<lparr>io_reference = response, io_failure = failure, io_cancelled = (failure \<noteq> None \<and> ctx \<noteq> None)\<rparr>"

definition publishReference :: "ingress_pairs \<Rightarrow> request_id \<Rightarrow> ingress_outcome \<Rightarrow> ingress_pairs" where
  "publishReference t i oc =
     (case pair_finishReference (the (ip_heap t i)) oc of
        (finished, p, raws) \<Rightarrow>
          Release raws (t\<lparr>ip_heap := (ip_heap t)(i \<mapsto> p),
            ip_requests := (if finished then ip_requests t - {pa_id p} else ip_requests t)\<rparr>))"

definition ingress_finishReference :: "ingress_pairs \<Rightarrow> exchange \<Rightarrow> response option \<Rightarrow> string option \<Rightarrow> string option
    \<Rightarrow> ingress_pairs" where
  "ingress_finishReference t exchange response failure ctx =
     (case ingress_take t exchange of
        (None, t') \<Rightarrow> Release (releaseResponse response) t'
      | (Some i, t') \<Rightarrow> publishReference t' i (reference_outcome response failure ctx))"

definition ingress_finishCandidate :: "ingress_pairs \<Rightarrow> request_id \<Rightarrow> ingress_pairs" where
  "ingress_finishCandidate t i =
     (case pair_finishCandidate (the (ip_heap t i)) of
        (p, raws) \<Rightarrow>
          Release raws (t\<lparr>ip_heap := (ip_heap t)(i \<mapsto> p), ip_requests := ip_requests t - {pa_id p}\<rparr>))"

text \<open>The fail-closed policy. The log record that precedes it is left out.\<close>

definition report :: "ingress_pairs \<Rightarrow> ingress_pair \<Rightarrow> comparison_result \<Rightarrow> ingress_pairs" where
  "report t p outcome =
     (case cr_outcome outcome of
        outcomeEquivalent \<Rightarrow> t
      | outcomeSkipped \<Rightarrow> t
      | outcomeDivergent \<Rightarrow>
          Quarantine_call
            \<lparr>r_kind = QuarantineDivergent, r_traffic = Some (ingressTraffic (pa_protocol p) (pa_route p)), r_node = None,
             r_differences = cr_differences outcome, r_truncated = cr_truncated outcome, r_detail = []\<rparr> t
      | outcomeUnable \<Rightarrow>
          Quarantine_call (plain_reason QuarantineUnable (Some (ingressTraffic (pa_protocol p) (pa_route p)))
            (''response comparison failed: '' @ cr_reason outcome)) t)"

text \<open>
  What a candidate handler decides about its pair: a result to report, or nothing because the
  comparison did not finish. \<open>None\<close> means that it still waits for the reference.
\<close>

definition candidate_verdict :: "scripts \<Rightarrow> 'js evaluations \<Rightarrow> ingress_pair \<Rightarrow> response \<Rightarrow> string option \<Rightarrow> bool
    \<Rightarrow> string option \<Rightarrow> comparison_result option option" where
  "candidate_verdict s ce p response ctx prefer ctx' =
     (case pa_ignored p of
        Some reason \<Rightarrow> Some (Some (newComparisonResult outcomeSkipped reason))
      | None \<Rightarrow>
          (case awaitReference p ctx prefer of
             None \<Rightarrow> None
           | Some (Inl err) \<Rightarrow> Some None
           | Some (Inr oc) \<Rightarrow>
               (let outcome = compareResponses s ce oc response in
                if cr_outcome outcome = outcomeUnable \<and> ctx' \<noteq> None then Some None else Some (Some outcome))))"

definition conclude :: "ingress_pairs \<Rightarrow> request_id \<Rightarrow> comparison_result option \<Rightarrow> ingress_pairs" where
  "conclude t i verdict =
     ingress_finishCandidate
       (case verdict of Some outcome \<Rightarrow> report t (the (ip_heap t i)) outcome | None \<Rightarrow> t) i"

definition candidateResponse :: "scripts \<Rightarrow> 'js evaluations \<Rightarrow> ingress_pairs \<Rightarrow> exchange \<Rightarrow> response \<Rightarrow> string option \<Rightarrow> bool
    \<Rightarrow> string option \<Rightarrow> ingress_pairs option" where
  "candidateResponse s ce t exchange response ctx prefer ctx' =
     (case ingress_take t exchange of
        (None, t') \<Rightarrow> Some (Release [rs_raw response] t')
      | (Some i, t') \<Rightarrow>
          (case candidate_verdict s ce (the (ip_heap t' i)) response ctx prefer ctx' of
             None \<Rightarrow> None
           | Some verdict \<Rightarrow> Some (Release [rs_raw response] (conclude t' i verdict))))"

definition unable_verdict :: "ingress_pair \<Rightarrow> string \<Rightarrow> string option \<Rightarrow> comparison_result option" where
  "unable_verdict p reason ctx =
     (if ctx \<noteq> None then None
      else case pa_ignored p of
        Some ignored \<Rightarrow> Some (newComparisonResult outcomeSkipped ignored)
      | None \<Rightarrow> Some (newComparisonResult outcomeUnable (''candidate: '' @ reason)))"

definition candidateUnable :: "ingress_pairs \<Rightarrow> exchange \<Rightarrow> string \<Rightarrow> string option \<Rightarrow> ingress_pairs" where
  "candidateUnable t exchange reason ctx =
     (case ingress_take t exchange of
        (None, t') \<Rightarrow> t'
      | (Some i, t') \<Rightarrow> conclude t' i (unable_verdict (the (ip_heap t' i)) reason ctx))"

subsection \<open>What a comparison decides\<close>

lemmas result_defs = newComparisonResult_def newDifferenceResult_def rootDifference_def

lemma compareMessages_outcome:
  "cr_outcome (compareMessages s c c' r m) \<noteq> outcomeSkipped"
  "cr_outcome (compareMessages s c c' r m) = outcomeEquivalent \<longleftrightarrow>
     (r = None \<and> m = None) \<or>
     (\<exists>x y. r = Some x \<and> m = Some y \<and> ms_type x = ms_type y
        \<and> (\<exists>truncated. Compare s c c' (ms_type x) (ms_value x) (ms_value y) = Inr ([], truncated)))"
  by (auto simp: compareMessages_def result_defs split: option.splits sum.splits if_splits)

text \<open>
  C3. Responses count as equivalent only when everything was compared and nothing differed: the
  reference finished, both contents decoded and neither is ignored, their statuses agree after
  the rules' normalisers, and their messages are both absent or of one type without a difference.
\<close>

theorem equivalent_means_equal:
  assumes "cr_outcome (compareResponses s ce oc candidate) = outcomeEquivalent"
  shows "\<exists>reference rc cc. io_failure oc = None \<and> io_reference oc = Some reference
    \<and> ct_failure (rs_content reference) = None \<and> ct_failure (rs_content candidate) = None
    \<and> ct_ignored (rs_content reference) = None \<and> ct_ignored (rs_content candidate) = None
    \<and> normaliseResponse s (ce_reference_response ce) (rs_content reference) = Inr rc
    \<and> normaliseResponse s (ce_candidate_response ce) (rs_content candidate) = Inr cc
    \<and> ct_status rc = ct_status cc
    \<and> ((ct_message rc = None \<and> ct_message cc = None)
       \<or> (\<exists>x y truncated. ct_message rc = Some x \<and> ct_message cc = Some y \<and> ms_type x = ms_type y
            \<and> Compare s (ce_reference ce) (ce_candidate ce) (ms_type x) (ms_value x) (ms_value y) = Inr ([], truncated)))"
proof -
  obtain reference where r: "io_failure oc = None" "io_reference oc = Some reference"
    "cr_outcome (compare_contents s ce (rs_content reference) (rs_content candidate)) = outcomeEquivalent"
    using assms by (auto simp: compareResponses_def result_defs split: option.splits)
  then show ?thesis
    by (auto simp: compare_contents_def result_defs Let_def split: option.splits if_splits sum.splits
        dest!: compareMessages_outcome(2) [THEN iffD1])
qed

definition plain_content :: "json \<Rightarrow> content" where
  "plain_content v = \<lparr>ct_status = Some ''200'', ct_message = Some \<lparr>ms_type = None, ms_value = v\<rparr>, ct_failure = None,
     ct_ignored = None, ct_rule = None\<rparr>"

definition plain_response :: "raw \<Rightarrow> json \<Rightarrow> response" where
  "plain_response raw v = \<lparr>rs_raw = raw, rs_latency = 5, rs_content = plain_content v\<rparr>"

definition no_evaluations :: "unit evaluations" where
  "no_evaluations = \<lparr>ce_reference_response = Inl [], ce_candidate_response = Inl [], ce_reference = Inl [], ce_candidate = Inl []\<rparr>"

lemma compare_plain:
  "compareResponses empty_scripts no_evaluations (reference_outcome (Some (plain_response a v)) None None) (plain_response b w)
   = compareMessages empty_scripts (Inl [] :: unit created) (Inl []) (Some \<lparr>ms_type = None, ms_value = v\<rparr>) (Some \<lparr>ms_type = None, ms_value = w\<rparr>)"
  by (simp add: compareResponses_def reference_outcome_def compare_contents_def plain_response_def plain_content_def
      normaliseResponse_def no_evaluations_def)

lemma Compare_plain_same: "Compare empty_scripts (Inl [] :: unit created) (Inl []) None (JBool b) (JBool b) = Inr ([], False)"
  by (simp add: Compare_def scripts_normalise_def Diff_def compare_payloads_def newDiffer_def Raw_def
      Document_Export_def newDocument_def maxDifferences_def mergeIndexes_def)

theorem equivalent_means_equal_witness:
  "\<exists>reference rc cc. io_reference (reference_outcome (Some (plain_response 1 (JBool True))) None None) = Some reference
     \<and> normaliseResponse empty_scripts (ce_reference_response no_evaluations) (rs_content reference) = Inr rc
     \<and> normaliseResponse empty_scripts (ce_candidate_response no_evaluations) (rs_content (plain_response 2 (JBool True))) = Inr cc
     \<and> ct_status rc = ct_status cc"
proof -
  have "cr_outcome (compareResponses empty_scripts no_evaluations
      (reference_outcome (Some (plain_response 1 (JBool True))) None None) (plain_response 2 (JBool True))) = outcomeEquivalent"
    by (simp add: compare_plain compareMessages_def Compare_plain_same result_defs)
  from equivalent_means_equal [OF this] show ?thesis by blast
qed

subsection \<open>The fail-closed policy\<close>

lemma finishCandidate_quarantined [simp]: "ip_quarantined (ingress_finishCandidate t i) = ip_quarantined t"
  by (simp add: ingress_finishCandidate_def split: prod.splits)

lemma report_quarantined:
  "ip_quarantined (report t p outcome) = ip_quarantined t @
     (if cr_outcome outcome \<in> {outcomeEquivalent, outcomeSkipped} then []
      else [if cr_outcome outcome = outcomeDivergent
        then \<lparr>r_kind = QuarantineDivergent, r_traffic = Some (ingressTraffic (pa_protocol p) (pa_route p)), r_node = None,
              r_differences = cr_differences outcome, r_truncated = cr_truncated outcome, r_detail = []\<rparr>
        else plain_reason QuarantineUnable (Some (ingressTraffic (pa_protocol p) (pa_route p)))
              (''response comparison failed: '' @ cr_reason outcome)])"
  by (simp add: report_def split: outcome.splits)

lemma take_quarantined: "ingress_take t e = (r, t') \<Longrightarrow> ip_quarantined t' = ip_quarantined t \<and> ip_heap t' = ip_heap t"
  by (auto simp: ingress_take_def split: option.splits)

text \<open>
  C1. The policy fails closed. When a candidate's response is compared with its reference, the
  candidate keeps running without quarantine only if the responses are equivalent or the pair is
  one that is never compared; every other result quarantines it, once, naming the pair's traffic.
  A comparison that its own deadline cut short quarantines nothing.
\<close>

theorem ingress_fails_closed:
  assumes "ip_exchanges t exchange = Some i" "ip_heap t i = Some p" "pa_ignored p = None"
    and "awaitReference p ctx prefer = Some (Inr oc)"
  shows "\<exists>t'. candidateResponse s ce t exchange response ctx prefer ctx' = Some t'
    \<and> (let outcome = cr_outcome (compareResponses s ce oc response) in
       if outcome = outcomeEquivalent \<or> outcome = outcomeSkipped \<or> (outcome = outcomeUnable \<and> ctx' \<noteq> None)
       then ip_quarantined t' = ip_quarantined t
       else \<exists>reason. ip_quarantined t' = ip_quarantined t @ [reason]
         \<and> r_traffic reason = Some (ingressTraffic (pa_protocol p) (pa_route p))
         \<and> r_kind reason = (if outcome = outcomeDivergent then QuarantineDivergent else QuarantineUnable))"
proof -
  have take: "ingress_take t exchange = (Some i, t\<lparr>ip_exchanges := (ip_exchanges t)(exchange := None)\<rparr>)"
    using assms(1) by (simp add: ingress_take_def)
  show ?thesis
    using assms
    by (cases "cr_outcome (compareResponses s ce oc response)")
      (auto simp: candidateResponse_def take candidate_verdict_def conclude_def report_quarantined plain_reason_def Let_def)
qed

definition one_pair :: ingress_pairs where
  "one_pair = snd (ingress_join (snd (ingress_start newIngressPairs ''r1'' ''e1'' ProtocolHTTP ''GET /'' None))
     ''e2'' ProtocolHTTP ''GET /'' (Some ''r1''))"

lemma one_pair_unfold:
  "one_pair = \<lparr>ip_heap = [''r1'' \<mapsto> (newIngressPair ProtocolHTTP ''r1'' ''GET /'' None)\<lparr>pa_joined := True\<rparr>],
     ip_requests = {''r1''}, ip_exchanges = [''e1'' \<mapsto> ''r1'', ''e2'' \<mapsto> ''r1''], ip_quarantined = [], ip_released = []\<rparr>"
  by (simp add: one_pair_def ingress_join_def ingress_admit_def ingress_start_def newIngressPairs_def pair_join_def
      newIngressPair_def)

theorem ingress_fails_closed_witness:
  "let t = ingress_finishReference one_pair ''e1'' (Some (plain_response 1 (JBool True))) None None
   in \<exists>t' reason. candidateResponse empty_scripts no_evaluations t ''e2'' (plain_response 2 JNull) None True None = Some t'
     \<and> ip_quarantined t' = [reason] \<and> r_kind reason = QuarantineDivergent"
proof -
  let ?oc = "reference_outcome (Some (plain_response 1 (JBool True))) None None"
  let ?p = "\<lparr>pa_protocol = ProtocolHTTP, pa_route = ''GET /'', pa_id = ''r1'', pa_ignored = None,
      pa_outcome = \<lparr>fu_value = Some ?oc, fu_done = True\<rparr>, pa_joined = True, pa_candidate_done = False\<rparr>"
  let ?t = "\<lparr>ip_heap = [''r1'' \<mapsto> ?p], ip_requests = {''r1''}, ip_exchanges = [''e2'' \<mapsto> ''r1''],
      ip_quarantined = [], ip_released = []\<rparr>"
  have t: "ingress_finishReference one_pair ''e1'' (Some (plain_response 1 (JBool True))) None None = ?t"
    by (simp add: one_pair_unfold ingress_finishReference_def ingress_take_def publishReference_def pair_finishReference_def
        newIngressPair_def New_Future_def Future_Set_def fun_upd_twist)
  have "Compare empty_scripts (Inl [] :: unit created) (Inl []) None (JBool True) JNull
      = Inr ([\<lparr>d_path = ''$'', d_change = ChangeRetyped,
          d_retype = Some \<lparr>rt_reference = JSONBoolean, rt_candidate = JSONNull\<rparr>, d_count = 1\<rparr>], False)"
    by (simp add: Compare_def scripts_normalise_def Diff_def compare_payloads_def newDiffer_def Raw_def
        Document_Export_def newDocument_def maxDifferences_def mergeIndexes_def add_difference_def retype_of_def
        group_item_def new_group_def count_item_def merged_group_def reported_def path_String_def)
  then have "cr_outcome (compareResponses empty_scripts no_evaluations ?oc (plain_response 2 JNull)) = outcomeDivergent"
    by (simp add: compare_plain compareMessages_def result_defs)
  then show ?thesis
    using ingress_fails_closed [of ?t "''e2''" "''r1''" ?p None True ?oc empty_scripts no_evaluations "plain_response 2 JNull" None] t
    by (auto simp: awaitReference_def Future_Wait_def Future_Get_def reference_outcome_def Let_def)
qed

subsection \<open>Interleaved handlers\<close>

text \<open>
  Handlers run concurrently and hold the lock only inside the operations above. A reference
  handler that has taken its exchange still has to publish; a candidate handler that has taken
  its exchange waits and compares before it concludes, with any verdict. Servers report a
  response under the exchange that the same acceptor issued.
\<close>

record ingress_system =
  is_pairs :: ingress_pairs
  is_reference :: "exchange set"
  is_candidate :: "exchange set"
  is_publishing :: "request_id \<rightharpoonup> ingress_outcome"
  is_comparing :: "request_id \<rightharpoonup> raw list"

definition ingress_init :: ingress_system where
  "ingress_init = \<lparr>is_pairs = newIngressPairs, is_reference = {}, is_candidate = {}, is_publishing = Map.empty,
     is_comparing = Map.empty\<rparr>"

inductive ingress_step :: "ingress_system \<Rightarrow> ingress_system \<Rightarrow> bool" where
  step_start: "ip_heap (is_pairs s) i = None \<Longrightarrow> e \<notin> is_reference s \<union> is_candidate s \<Longrightarrow>
     ingress_step s (s\<lparr>is_pairs := snd (ingress_start (is_pairs s) i e protocol route ignored),
       is_reference := insert e (is_reference s)\<rparr>)"
| step_join: "e \<notin> is_reference s \<union> is_candidate s \<Longrightarrow> ingress_join (is_pairs s) e protocol route i = (Inr decision, t) \<Longrightarrow>
     ingress_step s (s\<lparr>is_pairs := t, is_candidate := insert e (is_candidate s)\<rparr>)"
| step_refuse: "e \<notin> is_reference s \<union> is_candidate s \<Longrightarrow> ingress_join (is_pairs s) e protocol route i = (Inl err, t) \<Longrightarrow>
     ingress_step s (s\<lparr>is_pairs := t\<rparr>)"
| step_reference: "e \<in> is_reference s \<Longrightarrow> ingress_take (is_pairs s) e = (Some i, t) \<Longrightarrow>
     ingress_step s (s\<lparr>is_pairs := t, is_publishing := (is_publishing s)(i \<mapsto> oc)\<rparr>)"
| step_publish: "is_publishing s i = Some oc \<Longrightarrow>
     ingress_step s (s\<lparr>is_pairs := publishReference (is_pairs s) i oc, is_publishing := (is_publishing s)(i := None)\<rparr>)"
| step_candidate: "e \<in> is_candidate s \<Longrightarrow> ingress_take (is_pairs s) e = (Some i, t) \<Longrightarrow>
     ingress_step s (s\<lparr>is_pairs := t, is_comparing := (is_comparing s)(i \<mapsto> raws)\<rparr>)"
| step_conclude: "is_comparing s i = Some raws \<Longrightarrow>
     ingress_step s (s\<lparr>is_pairs := Release raws (conclude (is_pairs s) i verdict), is_comparing := (is_comparing s)(i := None)\<rparr>)"
| step_unknown: "ingress_take (is_pairs s) e = (None, t) \<Longrightarrow>
     ingress_step s (s\<lparr>is_pairs := Release raws t\<rparr>)"

definition issued :: "exchange set \<Rightarrow> (exchange \<rightharpoonup> request_id) \<Rightarrow> request_id \<Rightarrow> exchange set" where
  "issued es exchanges i = {e \<in> es. exchanges e = Some i}"

text \<open>
  The invariant of one pair, over its reference and candidate exchanges and whether a handler
  holds it: each side is either outstanding, once, or finished.
\<close>

definition side_open :: "exchange set \<Rightarrow> bool \<Rightarrow> bool \<Rightarrow> bool" where
  "side_open es held open_side \<longleftrightarrow>
     (open_side \<longleftrightarrow> es \<noteq> {} \<or> held) \<and> \<not> (es \<noteq> {} \<and> held) \<and> (\<forall>e \<in> es. \<forall>e' \<in> es. e = e')"

definition pair_inv :: "ingress_system \<Rightarrow> request_id \<Rightarrow> ingress_pair \<Rightarrow> bool" where
  "pair_inv s i p \<longleftrightarrow>
     pa_id p = i \<and> (pa_candidate_done p \<longrightarrow> pa_joined p)
     \<and> side_open (issued (is_reference s) (ip_exchanges (is_pairs s)) i) (is_publishing s i \<noteq> None) (Future_Get (pa_outcome p) = None)
     \<and> side_open (issued (is_candidate s) (ip_exchanges (is_pairs s)) i) (is_comparing s i \<noteq> None) (pa_joined p \<and> \<not> pa_candidate_done p)
     \<and> (i \<in> ip_requests (is_pairs s) \<longleftrightarrow> \<not> pa_candidate_done p \<and> (Future_Get (pa_outcome p) = None \<or> pa_joined p))
     \<and> (i \<notin> ip_requests (is_pairs s) \<longrightarrow> set (releaseReference p) \<subseteq> set (ip_released (is_pairs s)))"

definition ingress_inv :: "ingress_system \<Rightarrow> bool" where
  "ingress_inv s \<longleftrightarrow>
     is_reference s \<inter> is_candidate s = {}
     \<and> (\<forall>e i. ip_exchanges (is_pairs s) e = Some i \<longrightarrow> e \<in> is_reference s \<union> is_candidate s)
     \<and> (\<forall>i. ip_heap (is_pairs s) i = None \<longrightarrow>
          i \<notin> ip_requests (is_pairs s) \<and> (\<forall>e. ip_exchanges (is_pairs s) e \<noteq> Some i)
          \<and> is_publishing s i = None \<and> is_comparing s i = None)
     \<and> (\<forall>i p. ip_heap (is_pairs s) i = Some p \<longrightarrow> pair_inv s i p)"

lemma pair_inv_frame:
  assumes "pair_inv s j p"
    and "issued (is_reference s') (ip_exchanges (is_pairs s')) j = issued (is_reference s) (ip_exchanges (is_pairs s)) j"
    and "issued (is_candidate s') (ip_exchanges (is_pairs s')) j = issued (is_candidate s) (ip_exchanges (is_pairs s)) j"
    and "is_publishing s' j = is_publishing s j" "is_comparing s' j = is_comparing s j"
    and "j \<in> ip_requests (is_pairs s') \<longleftrightarrow> j \<in> ip_requests (is_pairs s)"
    and "set (ip_released (is_pairs s)) \<subseteq> set (ip_released (is_pairs s'))"
  shows "pair_inv s' j p"
  using assms unfolding pair_inv_def by auto

text \<open>A step that works on the pair \<open>i\<close> keeps the invariant when it keeps it for \<open>i\<close>.\<close>

lemma ingress_invI:
  assumes inv: "ingress_inv s"
    and sets: "is_reference s' \<inter> is_candidate s' = {}"
    and known: "\<And>e j. ip_exchanges (is_pairs s') e = Some j \<Longrightarrow> e \<in> is_reference s' \<union> is_candidate s'"
    and heap: "\<And>j. j \<noteq> i \<Longrightarrow> ip_heap (is_pairs s') j = ip_heap (is_pairs s) j" "ip_heap (is_pairs s') i = Some p"
    and frame: "\<And>j. j \<noteq> i \<Longrightarrow> issued (is_reference s') (ip_exchanges (is_pairs s')) j = issued (is_reference s) (ip_exchanges (is_pairs s)) j"
      "\<And>j. j \<noteq> i \<Longrightarrow> issued (is_candidate s') (ip_exchanges (is_pairs s')) j = issued (is_candidate s) (ip_exchanges (is_pairs s)) j"
      "\<And>j. j \<noteq> i \<Longrightarrow> is_publishing s' j = is_publishing s j" "\<And>j. j \<noteq> i \<Longrightarrow> is_comparing s' j = is_comparing s j"
      "\<And>j. j \<noteq> i \<Longrightarrow> j \<in> ip_requests (is_pairs s') \<longleftrightarrow> j \<in> ip_requests (is_pairs s)"
      "set (ip_released (is_pairs s)) \<subseteq> set (ip_released (is_pairs s'))"
    and pair: "pair_inv s' i p"
  shows "ingress_inv s'"
proof -
  have "pair_inv s' j q" if "ip_heap (is_pairs s') j = Some q" for j q
  proof (cases "j = i")
    case True
    with that heap(2) pair show ?thesis by simp
  next
    case False
    with that heap(1) inv have "pair_inv s j q" by (simp add: ingress_inv_def)
    then show ?thesis by (rule pair_inv_frame) (use frame False in auto)
  qed
  moreover have "j \<notin> ip_requests (is_pairs s') \<and> (\<forall>e. ip_exchanges (is_pairs s') e \<noteq> Some j)
      \<and> is_publishing s' j = None \<and> is_comparing s' j = None" if "ip_heap (is_pairs s') j = None" for j
  proof -
    have j: "j \<noteq> i" using that heap(2) by auto
    with that heap(1) inv have n: "j \<notin> ip_requests (is_pairs s)" "\<And>e. ip_exchanges (is_pairs s) e \<noteq> Some j"
      "is_publishing s j = None" "is_comparing s j = None" by (auto simp: ingress_inv_def)
    have "ip_exchanges (is_pairs s') e \<noteq> Some j" for e
      using known [of e j] frame(1,2) [OF j] n(2) by (auto simp: issued_def)
    with n frame(3-5) [OF j] show ?thesis by simp
  qed
  ultimately show ?thesis using sets known unfolding ingress_inv_def by blast
qed

lemma pair_inv_reference:
  "pair_inv s i p \<Longrightarrow>
   side_open (issued (is_reference s) (ip_exchanges (is_pairs s)) i) (is_publishing s i \<noteq> None) (Future_Get (pa_outcome p) = None)"
  by (simp add: pair_inv_def)

lemma pair_inv_candidate:
  "pair_inv s i p \<Longrightarrow>
   side_open (issued (is_candidate s) (ip_exchanges (is_pairs s)) i) (is_comparing s i \<noteq> None) (pa_joined p \<and> \<not> pa_candidate_done p)"
  by (simp add: pair_inv_def)

lemma ingress_inv_pair: "ingress_inv s \<Longrightarrow> ip_heap (is_pairs s) i = Some p \<Longrightarrow> pair_inv s i p"
  by (simp add: ingress_inv_def)

lemma ingress_inv_exchange:
  "ingress_inv s \<Longrightarrow> ip_exchanges (is_pairs s) e = Some i \<Longrightarrow> \<exists>p. ip_heap (is_pairs s) i = Some p \<and> pair_inv s i p"
  by (cases "ip_heap (is_pairs s) i") (auto simp: ingress_inv_def)

lemma inv_start:
  assumes "ingress_inv s" "ip_heap (is_pairs s) i = None" "e \<notin> is_reference s \<union> is_candidate s"
  shows "ingress_inv (s\<lparr>is_pairs := snd (ingress_start (is_pairs s) i e protocol route ignored),
       is_reference := insert e (is_reference s)\<rparr>)" (is "ingress_inv ?s'")
proof (rule ingress_invI [OF assms(1), where i = i and p = "newIngressPair protocol i route ignored"])
  have free: "ip_exchanges (is_pairs s) e = None" using assms(1,3) by (auto simp: ingress_inv_def)
  have new: "\<And>e'. ip_exchanges (is_pairs s) e' \<noteq> Some i" "i \<notin> ip_requests (is_pairs s)"
    "is_publishing s i = None" "is_comparing s i = None"
    using assms(1,2) by (auto simp: ingress_inv_def)
  have ref: "issued (is_reference ?s') (ip_exchanges (is_pairs ?s')) i = {e}"
    and cand: "issued (is_candidate ?s') (ip_exchanges (is_pairs ?s')) i = {}"
    using new(1) assms(3) by (auto simp: issued_def ingress_start_def)
  show "pair_inv ?s' i (newIngressPair protocol i route ignored)"
    unfolding pair_inv_def ref cand using new
    by (simp add: side_open_def newIngressPair_def ingress_start_def)
  show "is_reference ?s' \<inter> is_candidate ?s' = {}" using assms by (auto simp: ingress_inv_def)
  show "e' \<in> is_reference ?s' \<union> is_candidate ?s'" if "ip_exchanges (is_pairs ?s') e' = Some j" for e' j
    using that assms(1) by (auto simp: ingress_start_def ingress_inv_def split: if_splits)
  show "issued (is_reference ?s') (ip_exchanges (is_pairs ?s')) j = issued (is_reference s) (ip_exchanges (is_pairs s)) j" if "j \<noteq> i" for j
    using that free by (auto simp: issued_def ingress_start_def)
  show "issued (is_candidate ?s') (ip_exchanges (is_pairs ?s')) j = issued (is_candidate s) (ip_exchanges (is_pairs s)) j" if "j \<noteq> i" for j
    using that free by (auto simp: issued_def ingress_start_def)
qed (auto simp: ingress_start_def)

lemma inv_join:
  assumes "ingress_inv s" "e \<notin> is_reference s \<union> is_candidate s"
    "ingress_join (is_pairs s) e protocol route r = (Inr decision, t)"
  shows "ingress_inv (s\<lparr>is_pairs := t, is_candidate := insert e (is_candidate s)\<rparr>)" (is "ingress_inv ?s'")
proof -
  obtain i p where i: "r = Some i" "i \<in> ip_requests (is_pairs s)" "pair_join (the (ip_heap (is_pairs s) i)) protocol = Inr p"
    "t = (is_pairs s)\<lparr>ip_heap := (ip_heap (is_pairs s))(i \<mapsto> p), ip_exchanges := (ip_exchanges (is_pairs s))(e \<mapsto> i)\<rparr>"
    using assms(3) by (auto simp: ingress_join_def ingress_admit_def split: option.splits if_splits sum.splits prod.splits)
  obtain q where q: "ip_heap (is_pairs s) i = Some q" "pair_inv s i q"
    using i(2) assms(1) by (cases "ip_heap (is_pairs s) i") (auto simp: ingress_inv_def)
  have p: "p = q\<lparr>pa_joined := True\<rparr>" "\<not> pa_joined q"
    using i(3) q(1) by (auto simp: pair_join_def split: if_splits)
  have free: "ip_exchanges (is_pairs s) e = None" using assms(1,2) by (auto simp: ingress_inv_def)
  show ?thesis
  proof (rule ingress_invI [OF assms(1), where i = i and p = p])
    have none: "issued (is_candidate s) (ip_exchanges (is_pairs s)) i = {}" "is_comparing s i = None" "\<not> pa_candidate_done q"
      using q(2) p(2) by (auto simp: pair_inv_def side_open_def)
    have ref: "issued (is_reference ?s') (ip_exchanges (is_pairs ?s')) i = issued (is_reference s) (ip_exchanges (is_pairs s)) i"
      using assms(2) by (auto simp: issued_def i(4))
    have cand: "issued (is_candidate ?s') (ip_exchanges (is_pairs ?s')) i = {e}"
      using none(1) by (auto simp: issued_def i(4))
    show "pair_inv ?s' i p"
      unfolding pair_inv_def ref cand using q(2) none i(2) p
      by (auto simp: pair_inv_def side_open_def i(4))
    show "is_reference ?s' \<inter> is_candidate ?s' = {}" using assms by (auto simp: ingress_inv_def)
    show "e' \<in> is_reference ?s' \<union> is_candidate ?s'" if "ip_exchanges (is_pairs ?s') e' = Some j" for e' j
      using that assms(1) by (auto simp: i(4) ingress_inv_def split: if_splits)
    show "issued (is_reference ?s') (ip_exchanges (is_pairs ?s')) j = issued (is_reference s) (ip_exchanges (is_pairs s)) j" if "j \<noteq> i" for j
      using that free by (auto simp: issued_def i(4))
    show "issued (is_candidate ?s') (ip_exchanges (is_pairs ?s')) j = issued (is_candidate s) (ip_exchanges (is_pairs s)) j" if "j \<noteq> i" for j
      using that free by (auto simp: issued_def i(4))
  qed (auto simp: i(4))
qed

lemma inv_refuse:
  assumes "ingress_inv s" "ingress_join (is_pairs s) e protocol route r = (Inl err, t)"
  shows "ingress_inv (s\<lparr>is_pairs := t\<rparr>)"
proof -
  obtain reason where t: "t = Quarantine_call reason (is_pairs s)"
    using assms(2) by (auto simp: ingress_join_def ingress_admit_def split: option.splits if_splits sum.splits prod.splits)
  then have "pair_inv s i p \<Longrightarrow> pair_inv (s\<lparr>is_pairs := t\<rparr>) i p" for i p
    by (rule_tac pair_inv_frame) (auto simp: issued_def)
  with assms(1) t show ?thesis by (simp add: ingress_inv_def)
qed

lemma inv_unknown:
  assumes "ingress_inv s" "ingress_take (is_pairs s) e = (None, t)"
  shows "ingress_inv (s\<lparr>is_pairs := Release raws t\<rparr>)"
proof -
  have t: "t = is_pairs s" using assms(2) by (auto simp: ingress_take_def split: option.splits)
  then have "pair_inv s i p \<Longrightarrow> pair_inv (s\<lparr>is_pairs := Release raws t\<rparr>) i p" for i p
    by (rule_tac pair_inv_frame) (auto simp: issued_def)
  with assms(1) t show ?thesis by (simp add: ingress_inv_def)
qed

lemma issued_take: "issued es (exchanges(e := None)) j = issued es exchanges j - {e}"
  by (auto simp: issued_def)

lemma issued_other: "exchanges e = Some i \<Longrightarrow> j \<noteq> i \<Longrightarrow> issued es exchanges j - {e} = issued es exchanges j"
  by (auto simp: issued_def)

lemma take_Some:
  assumes "ingress_take t e = (Some i, t')"
  shows "ip_exchanges t e = Some i" "t' = t\<lparr>ip_exchanges := (ip_exchanges t)(e := None)\<rparr>"
  using assms by (auto simp: ingress_take_def split: option.splits)

lemma side_take: "side_open es held side \<Longrightarrow> e \<in> es \<Longrightarrow> side_open (es - {e}) True side"
  unfolding side_open_def by blast

lemma side_close: "side_open es True side \<Longrightarrow> side_open es False False"
  unfolding side_open_def by blast

lemma inv_reference:
  assumes "ingress_inv s" "e \<in> is_reference s" "ingress_take (is_pairs s) e = (Some i, t)"
  shows "ingress_inv (s\<lparr>is_pairs := t, is_publishing := (is_publishing s)(i \<mapsto> oc)\<rparr>)" (is "ingress_inv ?s'")
proof -
  note take = take_Some [OF assms(3)]
  obtain p where p: "ip_heap (is_pairs s) i = Some p" "pair_inv s i p"
    using ingress_inv_exchange [OF assms(1) take(1)] by blast
  have not_cand: "e \<notin> is_candidate s" using assms(1,2) by (auto simp: ingress_inv_def)
  have e: "e \<in> issued (is_reference s) (ip_exchanges (is_pairs s)) i" "e \<notin> issued (is_candidate s) (ip_exchanges (is_pairs s)) i"
    using assms(2) take(1) not_cand by (auto simp: issued_def)
  show ?thesis
  proof (rule ingress_invI [OF assms(1), where i = i and p = p])
    have "side_open (issued (is_reference s) (ip_exchanges (is_pairs s)) i - {e}) True (Future_Get (pa_outcome p) = None)"
      by (rule side_take [OF pair_inv_reference [OF p(2)] e(1)])
    with p(2) e(2) show "pair_inv ?s' i p" unfolding pair_inv_def by (simp add: take(2) issued_take)
  qed (use p assms(1) take in \<open>auto simp: issued_take issued_other ingress_inv_def split: if_splits\<close>)
qed

lemma inv_candidate:
  assumes "ingress_inv s" "e \<in> is_candidate s" "ingress_take (is_pairs s) e = (Some i, t)"
  shows "ingress_inv (s\<lparr>is_pairs := t, is_comparing := (is_comparing s)(i \<mapsto> raws)\<rparr>)" (is "ingress_inv ?s'")
proof -
  note take = take_Some [OF assms(3)]
  obtain p where p: "ip_heap (is_pairs s) i = Some p" "pair_inv s i p"
    using ingress_inv_exchange [OF assms(1) take(1)] by blast
  have not_ref: "e \<notin> is_reference s" using assms(1,2) by (auto simp: ingress_inv_def)
  have e: "e \<in> issued (is_candidate s) (ip_exchanges (is_pairs s)) i" "e \<notin> issued (is_reference s) (ip_exchanges (is_pairs s)) i"
    using assms(2) take(1) not_ref by (auto simp: issued_def)
  show ?thesis
  proof (rule ingress_invI [OF assms(1), where i = i and p = p])
    have "side_open (issued (is_candidate s) (ip_exchanges (is_pairs s)) i - {e}) True (pa_joined p \<and> \<not> pa_candidate_done p)"
      by (rule side_take [OF pair_inv_candidate [OF p(2)] e(1)])
    with p(2) e(2) show "pair_inv ?s' i p" unfolding pair_inv_def by (simp add: take(2) issued_take)
  qed (use p assms(1) take in \<open>auto simp: issued_take issued_other ingress_inv_def split: if_splits\<close>)
qed

lemma publish_pair:
  assumes "Future_Get (pa_outcome q) = None"
  obtains p where "pair_finishReference q oc = (pa_candidate_done q \<or> \<not> pa_joined q, p,
      if pa_candidate_done q \<or> \<not> pa_joined q then releaseReference p else [])"
    "pa_id p = pa_id q" "pa_joined p = pa_joined q" "pa_candidate_done p = pa_candidate_done q"
    "Future_Get (pa_outcome p) = Some oc"
proof -
  obtain f where f: "Future_Set (pa_outcome q) oc = (True, f)" "Future_Get f = Some oc"
    using assms by (simp add: Future_Set_def Future_Get_def)
  then show thesis by (intro that [of "q\<lparr>pa_outcome := f\<rparr>"]) (simp_all add: pair_finishReference_def Let_def)
qed

lemma inv_publish:
  assumes "ingress_inv s" "is_publishing s i = Some oc"
  shows "ingress_inv (s\<lparr>is_pairs := publishReference (is_pairs s) i oc, is_publishing := (is_publishing s)(i := None)\<rparr>)"
    (is "ingress_inv ?s'")
proof -
  obtain q where q: "ip_heap (is_pairs s) i = Some q" "pair_inv s i q"
    using assms by (cases "ip_heap (is_pairs s) i") (auto simp: ingress_inv_def)
  then have open_ref: "Future_Get (pa_outcome q) = None" "issued (is_reference s) (ip_exchanges (is_pairs s)) i = {}"
    using assms(2) by (auto simp: pair_inv_def side_open_def)
  obtain p where p: "pair_finishReference q oc = (pa_candidate_done q \<or> \<not> pa_joined q, p,
      if pa_candidate_done q \<or> \<not> pa_joined q then releaseReference p else [])"
    "pa_id p = pa_id q" "pa_joined p = pa_joined q" "pa_candidate_done p = pa_candidate_done q"
    "Future_Get (pa_outcome p) = Some oc"
    using publish_pair [OF open_ref(1)] by blast
  have i: "pa_id q = i" using q(2) by (simp add: pair_inv_def)
  show ?thesis
  proof (rule ingress_invI [OF assms(1), where i = i and p = p])
    have "side_open (issued (is_reference s) (ip_exchanges (is_pairs s)) i) False False"
      by (rule side_close [of _ "Future_Get (pa_outcome q) = None"]) (use q(2) assms(2) in \<open>simp add: pair_inv_def\<close>)
    then show "pair_inv ?s' i p"
      using q p i open_ref(1) unfolding pair_inv_def
      by (auto simp: publishReference_def)
  qed (use q p i assms(1) in \<open>auto simp: publishReference_def ingress_inv_def split: if_splits\<close>)
qed

lemma inv_conclude:
  assumes "ingress_inv s" "is_comparing s i = Some raws"
  shows "ingress_inv (s\<lparr>is_pairs := Release raws (conclude (is_pairs s) i verdict), is_comparing := (is_comparing s)(i := None)\<rparr>)"
    (is "ingress_inv ?s'")
proof -
  obtain q where q: "ip_heap (is_pairs s) i = Some q" "pair_inv s i q"
    using assms by (cases "ip_heap (is_pairs s) i") (auto simp: ingress_inv_def)
  then have held: "pa_joined q" "issued (is_candidate s) (ip_exchanges (is_pairs s)) i = {}" "pa_id q = i"
    using assms(2) by (auto simp: pair_inv_def side_open_def)
  have "\<exists>quarantined. conclude (is_pairs s) i verdict =
      (is_pairs s)\<lparr>ip_heap := (ip_heap (is_pairs s))(i \<mapsto> q\<lparr>pa_candidate_done := True\<rparr>),
        ip_requests := ip_requests (is_pairs s) - {i}, ip_quarantined := quarantined,
        ip_released := ip_released (is_pairs s) @ releaseReference (q\<lparr>pa_candidate_done := True\<rparr>)\<rparr>"
  proof -
    have "\<exists>quarantined. (case verdict of Some outcome \<Rightarrow> report (is_pairs s) (the (ip_heap (is_pairs s) i)) outcome
        | None \<Rightarrow> is_pairs s) = (is_pairs s)\<lparr>ip_quarantined := quarantined\<rparr>"
    proof (cases verdict)
      case None
      then show ?thesis by (intro exI [of _ "ip_quarantined (is_pairs s)"]) simp
    next
      case (Some outcome)
      show ?thesis
      proof (cases "cr_outcome outcome \<in> {outcomeEquivalent, outcomeSkipped}")
        case True
        with Some show ?thesis
          by (intro exI [of _ "ip_quarantined (is_pairs s)"]) (auto simp: report_def)
      next
        case False
        with Some show ?thesis by (cases "cr_outcome outcome") (auto simp: report_def)
      qed
    qed
    then obtain quarantined where "(case verdict of Some outcome \<Rightarrow> report (is_pairs s) (the (ip_heap (is_pairs s) i)) outcome
        | None \<Rightarrow> is_pairs s) = (is_pairs s)\<lparr>ip_quarantined := quarantined\<rparr>" ..
    with q(1) held(3) show ?thesis
      by (intro exI [of _ quarantined])
        (simp add: conclude_def ingress_finishCandidate_def pair_finishCandidate_def Let_def)
  qed
  then obtain quarantined where c: "conclude (is_pairs s) i verdict =
      (is_pairs s)\<lparr>ip_heap := (ip_heap (is_pairs s))(i \<mapsto> q\<lparr>pa_candidate_done := True\<rparr>),
        ip_requests := ip_requests (is_pairs s) - {i}, ip_quarantined := quarantined,
        ip_released := ip_released (is_pairs s) @ releaseReference (q\<lparr>pa_candidate_done := True\<rparr>)\<rparr>" ..
  show ?thesis
  proof (rule ingress_invI [OF assms(1), where i = i and p = "q\<lparr>pa_candidate_done := True\<rparr>"])
    have "side_open (issued (is_candidate s) (ip_exchanges (is_pairs s)) i) False False"
      by (rule side_close [of _ "pa_joined q \<and> \<not> pa_candidate_done q"]) (use q(2) assms(2) in \<open>simp add: pair_inv_def\<close>)
    then show "pair_inv ?s' i (q\<lparr>pa_candidate_done := True\<rparr>)"
      using q held unfolding pair_inv_def by (simp add: c subset_iff)
  qed (use q assms(1) in \<open>auto simp: c ingress_inv_def split: if_splits\<close>)
qed

interpretation ingress: invariant_system ingress_init ingress_step ingress_inv
proof
  show "ingress_inv ingress_init"
    by (simp add: ingress_inv_def ingress_init_def newIngressPairs_def)
  show "ingress_step s t \<Longrightarrow> ingress_inv s \<Longrightarrow> ingress_inv t" for s t
    by (induction rule: ingress_step.induct)
      (blast intro: inv_start inv_join inv_refuse inv_reference inv_publish inv_candidate inv_conclude inv_unknown)+
qed


lemmas ingress_reach_step = reach_step [where init = ingress_init and step = ingress_step]
lemmas ingress_reach_init = reach_init [of ingress_init ingress_step]

lemma reach_one_pair:
  "\<exists>s. reach ingress_init ingress_step s \<and> is_pairs s = one_pair \<and> is_candidate s = {''e2''} \<and> is_reference s = {''e1''}
     \<and> is_publishing s = Map.empty \<and> is_comparing s = Map.empty"
proof -
  let ?t1 = "snd (ingress_start newIngressPairs ''r1'' ''e1'' ProtocolHTTP ''GET /'' None)"
  let ?s1 = "ingress_init\<lparr>is_pairs := ?t1, is_reference := {''e1''}\<rparr>"
  have "ingress_step ingress_init ?s1"
    using step_start [of ingress_init "''r1''" "''e1''" ProtocolHTTP "''GET /''" None]
    by (simp add: ingress_init_def newIngressPairs_def)
  then have r1: "reach ingress_init ingress_step ?s1" by (rule ingress_reach_step [OF ingress_reach_init])
  have "ingress_join ?t1 ''e2'' ProtocolHTTP ''GET /'' (Some ''r1'') = (Inr (DecisionForward (Some ''r1'') ''e2''), one_pair)"
    by (simp add: one_pair_unfold ingress_join_def ingress_admit_def ingress_start_def newIngressPairs_def pair_join_def
        newIngressPair_def)
  then have "ingress_step ?s1 (?s1\<lparr>is_pairs := one_pair, is_candidate := {''e2''}\<rparr>)"
    using step_join [of "''e2''" ?s1 ProtocolHTTP "''GET /''" "Some ''r1''" "DecisionForward (Some ''r1'') ''e2''" one_pair]
    by (simp add: ingress_init_def)
  from ingress_reach_step [OF r1 this] show ?thesis
    by (intro exI [of _ "?s1\<lparr>is_pairs := one_pair, is_candidate := {''e2''}\<rparr>"]) (simp add: ingress_init_def)
qed




end
