(* ===== verification/Egress_Queue.thy ===== *)
theory Egress_Queue
  imports Ingress_Pairs Candidate_Admission
begin

text \<open>
  \<open>internal/protocol/egress.go\<close>: candidate dependency requests are answered with the responses of
  equivalent reference requests, paired by hash in arrival order.

  Exchanges and waiters are shared objects: they are addresses into the stores \<open>eq_pendings\<close> and
  \<open>eq_waiters\<close>. A waiter's channel has one slot, so sending to a full one blocks (\<open>None\<close>), and
  closing a closed channel panics (\<open>Inl\<close>). Arrival numbers are 64-bit words. Each definition is
  one critical section of the code; handlers interleave between them.
\<close>

subsection \<open>Exchanges and waiters\<close>

type_synonym pending = nat
type_synonym waiter = nat

record egress_outcome =
  eo_raw :: "raw option"
  eo_failure :: "string option"

text \<open>The expiry timer, once there is one: whether it is still running.\<close>

record egress_exchange =
  ee_arrival :: u64
  ee_outcome :: "egress_outcome future"
  ee_abandoned :: bool
  ee_expiry :: "bool option"

definition newEgressExchange :: "u64 \<Rightarrow> egress_exchange" where
  "newEgressExchange arrival =
     \<lparr>ee_arrival = arrival, ee_outcome = New_Future, ee_abandoned = False, ee_expiry = None\<rparr>"

record egress_waiter =
  ew_arrival :: u64
  ew_ready :: "pending list"

definition newEgressWaiter :: "u64 \<Rightarrow> egress_waiter" where
  "newEgressWaiter arrival = \<lparr>ew_arrival = arrival, ew_ready = []\<rparr>"

definition deliver :: "egress_waiter \<Rightarrow> pending \<Rightarrow> egress_waiter option" where
  "deliver w p = (if length (ew_ready w) \<ge> 1 then None else Some (w\<lparr>ew_ready := ew_ready w @ [p]\<rparr>))"

definition expireAfter :: "egress_exchange \<Rightarrow> egress_exchange" where
  "expireAfter e = e\<lparr>ee_expiry := Some True\<rparr>"

definition stopExpiry :: "egress_exchange \<Rightarrow> egress_exchange" where
  "stopExpiry e = (case ee_expiry e of Some _ \<Rightarrow> e\<lparr>ee_expiry := Some False\<rparr> | None \<Rightarrow> e)"

text \<open>What \<open>release\<close> frees: the recorded response, if there is one yet.\<close>

definition exchange_release :: "egress_exchange \<Rightarrow> raw list" where
  "exchange_release e =
     (case Future_Get (ee_outcome e) of
        None \<Rightarrow> []
      | Some oc \<Rightarrow> (case eo_raw oc of Some raw \<Rightarrow> [raw] | None \<Rightarrow> []))"

definition exchange_finish :: "egress_exchange \<Rightarrow> raw option \<Rightarrow> string option \<Rightarrow> egress_exchange \<times> raw list" where
  "exchange_finish e raw failure =
     (let e' = e\<lparr>ee_outcome := snd (Future_Set (ee_outcome e) \<lparr>eo_raw = raw, eo_failure = failure\<rparr>)\<rparr>
      in (e', if ee_abandoned e' then exchange_release e' else []))"

definition exchange_abandon :: "egress_exchange \<Rightarrow> egress_exchange \<times> raw list" where
  "exchange_abandon e = (let e' = e\<lparr>ee_abandoned := True\<rparr> in (e', exchange_release e'))"

text \<open>
  \<open>wait\<close>: \<open>None\<close> while the response is outstanding, else the outcome, the exchange, which a wait
  that its context cut short abandons, and what that releases.
\<close>

definition exchange_wait :: "egress_exchange \<Rightarrow> string option \<Rightarrow> bool \<Rightarrow> (raw result \<times> egress_exchange \<times> raw list) option" where
  "exchange_wait e ctx prefer =
     (case Future_Wait (ee_outcome e) ctx prefer of
        None \<Rightarrow> None
      | Some (Inl err) \<Rightarrow> Some (Inl (wrap ''wait for reference response'' err), exchange_abandon e)
      | Some (Inr oc) \<Rightarrow>
          Some ((case eo_failure oc of
                   Some failure \<Rightarrow> Inl (wrap ''reference response cannot be replayed'' failure)
                 | None \<Rightarrow> (case eo_raw oc of Some raw \<Rightarrow> Inr raw | None \<Rightarrow> Inl ''reference response is missing'')),
                e, []))"

subsection \<open>The queue\<close>

record 'h egress_queue =
  eq_window :: duration
  eq_arrivals :: u64
  eq_hashing :: int
  eq_idle :: chan
  eq_closed :: "chan list"
  eq_next :: chan
  eq_exchanges :: "exchange \<rightharpoonup> pending"
  eq_unused :: "'h \<rightharpoonup> pending list"
  eq_waiting :: "'h \<rightharpoonup> waiter list"
  eq_pendings :: "pending \<rightharpoonup> egress_exchange"
  eq_waiters :: "waiter \<rightharpoonup> egress_waiter"
  eq_quarantined :: "quarantine_reason list"
  eq_released :: "raw list"

definition newEgressQueue :: "duration \<Rightarrow> 'h egress_queue" where
  "newEgressQueue window =
     \<lparr>eq_window = window, eq_arrivals = 0, eq_hashing = 0, eq_idle = 0, eq_closed = [0], eq_next = 1,
      eq_exchanges = Map.empty, eq_unused = Map.empty, eq_waiting = Map.empty, eq_pendings = Map.empty,
      eq_waiters = Map.empty, eq_quarantined = [], eq_released = []\<rparr>"

text \<open>A missing key of a Go map of slices reads as the empty slice.\<close>

definition queue_at :: "('h \<rightharpoonup> 'a list) \<Rightarrow> 'h \<Rightarrow> 'a list" where
  "queue_at m h = (case m h of Some xs \<Rightarrow> xs | None \<Rightarrow> [])"

definition set_queue :: "('h \<rightharpoonup> 'a list) \<Rightarrow> 'h \<Rightarrow> 'a list \<Rightarrow> ('h \<rightharpoonup> 'a list)" where
  "set_queue m h xs = (if length xs = 0 then m(h := None) else m(h \<mapsto> xs))"

definition setUnused :: "'h egress_queue \<Rightarrow> 'h \<Rightarrow> pending list \<Rightarrow> 'h egress_queue" where
  "setUnused q h ps = q\<lparr>eq_unused := set_queue (eq_unused q) h ps\<rparr>"

definition setWaiting :: "'h egress_queue \<Rightarrow> 'h \<Rightarrow> waiter list \<Rightarrow> 'h egress_queue" where
  "setWaiting q h ws = q\<lparr>eq_waiting := set_queue (eq_waiting q) h ws\<rparr>"

text \<open>\<open>slices.BinarySearchFunc\<close>: the first index whose element does not come before the key.\<close>

function binary_search :: "('a \<Rightarrow> u64) \<Rightarrow> 'a list \<Rightarrow> u64 \<Rightarrow> nat \<Rightarrow> nat \<Rightarrow> nat" where
  "binary_search arrived queue arrival i j =
     (if i < j then
        (let h = (i + j) div 2 in
         if arrived (queue ! h) < arrival then binary_search arrived queue arrival (h + 1) j
         else binary_search arrived queue arrival i h)
      else i)"
  by pat_completeness auto
termination
  by (relation "measure (\<lambda>(arrived, queue, arrival, i, j). j - i)") auto

definition insertByArrival :: "('a \<Rightarrow> u64) \<Rightarrow> 'a list \<Rightarrow> 'a \<Rightarrow> 'a list" where
  "insertByArrival arrived queue item =
     (let index = binary_search arrived queue (arrived item) 0 (length queue)
      in take index queue @ item # drop index queue)"

definition pending_arrived :: "'h egress_queue \<Rightarrow> pending \<Rightarrow> u64" where
  "pending_arrived q p = ee_arrival (the (eq_pendings q p))"

definition waiter_arrived :: "'h egress_queue \<Rightarrow> waiter \<Rightarrow> u64" where
  "waiter_arrived q w = ew_arrival (the (eq_waiters q w))"

definition startHashing :: "'h egress_queue \<Rightarrow> 'h egress_queue" where
  "startHashing q =
     (let q' = (if eq_hashing q = 0 then q\<lparr>eq_idle := eq_next q, eq_next := eq_next q + 1\<rparr> else q)
      in q'\<lparr>eq_hashing := eq_hashing q' + 1\<rparr>)"

definition finishHashing :: "'h egress_queue \<Rightarrow> 'h egress_queue result" where
  "finishHashing q =
     (let q' = q\<lparr>eq_hashing := eq_hashing q - 1\<rparr> in
      if eq_hashing q' = 0 then
        (if eq_idle q' \<in> set (eq_closed q') then Inl ''close of closed channel''
         else Inr (q'\<lparr>eq_closed := eq_idle q' # eq_closed q'\<rparr>))
      else Inr q')"

definition arrive :: "'h egress_queue \<Rightarrow> u64 \<times> 'h egress_queue" where
  "arrive q = (eq_arrivals q + 1, q\<lparr>eq_arrivals := eq_arrivals q + 1\<rparr>)"

text \<open>\<open>shutdown\<close> reads the channel under the lock and then waits on it.\<close>

definition shutdown_wait :: "'h egress_queue \<Rightarrow> chan \<Rightarrow> string option \<Rightarrow> bool \<Rightarrow> unit result option" where
  "shutdown_wait q idle ctx prefer =
     (if idle \<in> set (eq_closed q) \<and> (prefer \<or> ctx = None) then Some (Inr ())
      else case ctx of Some err \<Rightarrow> Some (Inl (wrap ''wait for reference hashing'' err)) | None \<Rightarrow> None)"

definition egress_hash :: "(rat \<Rightarrow> string) \<Rightarrow> (string \<Rightarrow> 'h) \<Rightarrow> scripts \<Rightarrow> 'js created \<Rightarrow> protocol \<Rightarrow> route
    \<Rightarrow> message result \<Rightarrow> 'h result" where
  "egress_hash num sha256 s created protocol route request =
     bind_result request (\<lambda>m. Hash num sha256 s created (protocol @ '' '' @ route) (ms_type m) (ms_value m))"

definition egressReason :: "quarantine_kind \<Rightarrow> protocol \<Rightarrow> route \<Rightarrow> string \<Rightarrow> quarantine_reason" where
  "egressReason kind protocol route err =
     plain_reason kind (Some \<lparr>tr_direction = Egress, tr_protocol = protocol, tr_route = route\<rparr>) err"

definition egress_Quarantine :: "'h egress_queue \<Rightarrow> quarantine_reason \<Rightarrow> 'h egress_queue" where
  "egress_Quarantine q reason = q\<lparr>eq_quarantined := eq_quarantined q @ [reason]\<rparr>"

definition set_pending :: "'h egress_queue \<Rightarrow> pending \<Rightarrow> egress_exchange \<Rightarrow> raw list \<Rightarrow> 'h egress_queue" where
  "set_pending q p e raws = q\<lparr>eq_pendings := (eq_pendings q)(p \<mapsto> e), eq_released := eq_released q @ raws\<rparr>"

definition abandon :: "'h egress_queue \<Rightarrow> pending \<Rightarrow> 'h egress_queue" where
  "abandon q p = (case exchange_abandon (the (eq_pendings q p)) of (e, raws) \<Rightarrow> set_pending q p e raws)"

definition finish :: "'h egress_queue \<Rightarrow> pending \<Rightarrow> raw option \<Rightarrow> string option \<Rightarrow> 'h egress_queue" where
  "finish q p raw failure =
     (case exchange_finish (the (eq_pendings q p)) raw failure of (e, raws) \<Rightarrow> set_pending q p e raws)"

text \<open>The critical section of \<open>forward\<close>; the exchange and the object are new.\<close>

definition forward :: "'h egress_queue \<Rightarrow> exchange \<Rightarrow> pending \<Rightarrow> decision \<times> 'h egress_queue" where
  "forward q exchange p =
     (let q' = q\<lparr>eq_arrivals := eq_arrivals q + 1\<rparr>
      in (DecisionForward None exchange,
          startHashing (q'\<lparr>eq_pendings := (eq_pendings q')(p \<mapsto> newEgressExchange (eq_arrivals q')),
            eq_exchanges := (eq_exchanges q')(exchange \<mapsto> p)\<rparr>)))"

definition add :: "'h egress_queue \<Rightarrow> 'h \<Rightarrow> pending \<Rightarrow> 'h egress_queue option" where
  "add q h p =
     (case queue_at (eq_waiting q) h of
        w # ws \<Rightarrow>
          (case deliver (the (eq_waiters q w)) p of
             None \<Rightarrow> None
           | Some waiter \<Rightarrow>
               Some ((setWaiting q h ws)\<lparr>eq_waiters := (eq_waiters q)(w \<mapsto> waiter)\<rparr>))
      | [] \<Rightarrow>
          Some (q\<lparr>eq_unused := (eq_unused q)(h \<mapsto> insertByArrival (pending_arrived q) (queue_at (eq_unused q) h) p),
                  eq_pendings := (eq_pendings q)(p \<mapsto> expireAfter (the (eq_pendings q p)))\<rparr>))"

text \<open>The background goroutine of \<open>forward\<close>, before its deferred \<open>finishHashing\<close>.\<close>

definition forward_hashed :: "'h egress_queue \<Rightarrow> pending \<Rightarrow> protocol \<Rightarrow> route \<Rightarrow> 'h result \<Rightarrow> 'h egress_queue option" where
  "forward_hashed q p protocol route hash =
     (case hash of
        Inl err \<Rightarrow>
          Some (egress_Quarantine (abandon q p)
            (egressReason QuarantineUnable protocol route (wrap ''identify reference request'' err)))
      | Inr h \<Rightarrow> add q h p)"

text \<open>The first critical section of \<open>claim\<close>: an unused reference, or a place among the waiters.\<close>

definition claim_start :: "'h egress_queue \<Rightarrow> 'h \<Rightarrow> waiter \<Rightarrow> pending option \<times> 'h egress_queue" where
  "claim_start q h w =
     (case queue_at (eq_unused q) h of
        p # ps \<Rightarrow>
          (Some p, (setUnused q h ps)\<lparr>eq_pendings := (eq_pendings q)(p \<mapsto> stopExpiry (the (eq_pendings q p)))\<rparr>)
      | [] \<Rightarrow>
          (None, q\<lparr>eq_waiting := (eq_waiting q)(h \<mapsto> insertByArrival (waiter_arrived q) (queue_at (eq_waiting q) h) w)\<rparr>))"

definition claim_receive :: "'h egress_queue \<Rightarrow> waiter \<Rightarrow> (pending \<times> 'h egress_queue) option" where
  "claim_receive q w =
     (case ew_ready (the (eq_waiters q w)) of
        [] \<Rightarrow> None
      | p # ps \<Rightarrow> Some (p, q\<lparr>eq_waiters := (eq_waiters q)(w \<mapsto> (the (eq_waiters q w))\<lparr>ew_ready := ps\<rparr>)\<rparr>))"

text \<open>
  The second critical section, after the window or the context ended the wait: whether the waiter
  was still queued. If not, a reference is on its way and the claim receives it.
\<close>

definition claim_giveup :: "'h egress_queue \<Rightarrow> 'h \<Rightarrow> waiter \<Rightarrow> bool \<times> 'h egress_queue" where
  "claim_giveup q h w =
     (let waiters = queue_at (eq_waiting q) h in
      if w \<in> set waiters then (True, setWaiting q h (remove1 w waiters)) else (False, q))"

definition expire :: "'h egress_queue \<Rightarrow> 'h \<Rightarrow> pending \<Rightarrow> 'h egress_queue" where
  "expire q h p =
     (let unused = queue_at (eq_unused q) h in
      if p \<in> set unused then abandon (setUnused q h (remove1 p unused)) p else q)"

definition egress_take :: "'h egress_queue \<Rightarrow> exchange \<Rightarrow> pending option \<times> 'h egress_queue" where
  "egress_take q exchange =
     (case eq_exchanges q exchange of
        None \<Rightarrow> (None, q)
      | Some p \<Rightarrow> (Some p, q\<lparr>eq_exchanges := (eq_exchanges q)(exchange := None)\<rparr>))"

subsection \<open>Answering a candidate\<close>

text \<open>How a claim that was still queued fails; the text of the window is an argument.\<close>

definition claim_error :: "(duration \<Rightarrow> string) \<Rightarrow> 'h egress_queue \<Rightarrow> string option \<Rightarrow> string" where
  "claim_error duration_text q ctx =
     (case ctx of
        None \<Rightarrow> ''no matching reference request within '' @ duration_text (eq_window q)
      | Some err \<Rightarrow> wrap ''wait for matching reference request'' err)"

text \<open>
  \<open>match\<close> over the results of its three stages, each of which runs only when the one before
  succeeded: hashing the request, claiming a reference and waiting for its response.
\<close>

definition match_stages :: "'h result \<Rightarrow> pending result \<Rightarrow> raw result \<Rightarrow> (quarantine_kind \<times> string) + raw" where
  "match_stages hash claimed waited =
     (case hash of
        Inl err \<Rightarrow> Inl (QuarantineUnable, wrap ''identify candidate request'' err)
      | Inr _ \<Rightarrow>
          (case claimed of
             Inl err \<Rightarrow> Inl (QuarantineUnmatched, err)
           | Inr _ \<Rightarrow> (case waited of Inl err \<Rightarrow> Inl (QuarantineUnable, err) | Inr raw \<Rightarrow> Inr raw)))"

definition intercept :: "'h egress_queue \<Rightarrow> protocol \<Rightarrow> route \<Rightarrow> (quarantine_kind \<times> string) + raw \<Rightarrow> string option
    \<Rightarrow> decision result \<times> 'h egress_queue" where
  "intercept q protocol route matched ctx =
     (case matched of
        Inl (kind, err) \<Rightarrow>
          (Inl err, if ctx = None then egress_Quarantine q (egressReason kind protocol route err) else q)
      | Inr raw \<Rightarrow> (Inr (DecisionIntercept raw), q))"

text \<open>The responses of the reference, and those that a server reports for a candidate by mistake.\<close>

definition egress_reference_response :: "'h egress_queue \<Rightarrow> exchange \<Rightarrow> response \<Rightarrow> 'h egress_queue" where
  "egress_reference_response q exchange response =
     (case egress_take q exchange of
        (None, q') \<Rightarrow> q'\<lparr>eq_released := eq_released q' @ [rs_raw response]\<rparr>
      | (Some p, q') \<Rightarrow> finish q' p (Some (rs_raw response)) None)"

definition egress_reference_unable :: "'h egress_queue \<Rightarrow> exchange \<Rightarrow> string \<Rightarrow> 'h egress_queue" where
  "egress_reference_unable q exchange reason =
     (case egress_take q exchange of (None, q') \<Rightarrow> q' | (Some p, q') \<Rightarrow> finish q' p None (Some reason))"

definition egress_candidate_response :: "'h egress_queue \<Rightarrow> response \<Rightarrow> 'h egress_queue" where
  "egress_candidate_response q response = q\<lparr>eq_released := eq_released q @ [rs_raw response]\<rparr>"

text \<open>
  Candidate requests never reach a dependency: the decision for one is a recorded response or
  an error, never to forward it, and every error quarantines the candidate unless its own context
  had ended, which explains it.
\<close>

theorem candidate_never_forwarded:
  "case intercept q protocol route matched ctx of
     (Inr decision, q') \<Rightarrow> (\<exists>raw. decision = DecisionIntercept raw \<and> matched = Inr raw) \<and> q' = q
   | (Inl err, q') \<Rightarrow>
       (\<exists>kind. matched = Inl (kind, err)
          \<and> eq_quarantined q' = eq_quarantined q @ (if ctx = None then [egressReason kind protocol route err] else []))"
  by (auto simp: intercept_def egress_Quarantine_def split: sum.splits prod.splits)

subsection \<open>Insertion by arrival\<close>

declare binary_search.simps [simp del]

lemma binary_search_correct:
  assumes "sorted (map arrived queue)" "i \<le> j" "j \<le> length queue"
    and "\<And>k. k < i \<Longrightarrow> arrived (queue ! k) < a"
    and "\<And>k. j \<le> k \<Longrightarrow> k < length queue \<Longrightarrow> a \<le> arrived (queue ! k)"
  shows "let r = binary_search arrived queue a i j in
    r \<le> length queue \<and> (\<forall>k < r. arrived (queue ! k) < a) \<and> (\<forall>k. r \<le> k \<longrightarrow> k < length queue \<longrightarrow> a \<le> arrived (queue ! k))"
  using assms
proof (induction arrived queue a i j rule: binary_search.induct)
  case (1 arrived queue a i j)
  show ?case
  proof (cases "i < j")
    case False
    then have "binary_search arrived queue a i j = i" by (subst binary_search.simps) simp
    with False "1.prems" show ?thesis by (auto simp: Let_def)
  next
    case True
    let ?h = "(i + j) div 2"
    have h: "i \<le> ?h" "?h < j" using True by auto
    have mono: "arrived (queue ! k) \<le> arrived (queue ! l)" if "k \<le> l" "l < length queue" for k l
      using sorted_nth_mono [OF "1.prems"(1), of k l] that by simp
    show ?thesis
    proof (cases "arrived (queue ! ?h) < a")
      case less: True
      have "arrived (queue ! k) < a" if "k < ?h + 1" for k
        using mono [of k ?h] that less h "1.prems"(3) by (simp add: order_le_less_trans)
      with "1.IH"(1) [OF True refl less] "1.prems" h show ?thesis
        by (subst binary_search.simps) (simp add: True less Let_def)
    next
      case False
      have "a \<le> arrived (queue ! k)" if "?h \<le> k" "k < length queue" for k
        using mono [OF that] False by (meson not_less order_trans)
      with "1.IH"(2) [OF True refl False] "1.prems" h True False show ?thesis
        by (subst binary_search.simps) (simp add: Let_def)
    qed
  qed
qed

text \<open>Insertion after the earlier arrivals, as a reference definition.\<close>

definition insert_sorted :: "('a \<Rightarrow> u64) \<Rightarrow> 'a \<Rightarrow> 'a list \<Rightarrow> 'a list" where
  "insert_sorted arrived x xs =
     takeWhile (\<lambda>y. arrived y < arrived x) xs @ x # dropWhile (\<lambda>y. arrived y < arrived x) xs"

lemma insertByArrival_sorted_insert:
  assumes "sorted (map arrived queue)"
  shows "insertByArrival arrived queue x = insert_sorted arrived x queue"
proof -
  let ?r = "binary_search arrived queue (arrived x) 0 (length queue)"
  have r: "?r \<le> length queue" "\<forall>k < ?r. arrived (queue ! k) < arrived x"
    "\<forall>k. ?r \<le> k \<longrightarrow> k < length queue \<longrightarrow> arrived x \<le> arrived (queue ! k)"
    using binary_search_correct [OF assms, of 0 "length queue" "arrived x"] by (auto simp: Let_def)
  have "takeWhile (\<lambda>y. arrived y < arrived x) queue = take ?r queue"
    by (rule takeWhile_eq_take_P_nth) (use r in auto)
  moreover from this have "dropWhile (\<lambda>y. arrived y < arrived x) queue = drop ?r queue"
    by (metis append_take_drop_id same_append_eq takeWhile_dropWhile_id)
  ultimately show ?thesis by (simp add: insertByArrival_def insert_sorted_def Let_def)
qed

lemma set_insert_sorted [simp]: "set (insert_sorted arrived x xs) = insert x (set xs)"
  unfolding insert_sorted_def by (metis Un_insert_right list.simps(15) set_append takeWhile_dropWhile_id)

lemma insert_sorted_split: "\<exists>a b. xs = a @ b \<and> insert_sorted arrived x xs = a @ x # b"
  unfolding insert_sorted_def by (metis takeWhile_dropWhile_id)

lemma distinct_insert_sorted [simp]: "x \<notin> set xs \<Longrightarrow> distinct xs \<Longrightarrow> distinct (insert_sorted arrived x xs)"
  using insert_sorted_split [of xs arrived x] by auto

lemma sorted_insert_sorted:
  assumes "sorted (map arrived xs)"
  shows "sorted (map arrived (insert_sorted arrived x xs))"
  using assms
proof (induction xs)
  case (Cons y ys)
  then show ?case
    by (cases "arrived y < arrived x") (auto simp: insert_sorted_def not_less dest: set_takeWhileD set_dropWhileD order_trans)
qed (simp add: insert_sorted_def)

text \<open>
  The binary search keeps each queue in arrival order: on an ordered queue, insertion puts the
  item behind exactly the earlier arrivals and moves nothing else.
\<close>

theorem insertByArrival_ordered:
  assumes "sorted (map arrived queue)"
  shows "insertByArrival arrived queue x
      = takeWhile (\<lambda>y. arrived y < arrived x) queue @ x # dropWhile (\<lambda>y. arrived y < arrived x) queue
    \<and> sorted (map arrived (insertByArrival arrived queue x))"
  using insertByArrival_sorted_insert [OF assms] sorted_insert_sorted [OF assms] by (simp add: insert_sorted_def)

theorem insertByArrival_ordered_witness:
  "insertByArrival id [1, 3, 7 :: u64] 5 = [1, 3, 5, 7]"
  using insertByArrival_ordered [of id "[1, 3, 7 :: u64]" 5] by simp

subsection \<open>Interleaved handlers\<close>

text \<open>
  Where a reference is in its life: being hashed, unused under its hash, in a waiter's channel,
  claimed by a candidate, handed to a server for replay, or gone because nobody will replay it.
  A candidate is hashing its request, or claims a reference of some hash.
\<close>

datatype 'h place = Nowhere | Hashing | Unused 'h | Delivered waiter | Claimed waiter | Replayed | Gone

datatype 'h phase = Unborn | Preparing | Claiming 'h | Settled

record 'h egress_system =
  es_queue :: "'h egress_queue"
  es_place :: "pending \<Rightarrow> 'h place"
  es_phase :: "waiter \<Rightarrow> 'h phase"
  es_jobs :: "pending list"

definition egress_init :: "duration \<Rightarrow> 'h egress_system" where
  "egress_init window = \<lparr>es_queue = newEgressQueue window, es_place = (\<lambda>_. Nowhere), es_phase = (\<lambda>_. Unborn), es_jobs = []\<rparr>"

inductive egress_step :: "'h egress_system \<Rightarrow> 'h egress_system \<Rightarrow> bool" where
  es_forward: "es_place s p = Nowhere \<Longrightarrow> eq_exchanges (es_queue s) e = None \<Longrightarrow>
     egress_step s (s\<lparr>es_queue := snd (forward (es_queue s) e p), es_place := (es_place s)(p := Hashing),
       es_jobs := p # es_jobs s\<rparr>)"
| es_hashed: "es_place s p = Hashing \<Longrightarrow> forward_hashed (es_queue s) p protocol route (Inr h) = Some q \<Longrightarrow>
     queue_at (eq_waiting (es_queue s)) h = [] \<Longrightarrow>
     egress_step s (s\<lparr>es_queue := q, es_place := (es_place s)(p := Unused h)\<rparr>)"
| es_delivered: "es_place s p = Hashing \<Longrightarrow> forward_hashed (es_queue s) p protocol route (Inr h) = Some q \<Longrightarrow>
     queue_at (eq_waiting (es_queue s)) h = w # ws \<Longrightarrow>
     egress_step s (s\<lparr>es_queue := q, es_place := (es_place s)(p := Delivered w)\<rparr>)"
| es_unhashed: "es_place s p = Hashing \<Longrightarrow> forward_hashed (es_queue s) p protocol route (Inl err) = Some q \<Longrightarrow>
     egress_step s (s\<lparr>es_queue := q, es_place := (es_place s)(p := Gone)\<rparr>)"
| es_job_done: "p \<in> set (es_jobs s) \<Longrightarrow> es_place s p \<noteq> Hashing \<Longrightarrow> finishHashing (es_queue s) = Inr q \<Longrightarrow>
     egress_step s (s\<lparr>es_queue := q, es_jobs := remove1 p (es_jobs s)\<rparr>)"
| es_arrive: "es_phase s w = Unborn \<Longrightarrow> arrive (es_queue s) = (n, q) \<Longrightarrow>
     egress_step s (s\<lparr>es_queue := q\<lparr>eq_waiters := (eq_waiters q)(w \<mapsto> newEgressWaiter n)\<rparr>, es_phase := (es_phase s)(w := Preparing)\<rparr>)"
| es_claim: "es_phase s w = Preparing \<Longrightarrow> claim_start (es_queue s) h w = (Some p, q) \<Longrightarrow>
     egress_step s (s\<lparr>es_queue := q, es_place := (es_place s)(p := Claimed w), es_phase := (es_phase s)(w := Settled)\<rparr>)"
| es_wait: "es_phase s w = Preparing \<Longrightarrow> claim_start (es_queue s) h w = (None, q) \<Longrightarrow>
     egress_step s (s\<lparr>es_queue := q, es_phase := (es_phase s)(w := Claiming h)\<rparr>)"
| es_receive: "es_phase s w = Claiming h \<Longrightarrow> claim_receive (es_queue s) w = Some (p, q) \<Longrightarrow>
     egress_step s (s\<lparr>es_queue := q, es_place := (es_place s)(p := Claimed w), es_phase := (es_phase s)(w := Settled)\<rparr>)"
| es_giveup: "es_phase s w = Claiming h \<Longrightarrow> claim_giveup (es_queue s) h w = (True, q) \<Longrightarrow>
     egress_step s (s\<lparr>es_queue := q, es_phase := (es_phase s)(w := Settled)\<rparr>)"
| es_expire: "es_place s p = Unused h \<Longrightarrow>
     egress_step s (s\<lparr>es_queue := expire (es_queue s) h p, es_place := (es_place s)(p := Gone)\<rparr>)"
| es_late_expire: "es_place s p \<noteq> Unused h \<Longrightarrow> egress_step s (s\<lparr>es_queue := expire (es_queue s) h p\<rparr>)"
| es_response: "egress_step s (s\<lparr>es_queue := egress_reference_response (es_queue s) e response\<rparr>)"
| es_unable: "egress_step s (s\<lparr>es_queue := egress_reference_unable (es_queue s) e reason\<rparr>)"
| es_replay: "es_place s p = Claimed w \<Longrightarrow>
     exchange_wait (the (eq_pendings (es_queue s) p)) ctx prefer = Some (Inr raw, e, raws) \<Longrightarrow>
     egress_step s (s\<lparr>es_queue := set_pending (es_queue s) p e raws, es_place := (es_place s)(p := Replayed)\<rparr>)"
| es_unreplayed: "es_place s p = Claimed w \<Longrightarrow>
     exchange_wait (the (eq_pendings (es_queue s) p)) ctx prefer = Some (Inl err, e, raws) \<Longrightarrow>
     egress_step s (s\<lparr>es_queue := set_pending (es_queue s) p e raws, es_place := (es_place s)(p := Gone)\<rparr>)"
| es_quarantine: "egress_step s (s\<lparr>es_queue := egress_Quarantine (es_queue s) reason\<rparr>)"
| es_misreported: "egress_step s (s\<lparr>es_queue := egress_candidate_response (es_queue s) response\<rparr>)"

subsection \<open>The invariant\<close>

lemma queue_at_upd [simp]: "queue_at (m(h \<mapsto> xs)) k = (if k = h then xs else queue_at m k)"
  by (simp add: queue_at_def)

lemma queue_at_set [simp]: "queue_at (set_queue m h xs) k = (if k = h then xs else queue_at m k)"
  by (simp add: queue_at_def set_queue_def)

lemma queue_at_empty [simp]: "queue_at Map.empty h = []"
  by (simp add: queue_at_def)

abbreviation exchange_arrived :: "(pending \<rightharpoonup> egress_exchange) \<Rightarrow> pending \<Rightarrow> u64" where
  "exchange_arrived pe p \<equiv> ee_arrival (the (pe p))"

definition ready :: "(waiter \<rightharpoonup> egress_waiter) \<Rightarrow> waiter \<Rightarrow> pending list" where
  "ready wt w = (case wt w of Some x \<Rightarrow> ew_ready x | None \<Rightarrow> [])"

lemma ready_simps [simp]:
  "ready (wt(w \<mapsto> x)) v = (if v = w then ew_ready x else ready wt v)"
  "wt w = Some x \<Longrightarrow> ready wt w = ew_ready x"
  "wt w = None \<Longrightarrow> ready wt w = []"
  by (simp_all add: ready_def)

fun is_claiming :: "'h phase \<Rightarrow> bool" where
  "is_claiming (Claiming _) = True"
| "is_claiming _ = False"

text \<open>Unused references: each under its own hash, once, in arrival order, with a running timer.\<close>

definition unused_ok :: "('h \<rightharpoonup> pending list) \<Rightarrow> (pending \<rightharpoonup> egress_exchange) \<Rightarrow> (pending \<Rightarrow> 'h place) \<Rightarrow> bool" where
  "unused_ok un pe pl \<longleftrightarrow>
     (\<forall>h. distinct (queue_at un h) \<and> set (queue_at un h) = {p. pl p = Unused h}
        \<and> sorted (map (exchange_arrived pe) (queue_at un h))
        \<and> (\<forall>p \<in> set (queue_at un h). ee_expiry (the (pe p)) = Some True))"

text \<open>Waiting candidates: in arrival order, each with an empty channel until it is handed one reference.\<close>

definition waiting_ok :: "('h \<rightharpoonup> waiter list) \<Rightarrow> (waiter \<rightharpoonup> egress_waiter) \<Rightarrow> (waiter \<Rightarrow> 'h phase) \<Rightarrow> (pending \<Rightarrow> 'h place) \<Rightarrow> bool" where
  "waiting_ok wa wt ph pl \<longleftrightarrow>
     (\<forall>h. distinct (queue_at wa h) \<and> sorted (map (\<lambda>w. ew_arrival (the (wt w))) (queue_at wa h))
        \<and> (\<forall>w \<in> set (queue_at wa h). ph w = Claiming h \<and> ready wt w = []))
     \<and> (\<forall>w. set (ready wt w) = {p. pl p = Delivered w} \<and> length (ready wt w) \<le> 1
        \<and> (wt w = None \<longleftrightarrow> ph w = Unborn)
        \<and> (\<forall>h. ph w = Claiming h \<and> w \<notin> set (queue_at wa h) \<longrightarrow> ready wt w \<noteq> [])
        \<and> (ready wt w \<noteq> [] \<longrightarrow> is_claiming (ph w)))"

text \<open>Hashing jobs: counted exactly, with the idle channel closed when there is none.\<close>

definition jobs_ok :: "'h egress_queue \<Rightarrow> pending list \<Rightarrow> (pending \<Rightarrow> 'h place) \<Rightarrow> bool" where
  "jobs_ok q jobs pl \<longleftrightarrow>
     eq_hashing q = int (length jobs) \<and> (eq_idle q \<in> set (eq_closed q) \<longleftrightarrow> jobs = [])
     \<and> eq_idle q < eq_next q \<and> (\<forall>c \<in> set (eq_closed q). c < eq_next q)
     \<and> (\<forall>p. pl p = Hashing \<longrightarrow> p \<in> set jobs)"

text \<open>Responses: what nobody will replay is released as soon as it is recorded.\<close>

definition responses_ok :: "(pending \<rightharpoonup> egress_exchange) \<Rightarrow> raw list \<Rightarrow> (pending \<Rightarrow> 'h place) \<Rightarrow> bool" where
  "responses_ok pe released pl \<longleftrightarrow>
     (\<forall>p. (pe p = None \<longleftrightarrow> pl p = Nowhere)
        \<and> (\<forall>e. pe p = Some e \<longrightarrow>
             (\<forall>oc. Future_Get (ee_outcome e) = Some oc \<longrightarrow> eo_raw oc = None \<or> eo_failure oc = None)
             \<and> (pl p = Gone \<longrightarrow> (ee_abandoned e \<or> Future_Get (ee_outcome e) \<noteq> None)
                  \<and> set (exchange_release e) \<subseteq> set released)))"

definition queue_inv :: "'h egress_queue \<Rightarrow> (pending \<Rightarrow> 'h place) \<Rightarrow> (waiter \<Rightarrow> 'h phase) \<Rightarrow> pending list \<Rightarrow> bool" where
  "queue_inv q pl ph jobs \<longleftrightarrow>
     unused_ok (eq_unused q) (eq_pendings q) pl \<and> waiting_ok (eq_waiting q) (eq_waiters q) ph pl
     \<and> (\<forall>h. queue_at (eq_unused q) h = [] \<or> queue_at (eq_waiting q) h = [])
     \<and> jobs_ok q jobs pl \<and> responses_ok (eq_pendings q) (eq_released q) pl
     \<and> (\<forall>e p. eq_exchanges q e = Some p \<longrightarrow> pl p \<noteq> Nowhere)"

definition egress_inv :: "'h egress_system \<Rightarrow> bool" where
  "egress_inv s \<longleftrightarrow> queue_inv (es_queue s) (es_place s) (es_phase s) (es_jobs s)"

lemma queue_invI:
  "unused_ok (eq_unused q) (eq_pendings q) pl \<Longrightarrow> waiting_ok (eq_waiting q) (eq_waiters q) ph pl \<Longrightarrow>
   (\<And>h. queue_at (eq_unused q) h = [] \<or> queue_at (eq_waiting q) h = []) \<Longrightarrow> jobs_ok q jobs pl \<Longrightarrow>
   responses_ok (eq_pendings q) (eq_released q) pl \<Longrightarrow> (\<And>e p. eq_exchanges q e = Some p \<Longrightarrow> pl p \<noteq> Nowhere) \<Longrightarrow>
   queue_inv q pl ph jobs"
  by (simp add: queue_inv_def)

lemma queue_invD:
  assumes "queue_inv q pl ph jobs"
  shows "unused_ok (eq_unused q) (eq_pendings q) pl" "waiting_ok (eq_waiting q) (eq_waiters q) ph pl"
    "queue_at (eq_unused q) h = [] \<or> queue_at (eq_waiting q) h = []" "jobs_ok q jobs pl"
    "responses_ok (eq_pendings q) (eq_released q) pl" "eq_exchanges q e = Some p \<Longrightarrow> pl p \<noteq> Nowhere"
  using assms by (auto simp: queue_inv_def)

lemma startHashing_fields [simp]:
  "eq_unused (startHashing q) = eq_unused q" "eq_waiting (startHashing q) = eq_waiting q"
  "eq_waiters (startHashing q) = eq_waiters q" "eq_pendings (startHashing q) = eq_pendings q"
  "eq_released (startHashing q) = eq_released q" "eq_exchanges (startHashing q) = eq_exchanges q"
  by (simp_all add: startHashing_def Let_def)

subsubsection \<open>Unused references\<close>

lemma unused_frame:
  assumes "unused_ok un pe pl"
    and "\<And>p h. pl p = Unused h \<Longrightarrow> exchange_arrived pe' p = exchange_arrived pe p \<and> ee_expiry (the (pe' p)) = ee_expiry (the (pe p))"
    and "\<And>p h. pl' p = Unused h \<longleftrightarrow> pl p = Unused h"
  shows "unused_ok un pe' pl'"
proof -
  have eq: "map (exchange_arrived pe') (queue_at un h) = map (exchange_arrived pe) (queue_at un h)" for h
    using assms(1,2) by (intro map_cong refl) (auto simp: unused_ok_def)
  have "sorted (map (exchange_arrived pe') (queue_at un h))" for h
    unfolding eq using assms(1) by (simp add: unused_ok_def)
  with assms show ?thesis by (auto simp: unused_ok_def)
qed

lemma unused_insert:
  assumes "unused_ok un pe pl" "pl p = Hashing"
  shows "unused_ok (un(h \<mapsto> insertByArrival (exchange_arrived pe) (queue_at un h) p))
    (pe(p \<mapsto> expireAfter (the (pe p)))) (pl(p := Unused h))"
proof -
  let ?pe = "pe(p \<mapsto> expireAfter (the (pe p)))"
  have arr: "exchange_arrived ?pe x = exchange_arrived pe x" for x by (simp add: expireAfter_def)
  have p: "p \<notin> set (queue_at un k)" for k using assms by (auto simp: unused_ok_def)
  have "insertByArrival (exchange_arrived pe) (queue_at un h) p = insert_sorted (exchange_arrived pe) p (queue_at un h)"
    using assms(1) by (intro insertByArrival_sorted_insert) (simp add: unused_ok_def)
  with assms p show ?thesis
    unfolding unused_ok_def arr
    by (auto simp: sorted_insert_sorted) (auto simp: expireAfter_def)
qed

lemma unused_remove:
  assumes "unused_ok un pe pl" "pl p = Unused h" "\<And>k. x \<noteq> Unused k"
  shows "unused_ok (set_queue un h (remove1 p (queue_at un h))) (pe(p \<mapsto> e)) (pl(p := x))"
proof -
  have q: "distinct (queue_at un k)" "set (queue_at un k) = {p. pl p = Unused k}" "sorted (map (exchange_arrived pe) (queue_at un k))"
    "p \<in> set (queue_at un k) \<longleftrightarrow> k = h" for k
    using assms(1,2) by (auto simp: unused_ok_def)
  have eq: "map (exchange_arrived (pe(p \<mapsto> e))) xs = map (exchange_arrived pe) xs" if "p \<notin> set xs" for xs
    using that by (intro map_cong refl) auto
  have "sorted (map (exchange_arrived (pe(p \<mapsto> e))) (remove1 p (queue_at un h)))"
    by (subst eq) (use q in \<open>auto simp: set_remove1_eq sorted_map_remove1\<close>)
  moreover have "sorted (map (exchange_arrived (pe(p \<mapsto> e))) (queue_at un k))" if "k \<noteq> h" for k
    by (subst eq) (use q that in auto)
  ultimately show ?thesis
    using assms q unfolding unused_ok_def by (auto simp: set_remove1_eq)
qed

subsubsection \<open>Waiting candidates\<close>

lemma waiting_okD:
  assumes "waiting_ok wa wt ph pl"
  shows "distinct (queue_at wa h)" "sorted (map (\<lambda>w. ew_arrival (the (wt w))) (queue_at wa h))"
    "w \<in> set (queue_at wa h) \<Longrightarrow> ph w = Claiming h" "w \<in> set (queue_at wa h) \<Longrightarrow> ready wt w = []"
    "set (ready wt w) = {p. pl p = Delivered w}" "length (ready wt w) \<le> 1" "wt w = None \<longleftrightarrow> ph w = Unborn"
    "ph w = Claiming h \<Longrightarrow> w \<notin> set (queue_at wa h) \<Longrightarrow> ready wt w \<noteq> []"
    "ready wt w \<noteq> [] \<Longrightarrow> is_claiming (ph w)"
  using assms by (auto simp: waiting_ok_def)

lemma waiting_okI:
  assumes "\<And>h. distinct (queue_at wa h)" "\<And>h. sorted (map (\<lambda>w. ew_arrival (the (wt w))) (queue_at wa h))"
    and "\<And>w h. w \<in> set (queue_at wa h) \<Longrightarrow> ph w = Claiming h \<and> ready wt w = []"
    and "\<And>w. set (ready wt w) = {p. pl p = Delivered w}" "\<And>w. length (ready wt w) \<le> 1"
    and "\<And>w. wt w = None \<longleftrightarrow> ph w = Unborn"
    and "\<And>w h. ph w = Claiming h \<Longrightarrow> w \<notin> set (queue_at wa h) \<Longrightarrow> ready wt w \<noteq> []"
    and "\<And>w. ready wt w \<noteq> [] \<Longrightarrow> is_claiming (ph w)"
  shows "waiting_ok wa wt ph pl"
  using assms unfolding waiting_ok_def by blast

lemma waiting_frame:
  "waiting_ok wa wt ph pl \<Longrightarrow> (\<And>p w. pl' p = Delivered w \<longleftrightarrow> pl p = Delivered w) \<Longrightarrow> waiting_ok wa wt ph pl'"
  by (simp add: waiting_ok_def)

lemma sorted_arrivals_upd:
  assumes "sorted (map (\<lambda>w. ew_arrival (the (wt w))) xs)" "w \<notin> set xs \<or> ew_arrival x = ew_arrival (the (wt w))"
  shows "sorted (map (\<lambda>v. ew_arrival (the ((wt(w \<mapsto> x)) v))) xs)"
proof -
  have "map (\<lambda>v. ew_arrival (the ((wt(w \<mapsto> x)) v))) xs = map (\<lambda>w. ew_arrival (the (wt w))) xs"
    by (intro map_cong refl) (use assms(2) in auto)
  with assms(1) show ?thesis by metis
qed

lemma waiting_settle:
  assumes "waiting_ok wa wt ph pl" "ph w = Preparing"
  shows "waiting_ok wa wt (ph(w := Settled)) pl"
proof -
  note W = waiting_okD [OF assms(1)]
  have "w \<notin> set (queue_at wa h)" for h using W(3) [of w h] assms(2) by auto
  moreover have "ready wt w = []" using W(9) [of w] assms(2) by auto
  ultimately show ?thesis
    by (intro waiting_okI) (use W assms(2) in \<open>auto split: if_splits\<close>)
qed

lemma waiting_arrive:
  assumes "waiting_ok wa wt ph pl" "ph w = Unborn"
  shows "waiting_ok wa (wt(w \<mapsto> newEgressWaiter n)) (ph(w := Preparing)) pl"
proof -
  note W = waiting_okD [OF assms(1)]
  have w: "w \<notin> set (queue_at wa h)" for h using W(3) [of w h] assms(2) by auto
  have none: "wt w = None" "{p. pl p = Delivered w} = {}" using W(5,7) [of w] assms(2) by auto
  show ?thesis
    by (intro waiting_okI sorted_arrivals_upd)
      (use W w none in \<open>auto simp: newEgressWaiter_def split: if_splits\<close>)
qed

lemma waiting_insert:
  assumes "waiting_ok wa wt ph pl" "ph w = Preparing"
  shows "waiting_ok (wa(h \<mapsto> insertByArrival (\<lambda>w. ew_arrival (the (wt w))) (queue_at wa h) w)) wt (ph(w := Claiming h)) pl"
proof -
  note W = waiting_okD [OF assms(1)]
  have w: "w \<notin> set (queue_at wa k)" for k using W(3) [of w k] assms(2) by auto
  have ins: "insertByArrival (\<lambda>w. ew_arrival (the (wt w))) (queue_at wa h) w
      = insert_sorted (\<lambda>w. ew_arrival (the (wt w))) w (queue_at wa h)"
    by (rule insertByArrival_sorted_insert) (rule W(2))
  have "ready wt w = []" using W(9) [of w] assms(2) by auto
  then show ?thesis unfolding ins
    by (intro waiting_okI)
      (use W w assms(2) sorted_insert_sorted [OF W(2)] in \<open>auto split: if_splits\<close>)
qed

lemma waiting_deliver:
  assumes "waiting_ok wa wt ph pl" "queue_at wa h = w # ws" "deliver (the (wt w)) p = Some x" "pl p = Hashing"
  shows "waiting_ok (set_queue wa h ws) (wt(w \<mapsto> x)) ph (pl(p := Delivered w))"
proof -
  note W = waiting_okD [OF assms(1)]
  have w: "ph w = Claiming h" "ready wt w = []" "w \<notin> set ws" using W(1) [of h] W(3,4) [of w h] assms(2) by auto
  then obtain y where y: "wt w = Some y" "ew_ready y = []" using W(7) [of w] by (cases "wt w") auto
  have x: "x = y\<lparr>ew_ready := [p]\<rparr>" using assms(3) y by (simp add: deliver_def)
  have other: "w \<notin> set (queue_at wa k)" if "k \<noteq> h" for k using W(3) [of w k] w(1) that by auto
  have sorted: "sorted (map (\<lambda>v. ew_arrival (the (wt v))) ws)" using W(2) [of h] assms(2) by simp
  have fresh: "p \<notin> set (ready wt v)" for v using W(5) [of v] assms(4) by auto
  show ?thesis
  proof (intro waiting_okI sorted_arrivals_upd)
    show "sorted (map (\<lambda>w. ew_arrival (the (wt w))) (queue_at (set_queue wa h ws) k))" for k
      using W(2) [of k] sorted by simp
    show "set (ready (wt(w \<mapsto> x)) v) = {q. (pl(p := Delivered w)) q = Delivered v}" for v
      using W(5) [of v] w(2) x fresh assms(4) by auto
    show "v \<in> set (queue_at (set_queue wa h ws) k) \<Longrightarrow> ph v = Claiming k \<and> ready (wt(w \<mapsto> x)) v = []" for v k
      using W(3,4) [of v k] assms(2) w(3) other by (auto split: if_splits)
    show "ph v = Claiming k \<Longrightarrow> v \<notin> set (queue_at (set_queue wa h ws) k) \<Longrightarrow> ready (wt(w \<mapsto> x)) v \<noteq> []" for v k
      using W(8) [of v k] assms(2) w x by (auto split: if_splits)
    show "distinct (queue_at (set_queue wa h ws) k)" for k using W(1) [of k] assms(2) by auto
  qed (use W(6,7,9) w x y in \<open>auto split: if_splits\<close>)
qed

lemma waiting_receive:
  assumes "waiting_ok wa wt ph pl" "ph w = Claiming h" "wt w = Some y" "ew_ready y = p # ps"
  shows "pl p = Delivered w" "waiting_ok wa (wt(w \<mapsto> y\<lparr>ew_ready := ps\<rparr>)) (ph(w := Settled)) (pl(p := Claimed w))"
proof -
  note W = waiting_okD [OF assms(1)]
  have r: "ready wt w = [p]" "ps = []" using W(6) [of w] assms(3,4) by (cases ps; simp)+
  then have place: "{q. pl q = Delivered w} = {p}" using W(5) [of w] by simp
  then show p: "pl p = Delivered w" by blast
  have out: "w \<notin> set (queue_at wa k)" for k using W(4) [of w k] r by auto
  show "waiting_ok wa (wt(w \<mapsto> y\<lparr>ew_ready := ps\<rparr>)) (ph(w := Settled)) (pl(p := Claimed w))"
  proof (intro waiting_okI sorted_arrivals_upd)
    show "set (ready (wt(w \<mapsto> y\<lparr>ew_ready := ps\<rparr>)) v) = {q. (pl(p := Claimed w)) q = Delivered v}" for v
      using W(5) [of v] r p place by auto
  qed (use W out r assms in \<open>auto split: if_splits\<close>)
qed

lemma waiting_giveup:
  assumes "waiting_ok wa wt ph pl" "ph w = Claiming h" "w \<in> set (queue_at wa h)"
  shows "waiting_ok (set_queue wa h (remove1 w (queue_at wa h))) wt (ph(w := Settled)) pl"
proof -
  note W = waiting_okD [OF assms(1)]
  have r: "ready wt w = []" by (rule W(4) [OF assms(3)])
  have out: "w \<notin> set (queue_at wa k)" if "k \<noteq> h" for k using W(3) [of w k] assms(2) that by auto
  show ?thesis
  proof (intro waiting_okI)
    show "sorted (map (\<lambda>w. ew_arrival (the (wt w))) (queue_at (set_queue wa h (remove1 w (queue_at wa h))) k))" for k
      using W(2) by (simp add: sorted_map_remove1)
    show "v \<in> set (queue_at (set_queue wa h (remove1 w (queue_at wa h))) k) \<Longrightarrow> (ph(w := Settled)) v = Claiming k \<and> ready wt v = []" for v k
      using W(1) [of h] W(3,4) [of v k] out by (auto split: if_splits)
    show "(ph(w := Settled)) v = Claiming k \<Longrightarrow> v \<notin> set (queue_at (set_queue wa h (remove1 w (queue_at wa h))) k) \<Longrightarrow> ready wt v \<noteq> []" for v k
      using W(1) [of h] W(8) [of v k] by (auto split: if_splits)
    show "distinct (queue_at (set_queue wa h (remove1 w (queue_at wa h))) k)" for k using W(1) by simp
    show "ready wt v \<noteq> [] \<Longrightarrow> is_claiming ((ph(w := Settled)) v)" for v using W(9) [of v] r by auto
    show "set (ready wt v) = {p. pl p = Delivered v}" for v by (rule W(5))
    show "length (ready wt v) \<le> 1" for v by (rule W(6))
    show "wt v = None \<longleftrightarrow> (ph(w := Settled)) v = Unborn" for v using W(7) [of v] assms(2) by auto
  qed
qed

subsubsection \<open>Hashing jobs and responses\<close>

lemma jobs_frame:
  assumes "jobs_ok q jobs pl" "eq_hashing q' = eq_hashing q" "eq_idle q' = eq_idle q" "eq_closed q' = eq_closed q"
    "eq_next q' = eq_next q" "\<And>p. pl' p = Hashing \<Longrightarrow> pl p = Hashing"
  shows "jobs_ok q' jobs pl'"
  using assms by (auto simp: jobs_ok_def)

lemma jobs_start: "jobs_ok q jobs pl \<Longrightarrow> jobs_ok (startHashing q) (p # jobs) (pl(p := Hashing))"
  by (auto simp: jobs_ok_def startHashing_def Let_def less_Suc_eq)

lemma jobs_done:
  assumes "jobs_ok q jobs pl" "p \<in> set jobs" "pl p \<noteq> Hashing" "finishHashing q = Inr q'"
  shows "jobs_ok q' (remove1 p jobs) pl"
proof -
  have len: "length jobs = Suc (length (remove1 p jobs))"
    using assms(2) by (simp add: length_remove1) (metis length_pos_if_in_set Suc_pred)
  have "x \<in> set (remove1 p jobs)" if "pl x = Hashing" for x
    using assms(1,3) that by (cases "x = p") (auto simp: jobs_ok_def in_set_remove1)
  with assms len show ?thesis
    by (auto simp: jobs_ok_def finishHashing_def Let_def split: if_splits)
qed

lemma jobs_never_panic:
  assumes "jobs_ok q jobs pl" "jobs \<noteq> []"
  shows "\<exists>q'. finishHashing q = Inr q'"
  using assms by (auto simp: jobs_ok_def finishHashing_def Let_def)

definition outcome_ok :: "egress_exchange \<Rightarrow> bool" where
  "outcome_ok e \<longleftrightarrow> (\<forall>oc. Future_Get (ee_outcome e) = Some oc \<longrightarrow> eo_raw oc = None \<or> eo_failure oc = None)"

definition dropped_ok :: "egress_exchange \<Rightarrow> raw list \<Rightarrow> bool" where
  "dropped_ok e released \<longleftrightarrow>
     (ee_abandoned e \<or> Future_Get (ee_outcome e) \<noteq> None) \<and> set (exchange_release e) \<subseteq> set released"

lemma responses_ok_alt:
  "responses_ok pe released pl \<longleftrightarrow>
     (\<forall>p. (pe p = None \<longleftrightarrow> pl p = Nowhere)
        \<and> (\<forall>e. pe p = Some e \<longrightarrow> outcome_ok e \<and> (pl p = Gone \<longrightarrow> dropped_ok e released)))"
  by (simp add: responses_ok_def outcome_ok_def dropped_ok_def)

lemma dropped_more: "dropped_ok e released \<Longrightarrow> dropped_ok e (released @ raws)"
  by (auto simp: dropped_ok_def)

lemma responses_upd:
  assumes "responses_ok pe released pl" "x \<noteq> Nowhere" "outcome_ok e" "x = Gone \<Longrightarrow> dropped_ok e (released @ raws)"
  shows "responses_ok (pe(p \<mapsto> e)) (released @ raws) (pl(p := x))"
  using assms dropped_more unfolding responses_ok_alt by (auto split: if_splits)

lemma responses_frame:
  assumes "responses_ok pe released pl" "set released \<subseteq> set released'"
    "\<And>p. pl' p = Nowhere \<longleftrightarrow> pl p = Nowhere" "\<And>p. pl' p = Gone \<Longrightarrow> pl p = Gone"
  shows "responses_ok pe released' pl'"
proof -
  have "dropped_ok e released \<Longrightarrow> dropped_ok e released'" for e using assms(2) by (auto simp: dropped_ok_def)
  with assms show ?thesis unfolding responses_ok_alt by auto
qed

lemma responses_okD:
  assumes "responses_ok pe released pl" "pl p \<noteq> Nowhere"
  obtains e where "pe p = Some e" "outcome_ok e" "pl p = Gone \<Longrightarrow> dropped_ok e released"
  using assms unfolding responses_ok_alt by (metis not_None_eq)

lemma abandon_dropped:
  "exchange_abandon e = (e', raws) \<Longrightarrow> outcome_ok e \<Longrightarrow> outcome_ok e' \<and> dropped_ok e' (released @ raws)"
  by (auto simp: exchange_abandon_def Let_def outcome_ok_def dropped_ok_def)

lemma abandon_keeps:
  "exchange_abandon e = (e', raws) \<Longrightarrow> ee_arrival e' = ee_arrival e \<and> ee_expiry e' = ee_expiry e"
  by (auto simp: exchange_abandon_def Let_def)

lemma finish_keeps:
  "exchange_finish e raw failure = (e', raws) \<Longrightarrow> ee_arrival e' = ee_arrival e \<and> ee_expiry e' = ee_expiry e"
  by (auto simp: exchange_finish_def Let_def)

lemma finish_outcome:
  assumes "exchange_finish e raw failure = (e', raws)" "outcome_ok e" "raw = None \<or> failure = None"
  shows "outcome_ok e'" "dropped_ok e released \<Longrightarrow> dropped_ok e' (released @ raws)"
proof -
  have e': "e' = e\<lparr>ee_outcome := snd (Future_Set (ee_outcome e) \<lparr>eo_raw = raw, eo_failure = failure\<rparr>)\<rparr>"
    "raws = (if ee_abandoned e then exchange_release e' else [])"
    using assms(1) by (auto simp: exchange_finish_def Let_def)
  show "outcome_ok e'" using assms(2,3) unfolding outcome_ok_def e'(1) by (auto simp: Future_Get_Set split: option.splits)
  show "dropped_ok e released \<Longrightarrow> dropped_ok e' (released @ raws)"
  proof (cases "ee_abandoned e")
    case True
    then show "dropped_ok e' (released @ raws)" using e' by (simp add: dropped_ok_def)
  next
    case False
    assume d: "dropped_ok e released"
    with False obtain oc where "Future_Get (ee_outcome e) = Some oc" by (auto simp: dropped_ok_def)
    then have "Future_Get (ee_outcome e') = Some oc" by (simp add: e'(1) Future_Get_Set)
    with d \<open>Future_Get (ee_outcome e) = Some oc\<close> show ?thesis
      by (auto simp: dropped_ok_def exchange_release_def)
  qed
qed

lemma wait_error_dropped:
  assumes "exchange_wait e ctx prefer = Some (Inl err, e', raws)" "outcome_ok e"
  shows "outcome_ok e' \<and> dropped_ok e' (released @ raws)"
proof (cases "Future_Wait (ee_outcome e) ctx prefer")
  case (Some r)
  show ?thesis
  proof (cases r)
    case (Inl err')
    with Some assms abandon_dropped [of e e' raws released] show ?thesis by (auto simp: exchange_wait_def)
  next
    case (Inr oc)
    with Some assms(1) have "e' = e" by (auto simp: exchange_wait_def)
    moreover have "Future_Get (ee_outcome e) = Some oc"
      using Some Inr by (auto simp: Future_Wait_def split: if_splits option.splits)
    moreover from this assms Some Inr have "eo_raw oc = None"
      by (auto simp: exchange_wait_def outcome_ok_def split: option.splits)
    ultimately show ?thesis using assms(2) by (simp add: dropped_ok_def exchange_release_def)
  qed
qed (use assms in \<open>simp add: exchange_wait_def\<close>)

lemma wait_keeps:
  "exchange_wait e ctx prefer = Some (r, e', raws) \<Longrightarrow> ee_arrival e' = ee_arrival e \<and> ee_expiry e' = ee_expiry e"
  using abandon_keeps by (auto simp: exchange_wait_def split: option.splits sum.splits)

lemma wait_success:
  "exchange_wait e ctx prefer = Some (Inr raw, e', raws) \<Longrightarrow> e' = e \<and> raws = []"
  by (auto simp: exchange_wait_def split: option.splits sum.splits)

lemma outcome_ok_simps [simp]:
  "outcome_ok (newEgressExchange n)" "outcome_ok (expireAfter e) = outcome_ok e" "outcome_ok (stopExpiry e) = outcome_ok e"
  by (simp_all add: outcome_ok_def newEgressExchange_def expireAfter_def stopExpiry_def split: option.splits)

subsubsection \<open>Every step keeps the invariant\<close>

lemma inv_forward:
  assumes "queue_inv q pl ph jobs" "pl p = Nowhere"
  shows "queue_inv (snd (forward q e p)) (pl(p := Hashing)) ph (p # jobs)"
proof -
  note I = queue_invD [OF assms(1)]
  let ?q = "q\<lparr>eq_arrivals := eq_arrivals q + 1, eq_pendings := (eq_pendings q)(p \<mapsto> newEgressExchange (eq_arrivals q + 1)),
     eq_exchanges := (eq_exchanges q)(e \<mapsto> p)\<rparr>"
  have q: "snd (forward q e p) = startHashing ?q" by (simp add: forward_def Let_def)
  show ?thesis unfolding q
  proof (rule queue_invI)
    show "unused_ok (eq_unused (startHashing ?q)) (eq_pendings (startHashing ?q)) (pl(p := Hashing))"
      by simp (rule unused_frame [OF I(1)], use assms(2) in auto)
    show "jobs_ok (startHashing ?q) (p # jobs) (pl(p := Hashing))"
      by (rule jobs_start, rule jobs_frame [OF I(4)]) simp_all
    show "responses_ok (eq_pendings (startHashing ?q)) (eq_released (startHashing ?q)) (pl(p := Hashing))"
      using responses_upd [OF I(5), of Hashing "newEgressExchange (eq_arrivals q + 1)" "[]" p] by simp
  qed (use I(3,6) assms(2) waiting_frame [OF I(2), of "pl(p := Hashing)"] in \<open>auto split: if_splits\<close>)
qed

lemma inv_hashed:
  assumes "queue_inv q pl ph jobs" "pl p = Hashing" "forward_hashed q p protocol route (Inr h) = Some q'"
    "queue_at (eq_waiting q) h = []"
  shows "queue_inv q' (pl(p := Unused h)) ph jobs"
proof -
  note I = queue_invD [OF assms(1)]
  have q: "q' = q\<lparr>eq_unused := (eq_unused q)(h \<mapsto> insertByArrival (exchange_arrived (eq_pendings q)) (queue_at (eq_unused q) h) p),
      eq_pendings := (eq_pendings q)(p \<mapsto> expireAfter (the (eq_pendings q p)))\<rparr>"
    using assms(3,4) by (simp add: forward_hashed_def add_def pending_arrived_def [abs_def])
  obtain e where e: "eq_pendings q p = Some e" "outcome_ok e"
    by (rule responses_okD [OF I(5), of p]) (use assms(2) in auto)
  show ?thesis
  proof (rule queue_invI)
    show "unused_ok (eq_unused q') (eq_pendings q') (pl(p := Unused h))"
      using unused_insert [OF I(1) assms(2)] by (simp add: q)
    show "responses_ok (eq_pendings q') (eq_released q') (pl(p := Unused h))"
      using responses_upd [OF I(5), of "Unused h" "expireAfter e" "[]" p] e by (simp add: q)
    show "waiting_ok (eq_waiting q') (eq_waiters q') ph (pl(p := Unused h))"
      using waiting_frame [OF I(2), of "pl(p := Unused h)"] assms(2) by (auto simp: q)
    show "jobs_ok q' jobs (pl(p := Unused h))" by (rule jobs_frame [OF I(4)]) (auto simp: q split: if_splits)
  qed (use I(3,6) assms(2,4) in \<open>auto simp: q split: if_splits\<close>)
qed

lemma inv_delivered:
  assumes "queue_inv q pl ph jobs" "pl p = Hashing" "forward_hashed q p protocol route (Inr h) = Some q'"
    "queue_at (eq_waiting q) h = w # ws"
  shows "queue_inv q' (pl(p := Delivered w)) ph jobs"
proof -
  note I = queue_invD [OF assms(1)]
  obtain x where x: "deliver (the (eq_waiters q w)) p = Some x"
    and q: "q' = q\<lparr>eq_waiting := set_queue (eq_waiting q) h ws, eq_waiters := (eq_waiters q)(w \<mapsto> x)\<rparr>"
    using assms(3,4) by (auto simp: forward_hashed_def add_def setWaiting_def split: option.splits)
  show ?thesis
  proof (rule queue_invI)
    show "unused_ok (eq_unused q') (eq_pendings q') (pl(p := Delivered w))"
      unfolding q by simp (rule unused_frame [OF I(1)], use assms(2) in auto)
    show "waiting_ok (eq_waiting q') (eq_waiters q') ph (pl(p := Delivered w))"
      using waiting_deliver [OF I(2) assms(4) x assms(2)] by (simp add: q)
    show "queue_at (eq_unused q') k = [] \<or> queue_at (eq_waiting q') k = []" for k
      using I(3) [of k] I(3) [of h] assms(4) by (auto simp: q)
    show "jobs_ok q' jobs (pl(p := Delivered w))" by (rule jobs_frame [OF I(4)]) (auto simp: q split: if_splits)
    show "responses_ok (eq_pendings q') (eq_released q') (pl(p := Delivered w))"
      unfolding q by simp (rule responses_frame [OF I(5)], use assms(2) in \<open>auto split: if_splits\<close>)
  qed (use I(6) in \<open>auto simp: q split: if_splits\<close>)
qed

text \<open>Dropping a reference that no queue or channel holds.\<close>

lemma inv_drop:
  assumes "queue_inv q pl ph jobs" "pl p \<noteq> Nowhere" "\<And>h. pl p \<noteq> Unused h" "\<And>w. pl p \<noteq> Delivered w"
    and "outcome_ok e" "dropped_ok e (eq_released q @ raws)"
  shows "queue_inv (set_pending q p e raws) (pl(p := Gone)) ph jobs"
proof -
  note I = queue_invD [OF assms(1)]
  show ?thesis
  proof (rule queue_invI)
    show "unused_ok (eq_unused (set_pending q p e raws)) (eq_pendings (set_pending q p e raws)) (pl(p := Gone))"
      unfolding set_pending_def by simp (rule unused_frame [OF I(1)], use assms(3) in auto)
    show "waiting_ok (eq_waiting (set_pending q p e raws)) (eq_waiters (set_pending q p e raws)) ph (pl(p := Gone))"
      unfolding set_pending_def by simp (rule waiting_frame [OF I(2)], use assms(4) in auto)
    show "jobs_ok (set_pending q p e raws) jobs (pl(p := Gone))"
      by (rule jobs_frame [OF I(4)]) (auto simp: set_pending_def split: if_splits)
    show "responses_ok (eq_pendings (set_pending q p e raws)) (eq_released (set_pending q p e raws)) (pl(p := Gone))"
      using responses_upd [OF I(5), of Gone e raws p] assms(5,6) by (simp add: set_pending_def)
  qed (use I(3,6) in \<open>auto simp: set_pending_def split: if_splits\<close>)
qed

lemma inv_quarantine: "queue_inv q pl ph jobs \<Longrightarrow> queue_inv (egress_Quarantine q reason) pl ph jobs"
  by (simp add: queue_inv_def egress_Quarantine_def jobs_ok_def)

lemma inv_unhashed:
  assumes "queue_inv q pl ph jobs" "pl p = Hashing" "forward_hashed q p protocol route (Inl err) = Some q'"
  shows "queue_inv q' (pl(p := Gone)) ph jobs"
proof -
  note I = queue_invD [OF assms(1)]
  obtain e where e: "eq_pendings q p = Some e" "outcome_ok e"
    by (rule responses_okD [OF I(5), of p]) (use assms(2) in auto)
  obtain e' raws where ab: "exchange_abandon e = (e', raws)" by fastforce
  have "queue_inv (set_pending q p e' raws) (pl(p := Gone)) ph jobs"
    by (rule inv_drop [OF assms(1)]) (use assms(2) abandon_dropped [OF ab e(2)] in auto)
  with assms(3) e(1) ab show ?thesis by (auto simp: forward_hashed_def abandon_def intro: inv_quarantine)
qed

lemma inv_waiters:
  assumes "queue_inv q pl ph jobs" "waiting_ok wa wt ph' pl'"
    "\<And>h. queue_at (eq_unused q) h = [] \<or> queue_at wa h = []"
    "\<And>p h. pl' p = Unused h \<longleftrightarrow> pl p = Unused h" "\<And>p. pl' p = Hashing \<Longrightarrow> pl p = Hashing"
    "\<And>p. pl' p = Nowhere \<longleftrightarrow> pl p = Nowhere" "\<And>p. pl' p = Gone \<Longrightarrow> pl p = Gone"
  shows "queue_inv (q\<lparr>eq_waiting := wa, eq_waiters := wt\<rparr>) pl' ph' jobs"
proof -
  note I = queue_invD [OF assms(1)]
  show ?thesis
  proof (rule queue_invI)
    show "unused_ok (eq_unused (q\<lparr>eq_waiting := wa, eq_waiters := wt\<rparr>)) (eq_pendings (q\<lparr>eq_waiting := wa, eq_waiters := wt\<rparr>)) pl'"
      by simp (rule unused_frame [OF I(1)], use assms(4) in auto)
    show "jobs_ok (q\<lparr>eq_waiting := wa, eq_waiters := wt\<rparr>) jobs pl'"
      by (rule jobs_frame [OF I(4)]) (use assms(5) in auto)
    show "responses_ok (eq_pendings (q\<lparr>eq_waiting := wa, eq_waiters := wt\<rparr>)) (eq_released (q\<lparr>eq_waiting := wa, eq_waiters := wt\<rparr>)) pl'"
      by simp (rule responses_frame [OF I(5)], use assms(6,7) in auto)
  qed (use assms I(6) in auto)
qed

lemma inv_arrive:
  assumes "queue_inv q pl ph jobs" "ph w = Unborn" "arrive q = (n, q')"
  shows "queue_inv (q'\<lparr>eq_waiters := (eq_waiters q')(w \<mapsto> newEgressWaiter n)\<rparr>) pl (ph(w := Preparing)) jobs"
proof -
  note I = queue_invD [OF assms(1)]
  from waiting_arrive [OF I(2) assms(2)] assms(1,3) show ?thesis
    by (auto simp: arrive_def queue_inv_def jobs_ok_def)
qed

lemma inv_wait:
  assumes "queue_inv q pl ph jobs" "ph w = Preparing" "claim_start q h w = (None, q')"
  shows "queue_inv q' pl (ph(w := Claiming h)) jobs"
proof -
  note I = queue_invD [OF assms(1)]
  have un: "queue_at (eq_unused q) h = []"
    and q': "q' = q\<lparr>eq_waiting := (eq_waiting q)(h \<mapsto> insertByArrival (\<lambda>w. ew_arrival (the (eq_waiters q w))) (queue_at (eq_waiting q) h) w),
      eq_waiters := eq_waiters q\<rparr>"
    using assms(3) by (auto simp: claim_start_def waiter_arrived_def [abs_def] split: list.splits)
  show ?thesis unfolding q'
    by (rule inv_waiters [OF assms(1) waiting_insert [OF I(2) assms(2)]]) (use un I(3) in auto)
qed

lemma inv_receive:
  assumes "queue_inv q pl ph jobs" "ph w = Claiming h" "claim_receive q w = Some (p, q')"
  shows "queue_inv q' (pl(p := Claimed w)) (ph(w := Settled)) jobs"
proof -
  note I = queue_invD [OF assms(1)]
  obtain y where y: "eq_waiters q w = Some y" using waiting_okD(7) [OF I(2), of w] assms(2) by auto
  with assms(3) obtain ps where ps: "ew_ready y = p # ps"
    and q': "q' = q\<lparr>eq_waiting := eq_waiting q, eq_waiters := (eq_waiters q)(w \<mapsto> y\<lparr>ew_ready := ps\<rparr>)\<rparr>"
    by (auto simp: claim_receive_def split: list.splits)
  note R = waiting_receive [OF I(2) assms(2) y ps]
  show ?thesis unfolding q'
    by (rule inv_waiters [OF assms(1) R(2)]) (use R(1) I(3) in \<open>auto split: if_splits\<close>)
qed

lemma inv_giveup:
  assumes "queue_inv q pl ph jobs" "ph w = Claiming h" "claim_giveup q h w = (True, q')"
  shows "queue_inv q' pl (ph(w := Settled)) jobs"
proof -
  note I = queue_invD [OF assms(1)]
  have w: "w \<in> set (queue_at (eq_waiting q) h)"
    and q': "q' = q\<lparr>eq_waiting := set_queue (eq_waiting q) h (remove1 w (queue_at (eq_waiting q) h)), eq_waiters := eq_waiters q\<rparr>"
    using assms(3) by (auto simp: claim_giveup_def setWaiting_def Let_def split: if_splits)
  show ?thesis unfolding q'
    by (rule inv_waiters [OF assms(1) waiting_giveup [OF I(2) assms(2) w]]) (use I(3) in \<open>force split: if_splits\<close>)+
qed

text \<open>A reference leaves the unused ones, claimed or expired.\<close>

lemma inv_leave:
  assumes "queue_inv q pl ph jobs" "pl p = Unused h" "\<And>k. x \<noteq> Unused k" "\<And>w. x \<noteq> Delivered w"
    "x \<noteq> Nowhere" "x \<noteq> Hashing" "outcome_ok e" "x = Gone \<Longrightarrow> dropped_ok e (eq_released q @ raws)"
    "waiting_ok (eq_waiting q) (eq_waiters q) ph' pl"
  shows "queue_inv (set_pending (setUnused q h (remove1 p (queue_at (eq_unused q) h))) p e raws) (pl(p := x)) ph' jobs"
    (is "queue_inv ?q _ _ _")
proof -
  note I = queue_invD [OF assms(1)]
  have q: "?q = q\<lparr>eq_unused := set_queue (eq_unused q) h (remove1 p (queue_at (eq_unused q) h)),
      eq_pendings := (eq_pendings q)(p \<mapsto> e), eq_released := eq_released q @ raws\<rparr>"
    by (simp add: set_pending_def setUnused_def)
  show ?thesis
  proof (rule queue_invI)
    show "unused_ok (eq_unused ?q) (eq_pendings ?q) (pl(p := x))"
      using unused_remove [OF I(1) assms(2,3)] by (simp add: q)
    show "waiting_ok (eq_waiting ?q) (eq_waiters ?q) ph' (pl(p := x))"
      using waiting_frame [OF assms(9), of "pl(p := x)"] assms(2,4) by (auto simp: q)
    show "jobs_ok ?q jobs (pl(p := x))"
      by (rule jobs_frame [OF I(4)]) (use assms(6) in \<open>auto simp: q split: if_splits\<close>)
    show "responses_ok (eq_pendings ?q) (eq_released ?q) (pl(p := x))"
      using responses_upd [OF I(5) assms(5,7,8)] by (simp add: q)
    show "queue_at (eq_unused ?q) k = [] \<or> queue_at (eq_waiting ?q) k = []" for k
      using I(3) [of k] by (auto simp: q)
  qed (use I(6) assms(5) in \<open>auto simp: q split: if_splits\<close>)
qed

lemma unused_pending:
  assumes "queue_inv q pl ph jobs" "pl p \<noteq> Nowhere"
  obtains e where "eq_pendings q p = Some e" "outcome_ok e"
  by (rule responses_okD [OF queue_invD(5) [OF assms(1)] assms(2)])

lemma in_unused: "queue_inv q pl ph jobs \<Longrightarrow> p \<in> set (queue_at (eq_unused q) h) \<longleftrightarrow> pl p = Unused h"
  by (auto simp: queue_inv_def unused_ok_def)

lemma inv_claim:
  assumes "queue_inv q pl ph jobs" "ph w = Preparing" "claim_start q h w = (Some p, q')"
  shows "queue_inv q' (pl(p := Claimed w)) (ph(w := Settled)) jobs"
proof -
  note I = queue_invD [OF assms(1)]
  from assms(3) obtain ps where un: "queue_at (eq_unused q) h = p # ps"
    and q': "q' = (setUnused q h ps)\<lparr>eq_pendings := (eq_pendings q)(p \<mapsto> stopExpiry (the (eq_pendings q p)))\<rparr>"
    by (auto simp: claim_start_def split: list.splits)
  from un in_unused [OF assms(1), of p h] have p: "pl p = Unused h" by simp
  then obtain e where e: "eq_pendings q p = Some e" "outcome_ok e"
    using unused_pending [OF assms(1)] by (metis place.distinct(3))
  have eq: "q' = set_pending (setUnused q h (remove1 p (queue_at (eq_unused q) h))) p (stopExpiry e) []"
    by (simp add: q' un e(1) set_pending_def setUnused_def)
  show ?thesis unfolding eq
    by (rule inv_leave [OF assms(1) p]) (use e waiting_settle [OF I(2) assms(2)] in auto)
qed

lemma inv_expire:
  assumes "queue_inv q pl ph jobs" "pl p = Unused h"
  shows "queue_inv (expire q h p) (pl(p := Gone)) ph jobs"
proof -
  obtain e where e: "eq_pendings q p = Some e" "outcome_ok e"
    using unused_pending [OF assms(1)] assms(2) by (metis place.distinct(3))
  obtain e' raws where ab: "exchange_abandon e = (e', raws)" by fastforce
  have eq: "expire q h p = set_pending (setUnused q h (remove1 p (queue_at (eq_unused q) h))) p e' raws"
    using in_unused [OF assms(1), of p h] assms(2) e(1) ab by (simp add: expire_def abandon_def setUnused_def)
  show ?thesis unfolding eq
    by (rule inv_leave [OF assms]) (use abandon_dropped [OF ab e(2)] queue_invD(2) [OF assms(1)] in auto)
qed

lemma late_expire: "queue_inv q pl ph jobs \<Longrightarrow> pl p \<noteq> Unused h \<Longrightarrow> expire q h p = q"
  by (simp add: expire_def in_unused)

lemma inv_job_done:
  assumes "queue_inv q pl ph jobs" "p \<in> set jobs" "pl p \<noteq> Hashing" "finishHashing q = Inr q'"
  shows "queue_inv q' pl ph (remove1 p jobs)"
  using assms(1) jobs_done [OF queue_invD(4) [OF assms(1)] assms(2-4)] assms(4)
  by (auto simp: queue_inv_def finishHashing_def Let_def split: if_splits)

lemma inv_take:
  assumes "queue_inv q pl ph jobs" "egress_take q e = (r, q')"
  shows "queue_inv q' pl ph jobs" "r = Some p \<Longrightarrow> pl p \<noteq> Nowhere"
  using assms by (auto simp: queue_inv_def egress_take_def jobs_ok_def split: option.splits if_splits)

lemma inv_finish:
  assumes "queue_inv q pl ph jobs" "pl p \<noteq> Nowhere" "raw = None \<or> failure = None"
  shows "queue_inv (finish q p raw failure) pl ph jobs"
proof -
  note I = queue_invD [OF assms(1)]
  obtain e where e: "eq_pendings q p = Some e" "outcome_ok e" "pl p = Gone \<longrightarrow> dropped_ok e (eq_released q)"
    by (rule responses_okD [OF I(5) assms(2)]) blast
  obtain e' raws where f: "exchange_finish e raw failure = (e', raws)" by fastforce
  have q: "finish q p raw failure = q\<lparr>eq_pendings := (eq_pendings q)(p \<mapsto> e'), eq_released := eq_released q @ raws\<rparr>"
    by (simp add: finish_def e(1) f set_pending_def)
  have "responses_ok ((eq_pendings q)(p \<mapsto> e')) (eq_released q @ raws) (pl(p := pl p))"
    by (rule responses_upd [OF I(5) assms(2)]) (use finish_outcome [OF f e(2) assms(3)] e(3) in auto)
  moreover have "unused_ok (eq_unused q) ((eq_pendings q)(p \<mapsto> e')) pl"
    by (rule unused_frame [OF I(1)]) (use finish_keeps [OF f] e(1) in auto)
  ultimately show ?thesis unfolding q using I by (intro queue_invI) (auto simp: jobs_ok_def)
qed

lemma inv_released:
  assumes "queue_inv q pl ph jobs"
  shows "queue_inv (q\<lparr>eq_released := eq_released q @ raws\<rparr>) pl ph jobs"
proof -
  have "responses_ok (eq_pendings q) (eq_released q @ raws) pl"
    by (rule responses_frame [OF queue_invD(5) [OF assms]]) auto
  with assms show ?thesis by (simp add: queue_inv_def jobs_ok_def)
qed

lemma inv_response: "queue_inv q pl ph jobs \<Longrightarrow> queue_inv (egress_reference_response q e response) pl ph jobs"
  by (cases "egress_take q e")
    (auto simp: egress_reference_response_def intro!: inv_released inv_finish dest: inv_take split: option.splits)

lemma inv_unable: "queue_inv q pl ph jobs \<Longrightarrow> queue_inv (egress_reference_unable q e reason) pl ph jobs"
  by (cases "egress_take q e")
    (auto simp: egress_reference_unable_def intro!: inv_finish dest: inv_take split: option.splits)

lemma inv_unreplayed:
  assumes "queue_inv q pl ph jobs" "pl p = Claimed w"
    "exchange_wait (the (eq_pendings q p)) ctx prefer = Some (Inl err, e, raws)"
  shows "queue_inv (set_pending q p e raws) (pl(p := Gone)) ph jobs"
proof -
  obtain x where x: "eq_pendings q p = Some x" "outcome_ok x"
    by (rule unused_pending [OF assms(1)]) (use assms(2) in auto)
  with wait_error_dropped [where e = x and released = "eq_released q"] assms(3)
  show ?thesis by (intro inv_drop [OF assms(1)]) (use assms(2) in auto)
qed

lemma inv_replay:
  assumes "queue_inv q pl ph jobs" "pl p = Claimed w"
    "exchange_wait (the (eq_pendings q p)) ctx prefer = Some (Inr raw, e, raws)"
  shows "queue_inv (set_pending q p e raws) (pl(p := Replayed)) ph jobs"
proof -
  obtain x where x: "eq_pendings q p = Some x" by (rule unused_pending [OF assms(1)]) (use assms(2) in auto)
  have eq: "set_pending q p e raws = q\<lparr>eq_waiting := eq_waiting q, eq_waiters := eq_waiters q\<rparr>"
    using wait_success [OF assms(3)] x by (simp add: set_pending_def fun_upd_idem)
  note I = queue_invD [OF assms(1)]
  have "waiting_ok (eq_waiting q) (eq_waiters q) ph (pl(p := Replayed))"
    by (rule waiting_frame [OF I(2)]) (use assms(2) in auto)
  then show ?thesis unfolding eq by (rule inv_waiters [OF assms(1)]) (use I(3) assms(2) in \<open>auto split: if_splits\<close>)
qed

lemma inv_egress_init: "egress_inv (egress_init window)"
  by (simp add: egress_inv_def egress_init_def newEgressQueue_def queue_inv_def unused_ok_def waiting_ok_def jobs_ok_def responses_ok_def ready_def)

lemma egress_inv_step: "egress_step s t \<Longrightarrow> egress_inv s \<Longrightarrow> egress_inv t"
proof (induction rule: egress_step.induct)
  case (es_late_expire s p h)
  then show ?case using late_expire by (fastforce simp: egress_inv_def)
next
  case (es_misreported s response)
  then show ?case by (simp add: egress_inv_def egress_candidate_response_def inv_released)
qed (auto simp: egress_inv_def intro: inv_forward inv_hashed inv_delivered inv_unhashed inv_job_done inv_arrive
    inv_claim inv_wait inv_receive inv_giveup inv_expire inv_response inv_unable inv_replay inv_unreplayed inv_quarantine)

interpretation egress: invariant_system "egress_init window" egress_step egress_inv
  by unfold_locales (auto intro: inv_egress_init egress_inv_step)

subsection \<open>What every interleaving keeps\<close>

lemma pairs_in_arrival_order_cases:
  assumes "reach (egress_init window) egress_step s"
  shows "queue_at (eq_unused (es_queue s)) h = [] \<or> queue_at (eq_waiting (es_queue s)) h = []"
    and "claim_start (es_queue s) h w = (Some p, q) \<Longrightarrow> p' \<in> set (queue_at (eq_unused (es_queue s)) h) \<Longrightarrow>
      pending_arrived (es_queue s) p \<le> pending_arrived (es_queue s) p'"
    and "queue_at (eq_waiting (es_queue s)) h = v # vs \<Longrightarrow> v' \<in> set vs \<Longrightarrow>
      waiter_arrived (es_queue s) v \<le> waiter_arrived (es_queue s) v'"
proof -
  have I: "queue_inv (es_queue s) (es_place s) (es_phase s) (es_jobs s)"
    using egress.reach_inv [OF assms] by (simp add: egress_inv_def)
  show "queue_at (eq_unused (es_queue s)) h = [] \<or> queue_at (eq_waiting (es_queue s)) h = []" by (rule queue_invD(3) [OF I])
  have "sorted (map (exchange_arrived (eq_pendings (es_queue s))) (queue_at (eq_unused (es_queue s)) h))"
    using queue_invD(1) [OF I] by (simp add: unused_ok_def)
  then show "claim_start (es_queue s) h w = (Some p, q) \<Longrightarrow> p' \<in> set (queue_at (eq_unused (es_queue s)) h) \<Longrightarrow>
      pending_arrived (es_queue s) p \<le> pending_arrived (es_queue s) p'"
    by (auto simp: claim_start_def pending_arrived_def split: list.splits)
  show "queue_at (eq_waiting (es_queue s)) h = v # vs \<Longrightarrow> v' \<in> set vs \<Longrightarrow>
      waiter_arrived (es_queue s) v \<le> waiter_arrived (es_queue s) v'"
    using waiting_okD(2) [OF queue_invD(2) [OF I], of h] by (auto simp: waiter_arrived_def)
qed


lemma delivery_never_blocks_cases:
  assumes "reach (egress_init window) egress_step s"
  shows "es_place s p = Hashing \<Longrightarrow> \<exists>q. forward_hashed (es_queue s) p protocol route hash = Some q"
    and "es_phase s w = Claiming h \<Longrightarrow> fst (claim_giveup (es_queue s) h w) = False \<Longrightarrow>
      \<exists>p q. claim_receive (es_queue s) w = Some (p, q) \<and> es_place s p = Delivered w"
proof -
  have I: "queue_inv (es_queue s) (es_place s) (es_phase s) (es_jobs s)"
    using egress.reach_inv [OF assms] by (simp add: egress_inv_def)
  note W = waiting_okD [OF queue_invD(2) [OF I]]
  show "\<exists>q. forward_hashed (es_queue s) p protocol route hash = Some q"
  proof (cases hash)
    case (Inr k)
    show ?thesis
    proof (cases "queue_at (eq_waiting (es_queue s)) k")
      case (Cons v vs)
      with W(3,4) [of v k] W(7) [of v] have "ew_ready (the (eq_waiters (es_queue s) v)) = []"
        by (cases "eq_waiters (es_queue s) v") auto
      with Inr Cons show ?thesis by (simp add: forward_hashed_def add_def deliver_def)
    qed (simp add: Inr forward_hashed_def add_def)
  qed (simp add: forward_hashed_def)
  assume c: "es_phase s w = Claiming h" "fst (claim_giveup (es_queue s) h w) = False"
  then have "ready (eq_waiters (es_queue s)) w \<noteq> []"
    using W(8) [of w h] by (auto simp: claim_giveup_def Let_def split: if_splits)
  then obtain y p ps where "eq_waiters (es_queue s) w = Some y" "ew_ready y = p # ps"
    by (auto simp: ready_def neq_Nil_conv split: option.splits)
  with W(5) [of w] show "\<exists>p q. claim_receive (es_queue s) w = Some (p, q) \<and> es_place s p = Delivered w"
    by (auto simp: claim_receive_def)
qed

text \<open>
  C7. Delivery never blocks: the goroutine that hashed a reference always gets past \<open>add\<close>, since a
  queued waiter's one slot is empty, and a claim that gives up only to find its waiter already
  dequeued always has its reference in the channel.
\<close>

theorem delivery_never_blocks:
  assumes "reach (egress_init window) egress_step s"
  shows "(es_place s p = Hashing \<longrightarrow> (\<exists>q. forward_hashed (es_queue s) p protocol route hash = Some q))
    \<and> (es_phase s w = Claiming h \<and> fst (claim_giveup (es_queue s) h w) = False \<longrightarrow>
        (\<exists>p q. claim_receive (es_queue s) w = Some (p, q) \<and> es_place s p = Delivered w))"
  using delivery_never_blocks_cases [OF assms] by blast

lemma shutdown_waits_for_hashing_cases:
  assumes "reach (egress_init window) egress_step s"
  shows "shutdown_wait (es_queue s) (eq_idle (es_queue s)) None pick = Some (Inr ()) \<longleftrightarrow> es_jobs s = []"
    and "es_jobs s \<noteq> [] \<Longrightarrow> \<exists>q. finishHashing (es_queue s) = Inr q"
proof -
  have J: "jobs_ok (es_queue s) (es_jobs s) (es_place s)"
    using egress.reach_inv [OF assms] queue_invD(4) by (auto simp: egress_inv_def)
  then show "shutdown_wait (es_queue s) (eq_idle (es_queue s)) None pick = Some (Inr ()) \<longleftrightarrow> es_jobs s = []"
    by (simp add: shutdown_wait_def jobs_ok_def)
  show "es_jobs s \<noteq> [] \<Longrightarrow> \<exists>q. finishHashing (es_queue s) = Inr q" by (rule jobs_never_panic [OF J])
qed

text \<open>
  Shutdown waits for exactly the hashes in progress: it returns at once if and only if no
  hashing goroutine is left, and a goroutine that finishes never closes a closed channel.
\<close>

theorem shutdown_waits_for_hashing:
  assumes "reach (egress_init window) egress_step s"
  shows "(shutdown_wait (es_queue s) (eq_idle (es_queue s)) None pick = Some (Inr ()) \<longleftrightarrow> es_jobs s = [])
    \<and> (es_jobs s \<noteq> [] \<longrightarrow> (\<exists>q. finishHashing (es_queue s) = Inr q))"
  using shutdown_waits_for_hashing_cases [OF assms] by blast

text \<open>
  No dropped response leaks: once nobody will replay a reference, whether its hashing failed,
  it expired unclaimed or the candidate stopped waiting, its response has been released, or will
  be by \<open>finish\<close> as soon as the reference server records it.
\<close>

theorem dropped_responses_released:
  assumes "reach (egress_init window) egress_step s" "es_place s p = Gone"
  shows "\<exists>e. eq_pendings (es_queue s) p = Some e
    \<and> (case Future_Get (ee_outcome e) of
         Some oc \<Rightarrow> set_option (eo_raw oc) \<subseteq> set (eq_released (es_queue s))
       | None \<Rightarrow> \<forall>raw. snd (exchange_finish e (Some raw) None) = [raw])"
proof -
  have "queue_inv (es_queue s) (es_place s) (es_phase s) (es_jobs s)"
    using egress.reach_inv [OF assms(1)] by (simp add: egress_inv_def)
  from responses_okD [OF queue_invD(5) [OF this], of p] assms(2)
  obtain e where e: "eq_pendings (es_queue s) p = Some e" "dropped_ok e (eq_released (es_queue s))" by auto
  then show ?thesis
    by (cases "Future_Get (ee_outcome e)")
      (auto simp: dropped_ok_def exchange_release_def exchange_finish_def Let_def Future_Get_Set split: option.splits)
qed

text \<open>A claimed reference stays with its candidate.\<close>

fun taken_by :: "waiter \<Rightarrow> 'h place \<Rightarrow> bool" where
  "taken_by w (Claimed v) = (v = w)"
| "taken_by w Replayed = True"
| "taken_by w Gone = True"
| "taken_by w _ = False"

lemma claim_start_unused:
  "queue_inv q pl ph jobs \<Longrightarrow> claim_start q h w = (Some p, q') \<Longrightarrow> pl p = Unused h"
  using in_unused [of q pl ph jobs p h] by (auto simp: claim_start_def split: list.splits)

lemma claim_receive_delivered:
  assumes "queue_inv q pl ph jobs" "eq_waiters q w \<noteq> None" "claim_receive q w = Some (p, q')"
  shows "pl p = Delivered w"
proof -
  from assms(2,3) have "p \<in> set (ready (eq_waiters q) w)"
    by (auto simp: claim_receive_def ready_def split: list.splits)
  with waiting_okD(5) [OF queue_invD(2) [OF assms(1)], of w] show ?thesis by auto
qed

lemma taken_step:
  assumes "egress_step s t" "egress_inv s" "taken_by w (es_place s p)"
  shows "taken_by w (es_place t p)"
  using assms
proof (induction rule: egress_step.induct)
  case (es_claim s v h p' q)
  then have "es_place s p' = Unused h" using claim_start_unused by (auto simp: egress_inv_def)
  with es_claim show ?case by (cases "p' = p") auto
next
  case (es_receive s v h p' q)
  then have I: "queue_inv (es_queue s) (es_place s) (es_phase s) (es_jobs s)" by (simp add: egress_inv_def)
  have "eq_waiters (es_queue s) v \<noteq> None" using waiting_okD(7) [OF queue_invD(2) [OF I], of v] es_receive by auto
  with claim_receive_delivered [OF I] es_receive have "es_place s p' = Delivered v" by blast
  with es_receive show ?case by (cases "p' = p") auto
qed (auto split: if_splits)

lemma taken_reach:
  assumes "reach (egress_init window) egress_step s" "reach s egress_step t" "taken_by w (es_place s p)"
  shows "egress_inv t \<and> taken_by w (es_place t p)"
  using assms(2)
proof (induction rule: reach.induct)
  case reach_init
  with assms(3) egress.reach_inv [OF assms(1)] show ?case by simp
next
  case (reach_step s t)
  with egress_inv_step taken_step show ?case by blast
qed

text \<open>
  C5. Each reference is claimed once, so duplicates pair one-to-one: after a candidate has claimed
  a reference, no later claim or channel hands out that reference again, whatever handlers run in
  between.
\<close>

theorem reference_claimed_once:
  assumes "reach (egress_init window) egress_step s" "es_place s p = Claimed w" "reach s egress_step t"
  shows "fst (claim_start (es_queue t) h v) \<noteq> Some p
    \<and> (eq_waiters (es_queue t) v \<noteq> None \<longrightarrow> map_option fst (claim_receive (es_queue t) v) \<noteq> Some p)"
proof -
  have "taken_by w (es_place s p)" by (simp add: assms(2))
  from taken_reach [OF assms(1,3) this]
  have I: "queue_inv (es_queue t) (es_place t) (es_phase t) (es_jobs t)" and p: "taken_by w (es_place t p)"
    by (simp_all add: egress_inv_def)
  have "fst (claim_start (es_queue t) h v) \<noteq> Some p"
    using claim_start_unused [OF I, of h v p] p by (cases "claim_start (es_queue t) h v") auto
  moreover have "map_option fst (claim_receive (es_queue t) v) \<noteq> Some p" if "eq_waiters (es_queue t) v \<noteq> None"
    using claim_receive_delivered [OF I that, of p] p by auto
  ultimately show ?thesis by blast
qed

subsection \<open>A concrete run\<close>

text \<open>One reference request with hash 7, under hash 7 unused, and one candidate that claims it.\<close>

definition run_window :: duration where "run_window = 5"

definition run_hashing :: "nat egress_system" where
  "run_hashing = (egress_init run_window)\<lparr>es_queue := snd (forward (newEgressQueue run_window) ''e'' 0),
     es_place := (\<lambda>_. Nowhere)(0 := Hashing), es_jobs := [0]\<rparr>"

definition run_unused :: "nat egress_system" where
  "run_unused = run_hashing\<lparr>es_queue := the (forward_hashed (es_queue run_hashing) 0 ''HTTP'' ''GET /'' (Inr 7)),
     es_place := (es_place run_hashing)(0 := Unused 7)\<rparr>"

definition run_gone :: "nat egress_system" where
  "run_gone = run_hashing\<lparr>es_queue := the (forward_hashed (es_queue run_hashing) 0 ''HTTP'' ''GET /'' (Inl ''bad'')),
     es_place := (es_place run_hashing)(0 := Gone)\<rparr>"

definition run_arrived :: "nat egress_system" where
  "run_arrived = run_unused\<lparr>es_queue := (snd (arrive (es_queue run_unused)))\<lparr>eq_waiters :=
     [0 \<mapsto> newEgressWaiter (fst (arrive (es_queue run_unused)))]\<rparr>, es_phase := (\<lambda>_. Unborn)(0 := Preparing)\<rparr>"

definition run_claimed :: "nat egress_system" where
  "run_claimed = run_arrived\<lparr>es_queue := snd (claim_start (es_queue run_arrived) 7 0),
     es_place := (es_place run_arrived)(0 := Claimed 0), es_phase := (es_phase run_arrived)(0 := Settled)\<rparr>"

lemmas run_defs = run_hashing_def run_unused_def run_gone_def run_arrived_def run_claimed_def

lemmas queue_ops = egress_init_def newEgressQueue_def forward_def startHashing_def forward_hashed_def add_def
  arrive_def claim_start_def setUnused_def insertByArrival_def pending_arrived_def binary_search.simps
  newEgressExchange_def expireAfter_def Let_def

lemma reach_hashing: "reach (egress_init run_window) egress_step run_hashing"
proof -
  have "egress_step (egress_init run_window) run_hashing"
    using es_forward [of "egress_init run_window" 0 "''e''"] by (simp add: run_hashing_def egress_init_def newEgressQueue_def)
  with reach_init show ?thesis by (rule reach_step)
qed

lemma reach_unused: "reach (egress_init run_window) egress_step run_unused"
proof -
  have "egress_step run_hashing run_unused"
    unfolding run_unused_def
    by (rule es_hashed [where protocol = "''HTTP''" and route = "''GET /''"]) (simp_all add: run_hashing_def queue_ops)
  with reach_hashing show ?thesis by (rule reach_step)
qed

lemma reach_gone: "reach (egress_init run_window) egress_step run_gone"
proof -
  have "egress_step run_hashing run_gone"
    unfolding run_gone_def
    by (rule es_unhashed [where protocol = "''HTTP''" and route = "''GET /''" and err = "''bad''"])
      (simp_all add: run_hashing_def queue_ops)
  with reach_hashing show ?thesis by (rule reach_step)
qed

lemma reach_arrived: "reach (egress_init run_window) egress_step run_arrived"
proof -
  have "egress_step run_unused run_arrived"
    using es_arrive [of run_unused 0 "fst (arrive (es_queue run_unused))" "snd (arrive (es_queue run_unused))"]
    by (simp add: run_arrived_def run_unused_def run_hashing_def queue_ops)
  with reach_unused show ?thesis by (rule reach_step)
qed

lemma run_claim: "claim_start (es_queue run_arrived) 7 0 = (Some 0, snd (claim_start (es_queue run_arrived) 7 0))"
  by (rule prod_eqI) (simp_all add: run_arrived_def run_unused_def run_hashing_def queue_ops)

lemma reach_claimed: "reach (egress_init run_window) egress_step run_claimed"
proof -
  have "egress_step run_arrived run_claimed"
    unfolding run_claimed_def by (rule es_claim [OF _ run_claim]) (simp add: run_arrived_def)
  with reach_arrived show ?thesis by (rule reach_step)
qed


theorem delivery_never_blocks_witness:
  "es_place run_hashing 0 = Hashing \<and> (\<exists>q. forward_hashed (es_queue run_hashing) 0 ''HTTP'' ''GET /'' (Inr 7) = Some q)"
  using delivery_never_blocks [OF reach_hashing, of 0] by (simp add: run_hashing_def)

theorem reference_claimed_once_witness:
  "es_place run_claimed 0 = Claimed 0 \<and> fst (claim_start (es_queue run_claimed) 7 1) \<noteq> Some 0"
proof -
  have p: "es_place run_claimed 0 = Claimed 0" by (simp add: run_claimed_def)
  from reference_claimed_once [OF reach_claimed p reach_init] p show ?thesis by simp
qed

end
