(* ===== verification/Migration_State.thy ===== *)
theory Migration_State
  imports Spectre_Model "HOL-Library.AList"
begin

text \<open>
  \<open>internal/state\<close>: the catalog of supported IO kinds and the checker of a service's migration
  state file, which collects every problem instead of stopping at the first.

  Decoding TOML is third-party code, so the checker starts from the decoded document and from
  the expressions of the syntax tree. A Go map is an association list that is read through
  \<open>map_of\<close> and iterated through its sorted keys; a lookup of a missing node reads as the zero
  node. The problems that a method appends to the parser are the list that its definition
  returns, in order.
\<close>

subsection \<open>The catalog\<close>

datatype setting = Setting
  (st_name: string) (st_required: bool) (st_description: string) (st_key: string) (st_unique: bool)
  (st_entry: "setting list")

record support =
  su_kind :: iokind
  su_description :: string
  su_settings :: "setting list"

type_synonym catalog = "support list"

definition directionOrder :: "direction \<Rightarrow> int" where
  "directionOrder d = (if d = Ingress then 0 else 1)"

definition support_before :: "support \<Rightarrow> support \<Rightarrow> bool" where
  "support_before a b \<longleftrightarrow>
     k_protocol (su_kind a) < k_protocol (su_kind b)
     \<or> k_protocol (su_kind a) = k_protocol (su_kind b)
       \<and> directionOrder (k_direction (su_kind a)) < directionOrder (k_direction (su_kind b))"

text \<open>
  \<open>slices.SortFunc\<close> as an insertion sort. It does not promise an order for elements that compare
  equal; with the directions ingress and egress those are of one kind, and the catalog is refused.
\<close>

fun insert_support :: "support \<Rightarrow> support list \<Rightarrow> support list" where
  "insert_support x [] = [x]"
| "insert_support x (y # ys) = (if support_before x y then x # y # ys else y # insert_support x ys)"

definition sort_supports :: "support list \<Rightarrow> support list" where
  "sort_supports supports = foldl (\<lambda>sorted x. insert_support x sorted) [] supports"

fun supported_twice :: "support list \<Rightarrow> support option" where
  "supported_twice (a # b # rest) = (if su_kind b = su_kind a then Some b else supported_twice (b # rest))"
| "supported_twice _ = None"

definition NewCatalog :: "support list \<Rightarrow> catalog result" where
  "NewCatalog supports =
     (let sorted = sort_supports supports in
      case supported_twice sorted of
        Some s \<Rightarrow> Inl (IOKind_String (su_kind s) @ '' is supported twice'')
      | None \<Rightarrow> Inr sorted)"

definition Supports :: "catalog \<Rightarrow> support list" where
  "Supports c = c"

definition Catalog_Support :: "catalog \<Rightarrow> iokind \<Rightarrow> support option" where
  "Catalog_Support c kind = find (\<lambda>s. su_kind s = kind) c"

record node_type =
  nt_name :: string
  nt_description :: string
  nt_table :: string
  nt_settings :: "setting list"

definition Library :: string where "Library = ''library''"

definition libraryDescription :: string where
  "libraryDescription = ''Module shared by more than one other node that performs no IO, ''
     @ ''such as shared domain types, validation, calculations, and helpers.''"

definition NodeTypes :: "catalog \<Rightarrow> node_type list" where
  "NodeTypes c =
     \<lparr>nt_name = Library, nt_description = libraryDescription, nt_table = [], nt_settings = []\<rparr>
     # map (\<lambda>s. \<lparr>nt_name = IOKind_String (su_kind s), nt_description = su_description s,
         nt_table = ''nodes.<id>.'' @ k_direction (su_kind s) @ ''.'' @ k_protocol (su_kind s),
         nt_settings = su_settings s\<rparr>) (Supports c)"

subsection \<open>The state and its problems\<close>

datatype toml = Table "(string \<times> toml) list" | Array "toml list" | Text string | OtherValue

type_synonym toml_table = "(string \<times> toml) list"

datatype status = Pending | Migrated

fun status_text :: "status \<Rightarrow> string" where
  "status_text Pending = ''pending''"
| "status_text Migrated = ''migrated''"

record node =
  n_id :: string
  n_dependsOn :: "string list"
  n_status :: status
  n_io :: "(iokind \<times> toml_table) list"
  n_line :: int

record problem =
  pr_line :: int
  pr_message :: string

definition Problem_String :: "problem \<Rightarrow> string" where
  "Problem_String p =
     (if pr_line p = 0 then pr_message p else ''line '' @ show_int (pr_line p) @ '': '' @ pr_message p)"

text \<open>\<open>InvalidError.Error\<close>, which reads the first problem and so needs one.\<close>

definition InvalidError_Error :: "problem list \<Rightarrow> string" where
  "InvalidError_Error ps =
     (if length ps = 1 then Problem_String (ps ! 0)
      else Problem_String (ps ! 0) @ '' (and '' @ show_int (int (length ps) - 1) @ '' more problems)'')"

abbreviation nodesKey :: string where "nodesKey \<equiv> ''nodes''"
abbreviation dependsOnKey :: string where "dependsOnKey \<equiv> ''depends_on''"
abbreviation statusKey :: string where "statusKey \<equiv> ''status''"

definition lower_or_digit :: "char \<Rightarrow> bool" where
  "lower_or_digit c \<longleftrightarrow> CHR ''a'' \<le> c \<and> c \<le> CHR ''z'' \<or> CHR ''0'' \<le> c \<and> c \<le> CHR ''9''"

text \<open>\<open>nodeIDPattern\<close>, after a character of a segment or not.\<close>

fun kebab :: "bool \<Rightarrow> string \<Rightarrow> bool" where
  "kebab started [] = started"
| "kebab started (c # s) =
     (if lower_or_digit c then kebab True s else started \<and> c = CHR ''-'' \<and> kebab False s)"

definition nodeIDPattern :: "string \<Rightarrow> bool" where
  "nodeIDPattern i = kebab False i"

definition bare_char :: "char \<Rightarrow> bool" where
  "bare_char c \<longleftrightarrow> lower_or_digit c \<or> CHR ''A'' \<le> c \<and> c \<le> CHR ''Z'' \<or> c = CHR ''_'' \<or> c = CHR ''-''"

definition bareKeyPattern :: "string \<Rightarrow> bool" where
  "bareKeyPattern part \<longleftrightarrow> part \<noteq> [] \<and> list_all bare_char part"

definition key_text :: "string \<Rightarrow> string" where
  "key_text part = (if bareKeyPattern part then part else go_quote part)"

definition keyPath :: "string list \<Rightarrow> string" where
  "keyPath parts = join ''.'' (map key_text parts)"

subsection \<open>Lines of keys\<close>

text \<open>
  The expressions that the TOML syntax tree yields: key-values and table headers. Each part of a
  dotted key comes with its line.
\<close>

type_synonym key_parts = "(string \<times> int) list"

datatype toml_expr = KeyValue key_parts toml_expr_value | Header key_parts
and toml_expr_value = InlineTable "toml_expr list" | PlainValue

type_synonym key_lines = "(string \<times> int) list"

fun recordKey :: "key_lines \<Rightarrow> string list \<Rightarrow> key_parts \<Rightarrow> string list \<times> key_lines" where
  "recordKey lines path [] = (path, lines)"
| "recordKey lines path ((part, line) # key) =
     (let path' = path @ [part] in
      recordKey (if map_of lines (keyPath path') = None then (keyPath path', line) # lines else lines) path' key)"

fun recordKeyValue :: "string list \<Rightarrow> toml_expr \<Rightarrow> key_lines \<Rightarrow> key_lines"
  and record_inline :: "string list \<Rightarrow> toml_expr list \<Rightarrow> key_lines \<Rightarrow> key_lines" where
  "recordKeyValue table (KeyValue key val) lines =
     (case recordKey lines table key of
        (path, lines') \<Rightarrow> (case val of PlainValue \<Rightarrow> lines' | InlineTable children \<Rightarrow> record_inline path children lines'))"
| "recordKeyValue table (Header key) lines = lines"
| "record_inline path [] lines = lines"
| "record_inline path (child # children) lines = record_inline path children (recordKeyValue path child lines)"

fun key_lines_loop :: "string list \<Rightarrow> toml_expr list \<Rightarrow> key_lines \<Rightarrow> key_lines" where
  "key_lines_loop table [] lines = lines"
| "key_lines_loop table (KeyValue key val # rest) lines =
     key_lines_loop table rest (recordKeyValue table (KeyValue key val) lines)"
| "key_lines_loop table (Header key # rest) lines =
     (case recordKey lines [] key of (path, lines') \<Rightarrow> key_lines_loop path rest lines')"

definition keyLines :: "toml_expr list \<Rightarrow> key_lines" where
  "keyLines expressions = key_lines_loop [] expressions []"

subsection \<open>The checker\<close>

definition parser_line :: "key_lines \<Rightarrow> string list \<Rightarrow> int" where
  "parser_line lines path = (case map_of lines (keyPath path) of Some n \<Rightarrow> n | None \<Rightarrow> 0)"

definition reportf :: "key_lines \<Rightarrow> string list \<Rightarrow> string \<Rightarrow> problem" where
  "reportf lines path message = \<lparr>pr_line = parser_line lines path, pr_message = keyPath path @ '': '' @ message\<rparr>"

definition table_keys :: "toml_table \<Rightarrow> string list" where
  "table_keys table = sort (remdups (map fst table))"

definition table_at :: "toml_table \<Rightarrow> string \<Rightarrow> toml" where
  "table_at table key = the (map_of table key)"

fun array_ids :: "toml list \<Rightarrow> string list option" where
  "array_ids [] = Some []"
| "array_ids (Text i # vs) = map_option (Cons i) (array_ids vs)"
| "array_ids (_ # vs) = None"

definition dependsOn :: "key_lines \<Rightarrow> string list \<Rightarrow> toml \<Rightarrow> string list \<times> problem list" where
  "dependsOn lines path val =
     (case val of
        Array vs \<Rightarrow> (case array_ids vs of Some ids \<Rightarrow> (ids, []) | None \<Rightarrow> ([], [reportf lines path ''must be an array of node IDs'']))
      | _ \<Rightarrow> ([], [reportf lines path ''must be an array of node IDs'']))"

definition missing_settings :: "key_lines \<Rightarrow> string list \<Rightarrow> toml_table \<Rightarrow> setting list \<Rightarrow> problem list" where
  "missing_settings lines path table ss =
     map (\<lambda>s. reportf lines path (st_name s @ '' is required''))
       (filter (\<lambda>s. st_required s \<and> map_of table (st_name s) = None) ss)"

lemma find_Some_set: "find P xs = Some x \<Longrightarrow> x \<in> set xs \<and> P x"
  by (induction xs) (auto split: if_splits)

function settings :: "key_lines \<Rightarrow> string list \<Rightarrow> toml_table \<Rightarrow> setting list \<Rightarrow> problem list" where
  "settings lines path table ss =
     missing_settings lines path table ss
     @ concat (map (\<lambda>key.
         let settingPath = path @ [key] in
         case find (\<lambda>s. st_name s = key) ss of
           None \<Rightarrow> [reportf lines settingPath ''unknown setting'']
         | Some s \<Rightarrow>
             (if st_key s = [] then
                (case table_at table key of Table _ \<Rightarrow> [reportf lines settingPath ''must be a value, not a table''] | _ \<Rightarrow> [])
              else
                (case table_at table key of
                   Table entries \<Rightarrow>
                     concat (map (\<lambda>entryKey.
                       case table_at entries entryKey of
                         Table entry \<Rightarrow> settings lines (settingPath @ [entryKey]) entry (st_entry s)
                       | _ \<Rightarrow> [reportf lines (settingPath @ [entryKey]) ''must be a table; write {} for an entry with no settings''])
                       (table_keys entries))
                 | _ \<Rightarrow> [reportf lines settingPath (''must be a table keyed by '' @ st_key s)])))
         (table_keys table))"
  by pat_completeness auto

lemma setting_entry_size: "s \<in> set ss \<Longrightarrow> size_list size (st_entry s) < size_list size ss"
proof (induction ss)
  case (Cons a ss)
  then show ?case by (cases a) auto
qed simp

termination settings
  by (relation "measure (\<lambda>(lines, path, table, ss). size_list size ss)")
    (auto dest!: find_Some_set setting_entry_size)

declare settings.simps [simp del]

text \<open>A loop over keys that changes a value and appends problems.\<close>

fun each_key :: "('x \<Rightarrow> string \<Rightarrow> 'x \<times> problem list) \<Rightarrow> 'x \<Rightarrow> string list \<Rightarrow> 'x \<times> problem list" where
  "each_key f x [] = (x, [])"
| "each_key f x (key # rest) =
     (case f x key of (x', ps) \<Rightarrow> (case each_key f x' rest of (x'', ps') \<Rightarrow> (x'', ps @ ps')))"

definition kind_key :: "key_lines \<Rightarrow> catalog \<Rightarrow> string list \<Rightarrow> direction \<Rightarrow> toml_table \<Rightarrow> (iokind \<times> toml_table) list \<Rightarrow> string
    \<Rightarrow> (iokind \<times> toml_table) list \<times> problem list" where
  "kind_key lines c path direction protocols io protocol =
     (let kindPath = path @ [protocol];
          kind = \<lparr>k_direction = direction, k_protocol = protocol\<rparr>
      in case Catalog_Support c kind of
           None \<Rightarrow> (io, [reportf lines kindPath
             (IOKind_String kind @ '' is not a supported IO kind; run spectre state types for the supported ones'')])
         | Some support \<Rightarrow>
             (case table_at protocols protocol of
                Table ss \<Rightarrow> (AList.update kind ss io, settings lines kindPath ss (su_settings support))
              | _ \<Rightarrow> (io, [reportf lines kindPath (''must be a table of '' @ IOKind_String kind @ '' settings'')])))"

definition kinds :: "key_lines \<Rightarrow> catalog \<Rightarrow> string list \<Rightarrow> direction \<Rightarrow> toml \<Rightarrow> (iokind \<times> toml_table) list
    \<Rightarrow> (iokind \<times> toml_table) list \<times> problem list" where
  "kinds lines c path direction val io =
     (case val of
        Table protocols \<Rightarrow> each_key (kind_key lines c path direction protocols) io (table_keys protocols)
      | _ \<Rightarrow> (io, [reportf lines path ''must be a table keyed by protocol'']))"

definition node_key :: "key_lines \<Rightarrow> catalog \<Rightarrow> string list \<Rightarrow> toml_table \<Rightarrow> node \<Rightarrow> string \<Rightarrow> node \<times> problem list" where
  "node_key lines c path table n key =
     (let kp = path @ [key]; val = table_at table key in
      if key = dependsOnKey then
        (case dependsOn lines kp val of (ids, ps) \<Rightarrow> (n\<lparr>n_dependsOn := ids\<rparr>, ps))
      else if key = statusKey then
        (if val = Text (status_text Pending) then (n\<lparr>n_status := Pending\<rparr>, [])
         else if val = Text (status_text Migrated) then (n\<lparr>n_status := Migrated\<rparr>, [])
         else (n, [reportf lines kp (''must be '' @ go_quote (status_text Pending) @ '' or '' @ go_quote (status_text Migrated))]))
      else if key = Ingress \<or> key = Egress then
        (case kinds lines c kp key val (n_io n) of (io, ps) \<Rightarrow> (n\<lparr>n_io := io\<rparr>, ps))
      else (n, [reportf lines kp (''unknown key; a node holds depends_on, status, '' @ Ingress @ '', and '' @ Egress)]))"

definition parser_node :: "key_lines \<Rightarrow> catalog \<Rightarrow> string list \<Rightarrow> toml_table \<Rightarrow> node \<times> problem list" where
  "parser_node lines c path table =
     each_key (node_key lines c path table)
       \<lparr>n_id = last path, n_dependsOn = [], n_status = Pending, n_io = [], n_line = parser_line lines path\<rparr>
       (table_keys table)"

definition state_node :: "key_lines \<Rightarrow> catalog \<Rightarrow> toml_table \<Rightarrow> string \<Rightarrow> node \<times> problem list" where
  "state_node lines c nodes i =
     (let path = [nodesKey, i];
          named = (if nodeIDPattern i then [] else [reportf lines path ''node IDs must be kebab-case''])
      in case table_at nodes i of
           Table table \<Rightarrow> (case parser_node lines c path table of (n, ps) \<Rightarrow> (n, named @ ps))
         | _ \<Rightarrow> (\<lparr>n_id = i, n_dependsOn = [], n_status = Pending, n_io = [], n_line = parser_line lines path\<rparr>,
                 named @ [reportf lines path ''must be a table'']))"

definition parser_state :: "key_lines \<Rightarrow> catalog \<Rightarrow> toml_table \<Rightarrow> node list \<times> problem list" where
  "parser_state lines c doc =
     (let unknown = map (\<lambda>key. reportf lines [key] ''unknown key; the state holds only nodes'')
                      (filter (\<lambda>key. key \<noteq> nodesKey) (table_keys doc))
      in case map_of doc nodesKey of
           None \<Rightarrow> ([], unknown)
         | Some (Table nodes) \<Rightarrow>
             (let rs = map (state_node lines c nodes) (table_keys nodes)
              in (map fst rs, unknown @ concat (map snd rs)))
         | Some _ \<Rightarrow> ([], unknown @ [reportf lines [nodesKey] ''must be a table of nodes keyed by ID'']))"

subsection \<open>Dependencies\<close>

text \<open>The map of nodes that the checks build; a later node of the same ID replaces an earlier one.\<close>

definition node_at :: "node list \<Rightarrow> string \<Rightarrow> node option" where
  "node_at nodes i = find (\<lambda>n. n_id n = i) (rev nodes)"

definition node_deps :: "node list \<Rightarrow> string \<Rightarrow> string list" where
  "node_deps nodes i = (case node_at nodes i of Some n \<Rightarrow> n_dependsOn n | None \<Rightarrow> [])"

fun check_node_deps :: "key_lines \<Rightarrow> node list \<Rightarrow> node \<Rightarrow> string list \<Rightarrow> string list \<Rightarrow> problem list" where
  "check_node_deps lines nodes n seen [] = []"
| "check_node_deps lines nodes n seen (i # ids) =
     (let path = [nodesKey, n_id n, dependsOnKey] in
      if i = n_id n then reportf lines path ''a node cannot depend on itself'' # check_node_deps lines nodes n seen ids
      else case node_at nodes i of
        None \<Rightarrow> reportf lines path (go_quote i @ '' is not a node'') # check_node_deps lines nodes n seen ids
      | Some dependency \<Rightarrow>
          (if i \<in> set seen then reportf lines path (''lists '' @ go_quote i @ '' twice'') # check_node_deps lines nodes n seen ids
           else (if n_status n = Migrated \<and> n_status dependency = Pending
                 then [reportf lines [nodesKey, n_id n, statusKey] (''migrated, but depends on pending node '' @ go_quote i)] else [])
             @ check_node_deps lines nodes n (i # seen) ids))"

definition known_ids :: "node list \<Rightarrow> string set" where
  "known_ids nodes = n_id ` set nodes \<union> (\<Union>n \<in> set nodes. set (n_dependsOn n))"

lemma finite_known [simp]: "finite (known_ids nodes)"
  by (simp add: known_ids_def)

lemma node_at_in: "node_at nodes i = Some n \<Longrightarrow> n \<in> set nodes \<and> n_id n = i"
  unfolding node_at_def by (drule find_Some_set) simp

lemma node_deps_known: "set (node_deps nodes i) \<subseteq> known_ids nodes"
  by (cases "node_at nodes i") (auto simp: node_deps_def known_ids_def dest: node_at_in)

lemma card_push:
  assumes "d \<notin> set stack"
  shows "card (known_ids nodes - set (stack @ [d])) < card (known_ids nodes \<union> set (d # ds) - set stack)"
  by (rule psubset_card_mono) (use assms in auto)

text \<open>
  The depth-first search of \<open>checkCycles\<close>: the closure \<open>visit\<close> and its loop over the dependencies
  of the last node of the stack. The result is the cycle found, if any, and the nodes done.
\<close>

function visit :: "node list \<Rightarrow> string list \<Rightarrow> string list \<Rightarrow> string list option \<times> string list"
  and visit_deps :: "node list \<Rightarrow> string list \<Rightarrow> string list \<Rightarrow> string list \<Rightarrow> string list option \<times> string list" where
  "visit nodes stack finished =
     (let i = last stack in
      if i \<in> set finished then (None, finished)
      else case visit_deps nodes stack (node_deps nodes i) finished of
        (Some cycle, finished') \<Rightarrow> (Some cycle, finished')
      | (None, finished') \<Rightarrow> (None, i # finished'))"
| "visit_deps nodes stack [] finished = (None, finished)"
| "visit_deps nodes stack (d # ds) finished =
     (if d = last stack then visit_deps nodes stack ds finished
      else if d \<in> set stack then (Some (dropWhile (\<lambda>x. x \<noteq> d) stack @ [d]), finished)
      else case visit nodes (stack @ [d]) finished of
        (Some cycle, finished') \<Rightarrow> (Some cycle, finished')
      | (None, finished') \<Rightarrow> visit_deps nodes stack ds finished')"
  by pat_completeness auto

termination
proof (relation "measures [\<lambda>x. case x of Inl (nodes, stack, finished) \<Rightarrow> card (known_ids nodes - set stack)
      | Inr (nodes, stack, ds, finished) \<Rightarrow> card (known_ids nodes \<union> set ds - set stack),
    \<lambda>x. case x of Inl _ \<Rightarrow> 1 | Inr _ \<Rightarrow> 0,
    \<lambda>x. case x of Inl _ \<Rightarrow> 0 | Inr (nodes, stack, ds, finished) \<Rightarrow> length ds]", goal_cases)
  case (2 nodes stack finished x)
  then show ?case using node_deps_known [of nodes x] by (simp add: Un_absorb2)
next
  case (3 nodes stack d ds finished)
  then have "known_ids nodes \<union> set (d # ds) - set stack \<supseteq> known_ids nodes \<union> set ds - set stack" by auto
  then have "card (known_ids nodes \<union> set ds - set stack) \<le> card (known_ids nodes \<union> set (d # ds) - set stack)"
    by (intro card_mono) auto
  then show ?case by auto
next
  case (4 nodes stack d ds finished)
  then show ?case using card_push [of d stack nodes ds] by simp
next
  case (5 nodes stack d ds finished)
  have "card (known_ids nodes \<union> set ds - set stack) \<le> card (known_ids nodes \<union> set (d # ds) - set stack)"
    by (intro card_mono) auto
  then show ?case by auto
qed simp

declare visit.simps [simp del]

fun check_cycles_loop :: "node list \<Rightarrow> node list \<Rightarrow> string list \<Rightarrow> string list option" where
  "check_cycles_loop nodes [] finished = None"
| "check_cycles_loop nodes (n # ns) finished =
     (case visit nodes [n_id n] finished of
        (Some cycle, _) \<Rightarrow> Some cycle
      | (None, finished') \<Rightarrow> check_cycles_loop nodes ns finished')"

definition checkCycles :: "key_lines \<Rightarrow> node list \<Rightarrow> problem list" where
  "checkCycles lines nodes =
     (case check_cycles_loop nodes nodes [] of
        None \<Rightarrow> []
      | Some cycle \<Rightarrow> [reportf lines [nodesKey, last cycle, dependsOnKey] (''dependency cycle '' @ join '' -> '' cycle)])"

definition checkDependencies :: "key_lines \<Rightarrow> node list \<Rightarrow> problem list" where
  "checkDependencies lines nodes =
     concat (map (\<lambda>n. check_node_deps lines nodes n [] (n_dependsOn n)) nodes) @ checkCycles lines nodes"

subsection \<open>Unique settings\<close>

definition setting_entries :: "node \<Rightarrow> iokind \<Rightarrow> string \<Rightarrow> toml_table" where
  "setting_entries n kind name =
     (case map_of (n_io n) kind of
        None \<Rightarrow> []
      | Some table \<Rightarrow> (case map_of table name of Some (Table entries) \<Rightarrow> entries | _ \<Rightarrow> []))"

fun unique_keys :: "key_lines \<Rightarrow> node \<Rightarrow> iokind \<Rightarrow> string \<Rightarrow> (string \<times> string) list \<Rightarrow> string list
    \<Rightarrow> (string \<times> string) list \<times> problem list" where
  "unique_keys lines n kind name owners [] = (owners, [])"
| "unique_keys lines n kind name owners (key # rest) =
     (case map_of owners key of
        Some owner \<Rightarrow>
          (case unique_keys lines n kind name owners rest of
             (owners', ps) \<Rightarrow> (owners',
               reportf lines [nodesKey, n_id n, k_direction kind, k_protocol kind, name, key]
                 (''also listed by node '' @ go_quote owner) # ps))
      | None \<Rightarrow> unique_keys lines n kind name ((key, n_id n) # owners) rest)"

fun unique_nodes :: "key_lines \<Rightarrow> iokind \<Rightarrow> string \<Rightarrow> (string \<times> string) list \<Rightarrow> node list \<Rightarrow> problem list" where
  "unique_nodes lines kind name owners [] = []"
| "unique_nodes lines kind name owners (n # ns) =
     (case unique_keys lines n kind name owners (table_keys (setting_entries n kind name)) of
        (owners', ps) \<Rightarrow> ps @ unique_nodes lines kind name owners' ns)"

definition checkUnique :: "key_lines \<Rightarrow> catalog \<Rightarrow> node list \<Rightarrow> problem list" where
  "checkUnique lines c nodes =
     concat (map (\<lambda>support.
       concat (map (\<lambda>s. if st_unique s then unique_nodes lines (su_kind support) (st_name s) [] nodes else [])
         (su_settings support)))
       (Supports c))"

subsection \<open>Parsing and reachability\<close>

text \<open>\<open>parse\<close>: the state, or every problem in the order of their lines.\<close>

definition parse :: "key_lines \<Rightarrow> catalog \<Rightarrow> toml_table \<Rightarrow> problem list + node list" where
  "parse lines c doc =
     (case parser_state lines c doc of
        (nodes, ps) \<Rightarrow>
          (let problems = ps @ checkDependencies lines nodes @ checkUnique lines c nodes in
           if length problems > 0 then Inl (sort_key pr_line problems) else Inr nodes))"

definition hasIngress :: "node \<Rightarrow> bool" where
  "hasIngress n \<longleftrightarrow> list_ex (\<lambda>(kind, _). k_direction kind = Ingress) (n_io n)"

partial_function (option) reach_loop :: "node list \<Rightarrow> string list \<Rightarrow> string list \<Rightarrow> string list option" where
  "reach_loop nodes queue reached =
     (case queue of
        [] \<Rightarrow> Some reached
      | i # rest \<Rightarrow>
          (if i \<in> set reached then reach_loop nodes rest reached
           else reach_loop nodes (rest @ node_deps nodes i) (i # reached)))"

definition unreached_warning :: "node \<Rightarrow> problem" where
  "unreached_warning n =
     \<lparr>pr_line = n_line n,
      pr_message = keyPath [nodesKey, n_id n] @ '': no ingress node reaches it, so SPECTRE cannot verify it''\<rparr>"

definition Unreached :: "node list \<Rightarrow> problem list option" where
  "Unreached nodes =
     map_option (\<lambda>reached. map unreached_warning (filter (\<lambda>n. n_id n \<notin> set reached) nodes))
       (reach_loop nodes (map n_id (filter hasIngress nodes)) [])"

subsection \<open>The dependency graph\<close>

definition depends :: "node list \<Rightarrow> (string \<times> string) set" where
  "depends nodes = {(a, b). b \<in> set (node_deps nodes a)}"

text \<open>The edges that the search for cycles follows; a node that depends on itself is another problem.\<close>

definition proper_depends :: "node list \<Rightarrow> (string \<times> string) set" where
  "proper_depends nodes = depends nodes - Id"

definition closed_acyclic :: "('a \<times> 'a) set \<Rightarrow> 'a set \<Rightarrow> bool" where
  "closed_acyclic E D \<longleftrightarrow> E `` D \<subseteq> D \<and> acyclic (E \<inter> D \<times> D)"

lemma closed_acyclic_empty [simp]: "closed_acyclic E {}"
  by (simp add: closed_acyclic_def acyclic_def)

lemma acyclic_source:
  assumes "acyclic R" "x \<notin> Domain R" "Domain S \<subseteq> {x}" "x \<notin> Range R" "x \<notin> Range S"
  shows "acyclic (R \<union> S)"
proof (rule acyclicI, rule allI, rule notI)
  fix y assume "(y, y) \<in> (R \<union> S)\<^sup>+"
  have range: "b \<noteq> x" if "(a, b) \<in> (R \<union> S)\<^sup>+" for a b
    using that by (cases rule: trancl.cases) (use assms(4,5) in auto)
  have "(a, b) \<in> R\<^sup>+" if "(a, b) \<in> (R \<union> S)\<^sup>+" "a \<noteq> x" for a b
    using that
  proof (induction rule: trancl.induct)
    case (r_into_trancl a b)
    then show ?case using assms(3) by auto
  next
    case (trancl_into_trancl a b c)
    then have "(b, c) \<in> R" using range [of a b] assms(3) by auto
    with trancl_into_trancl show ?case by (meson trancl.trancl_into_trancl)
  qed
  with \<open>(y, y) \<in> (R \<union> S)\<^sup>+\<close> range [of y y] assms(1) show False by (auto simp: acyclic_def)
qed

lemma closed_acyclic_insert:
  assumes "closed_acyclic E D" "E `` {x} \<subseteq> D"
  shows "closed_acyclic E (insert x D)"
proof (cases "x \<in> D")
  case False
  have "E \<inter> insert x D \<times> insert x D = (E \<inter> D \<times> D) \<union> {e \<in> E. fst e = x}"
    using assms False by (auto simp: closed_acyclic_def)
  moreover have "acyclic ((E \<inter> D \<times> D) \<union> {e \<in> E. fst e = x})"
    by (rule acyclic_source [where x = x]) (use assms False in \<open>auto simp: closed_acyclic_def\<close>)
  ultimately show ?thesis using assms by (auto simp: closed_acyclic_def)
qed (use assms in \<open>simp add: insert_absorb\<close>)

text \<open>A search that finds no cycle leaves a closed, acyclic set of finished nodes.\<close>

lemma visit_none:
  "visit nodes stack finished = (None, f') \<Longrightarrow> closed_acyclic (proper_depends nodes) (set finished) \<Longrightarrow>
     closed_acyclic (proper_depends nodes) (set f') \<and> set finished \<subseteq> set f' \<and> last stack \<in> set f'"
  "visit_deps nodes stack ds finished = (None, f') \<Longrightarrow> closed_acyclic (proper_depends nodes) (set finished) \<Longrightarrow>
     closed_acyclic (proper_depends nodes) (set f') \<and> set finished \<subseteq> set f' \<and> set ds - {last stack} \<subseteq> set f'"
proof (induction nodes stack finished and nodes stack ds finished arbitrary: f' and f' rule: visit_visit_deps.induct)
  case (1 nodes stack finished)
  show ?case
  proof (cases "last stack \<in> set finished")
    case True
    with 1 show ?thesis by (simp add: visit.simps)
  next
    case False
    then obtain g where g: "visit_deps nodes stack (node_deps nodes (last stack)) finished = (None, g)"
      and f': "f' = last stack # g"
      using "1.prems"(1) by (auto simp: visit.simps Let_def split: prod.splits option.splits)
    from "1.IH" [OF refl False g "1.prems"(2)]
    have "closed_acyclic (proper_depends nodes) (set g)" "set finished \<subseteq> set g"
      "proper_depends nodes `` {last stack} \<subseteq> set g"
      by (auto simp: proper_depends_def depends_def)
    with closed_acyclic_insert show ?thesis by (simp add: f' subset_insertI2)
  qed
next
  case (3 nodes stack d ds finished)
  show ?case
  proof (cases "d = last stack")
    case True
    with 3 show ?thesis by auto
  next
    case False
    with "3.prems"(1) have "d \<notin> set stack" by (auto split: if_splits)
    with False "3.prems"(1) obtain g where g: "visit nodes (stack @ [d]) finished = (None, g)"
      and rest: "visit_deps nodes stack ds g = (None, f')"
      by (auto split: prod.splits option.splits)
    from "3.IH"(2) [OF False \<open>d \<notin> set stack\<close> g "3.prems"(2)]
    have G: "closed_acyclic (proper_depends nodes) (set g)" "set finished \<subseteq> set g" "d \<in> set g" by auto
    from "3.IH"(3) [OF False \<open>d \<notin> set stack\<close> g [symmetric] refl rest G(1)] G show ?thesis by auto
  qed
qed auto

text \<open>A reported cycle is one: it follows dependencies and ends where it began.\<close>

definition is_cycle :: "('a \<times> 'a) set \<Rightarrow> 'a list \<Rightarrow> bool" where
  "is_cycle E c \<longleftrightarrow> length c \<ge> 2 \<and> hd c = last c \<and> successively (\<lambda>a b. (a, b) \<in> E) c"

lemma successively_trancl:
  "successively (\<lambda>a b. (a, b) \<in> E) (x # xs) \<Longrightarrow> xs \<noteq> [] \<Longrightarrow> (x, last xs) \<in> E\<^sup>+"
proof (induction xs arbitrary: x)
  case (Cons y ys)
  then show ?case by (cases ys) (auto intro: trancl_into_trancl2)
qed simp

lemma cycle_not_acyclic: "is_cycle E c \<Longrightarrow> \<not> acyclic E"
  using successively_trancl [of E "hd c" "tl c"]
  by (cases c) (auto simp: is_cycle_def acyclic_def split: if_splits)

lemma cycle_of_stack:
  assumes "successively (\<lambda>a b. (a, b) \<in> E) stack" "d \<in> set stack" "(last stack, d) \<in> E"
  shows "is_cycle E (dropWhile (\<lambda>x. x \<noteq> d) stack @ [d])"
proof -
  obtain a b where ab: "stack = a @ d # b" "d \<notin> set a" using assms(2) by (meson split_list_first)
  then have drop: "dropWhile (\<lambda>x. x \<noteq> d) stack = d # b" by (induction a arbitrary: stack) auto
  have "successively (\<lambda>a b. (a, b) \<in> E) (d # b)" using assms(1) ab by (simp add: successively_append_iff)
  moreover have "last (d # b) = last stack" using ab by simp
  ultimately have "successively (\<lambda>a b. (a, b) \<in> E) ((d # b) @ [d])"
    unfolding successively_append_iff using assms(3) by simp
  then show ?thesis by (simp add: drop is_cycle_def)
qed

lemma visit_some:
  "visit nodes stack finished = (Some c, f') \<Longrightarrow> stack \<noteq> [] \<Longrightarrow>
     successively (\<lambda>a b. (a, b) \<in> proper_depends nodes) stack \<Longrightarrow> is_cycle (proper_depends nodes) c"
  "visit_deps nodes stack ds finished = (Some c, f') \<Longrightarrow> stack \<noteq> [] \<Longrightarrow> set ds \<subseteq> set (node_deps nodes (last stack)) \<Longrightarrow>
     successively (\<lambda>a b. (a, b) \<in> proper_depends nodes) stack \<Longrightarrow> is_cycle (proper_depends nodes) c"
proof (induction nodes stack finished and nodes stack ds finished arbitrary: f' and f' rule: visit_visit_deps.induct)
  case (1 nodes stack finished)
  then show ?case by (auto simp: visit.simps Let_def split: prod.splits option.splits if_splits)
next
  case (3 nodes stack d ds finished)
  show ?case
  proof (cases "d = last stack")
    case True
    with 3 show ?thesis by auto
  next
    case False
    with 3 have edge: "(last stack, d) \<in> proper_depends nodes" by (auto simp: proper_depends_def depends_def)
    show ?thesis
    proof (cases "d \<in> set stack")
      case True
      with False "3.prems" cycle_of_stack [OF "3.prems"(4) True edge] show ?thesis by simp
    next
      case out: False
      have path: "successively (\<lambda>a b. (a, b) \<in> proper_depends nodes) (stack @ [d])"
        using "3.prems"(2,4) edge by (simp add: successively_append_iff)
      obtain r g where g: "visit nodes (stack @ [d]) finished = (r, g)" by fastforce
      show ?thesis
      proof (cases r)
        case None
        with False out g "3.prems"(1) have "visit_deps nodes stack ds g = (Some c, f')" by simp
        with "3.IH"(3) [OF False out] g None "3.prems" show ?thesis by auto
      next
        case (Some cyc)
        with False out g "3.prems"(1) have "visit nodes (stack @ [d]) finished = (Some c, f')" by simp
        with "3.IH"(2) [OF False out] path show ?thesis by simp
      qed
    qed
  qed
qed simp

lemma check_cycles_none:
  "check_cycles_loop nodes ns finished = None \<Longrightarrow> closed_acyclic (proper_depends nodes) (set finished) \<Longrightarrow>
     \<exists>f'. closed_acyclic (proper_depends nodes) (set f') \<and> n_id ` set ns \<union> set finished \<subseteq> set f'"
proof (induction ns arbitrary: finished)
  case (Cons n ns)
  then obtain g where g: "visit nodes [n_id n] finished = (None, g)" and rest: "check_cycles_loop nodes ns g = None"
    by (auto split: prod.splits option.splits)
  note V = visit_none(1) [OF g Cons.prems(2)]
  then obtain f where "closed_acyclic (proper_depends nodes) (set f)" "n_id ` set ns \<union> set g \<subseteq> set f"
    using Cons.IH [OF rest] by blast
  with V show ?case by (intro exI [of _ f]) auto
qed auto

lemma check_cycles_some:
  "check_cycles_loop nodes ns finished = Some c \<Longrightarrow> is_cycle (proper_depends nodes) c"
proof (induction ns arbitrary: finished)
  case (Cons n ns)
  obtain r g where g: "visit nodes [n_id n] finished = (r, g)" by fastforce
  with Cons visit_some(1) [of nodes "[n_id n]" finished c g] show ?case by (cases r) auto
qed simp

lemma node_deps_node: "b \<in> set (node_deps nodes a) \<Longrightarrow> a \<in> n_id ` set nodes"
  by (cases "node_at nodes a") (auto simp: node_deps_def dest: node_at_in)

lemma check_cycles_iff: "check_cycles_loop nodes nodes [] = None \<longleftrightarrow> acyclic (proper_depends nodes)"
proof
  assume "check_cycles_loop nodes nodes [] = None"
  from check_cycles_none [OF this] obtain f where
    f: "closed_acyclic (proper_depends nodes) f" "n_id ` set nodes \<subseteq> f" by auto
  have "proper_depends nodes \<subseteq> proper_depends nodes \<inter> f \<times> f"
    using f node_deps_node by (force simp: closed_acyclic_def proper_depends_def depends_def)
  with f(1) show "acyclic (proper_depends nodes)" by (auto simp: closed_acyclic_def intro: acyclic_subset)
next
  assume "acyclic (proper_depends nodes)"
  with check_cycles_some cycle_not_acyclic show "check_cycles_loop nodes nodes [] = None"
    by (metis not_None_eq)
qed

text \<open>
  C24. The search for cycles is exact and always ends: it reports nothing if and only if the
  dependencies between different nodes are acyclic, and otherwise one problem, whose text names a
  cycle that follows dependencies and ends where it began.
\<close>

theorem checkCycles_exact:
  "if acyclic (proper_depends nodes) then checkCycles lines nodes = []
   else \<exists>cycle. is_cycle (proper_depends nodes) cycle
     \<and> checkCycles lines nodes = [reportf lines [nodesKey, last cycle, dependsOnKey] (''dependency cycle '' @ join '' -> '' cycle)]"
  using check_cycles_iff [of nodes] check_cycles_some [of nodes nodes "[]"]
  by (cases "check_cycles_loop nodes nodes []") (auto simp: checkCycles_def)

subsection \<open>Reachability from ingress\<close>

lemma reach_loop_correct:
  assumes "depends nodes `` set reached \<subseteq> set reached \<union> set queue"
  shows "\<exists>r. reach_loop nodes queue reached = Some r \<and> set r = set reached \<union> (depends nodes)\<^sup>* `` set queue"
  using assms
proof (induction "(card (known_ids nodes \<union> set queue - set reached), length queue)" arbitrary: queue reached
    rule: wf_induct_rule [OF wf_lex_prod [OF wf_less wf_less]])
  case (1 queue reached)
  let ?D = "depends nodes"
  show ?case
  proof (cases queue)
    case Nil
    then show ?thesis by (simp add: reach_loop.simps)
  next
    case (Cons i rest)
    show ?thesis
    proof (cases "i \<in> set reached")
      case True
      have le: "card (known_ids nodes \<union> set rest - set reached) \<le> card (known_ids nodes \<union> set queue - set reached)"
        using Cons by (intro card_mono) auto
      obtain r where r: "reach_loop nodes rest reached = Some r" "set r = set reached \<union> ?D\<^sup>* `` set rest"
        using 1(1) [of rest reached] 1(2) le Cons True by force
      have "?D\<^sup>* `` {i} \<subseteq> set reached \<union> ?D\<^sup>* `` set rest"
      proof clarsimp
        fix x assume "(i, x) \<in> ?D\<^sup>*" "x \<notin> ?D\<^sup>* `` set rest"
        then show "x \<in> set reached"
        proof (induction rule: rtrancl_induct)
          case (step y z)
          then have "y \<in> set reached" by (meson Image_iff rtrancl.rtrancl_into_rtrancl)
          then have "z \<in> set reached \<union> set queue" using 1(2) step by blast
          with step Cons True show ?case by auto
        qed (rule True)
      qed
      with r Cons True show ?thesis by (subst reach_loop.simps) auto
    next
      case False
      let ?q = "rest @ node_deps nodes i"
      have "card (known_ids nodes \<union> set ?q - set (i # reached)) < card (known_ids nodes \<union> set queue - set reached)"
        by (rule psubset_card_mono) (use Cons False node_deps_known [of nodes i] in auto)
      moreover have "?D `` set (i # reached) \<subseteq> set (i # reached) \<union> set ?q"
        using 1(2) Cons by (auto simp: depends_def)
      ultimately obtain r where r: "reach_loop nodes ?q (i # reached) = Some r"
        "set r = set (i # reached) \<union> ?D\<^sup>* `` set ?q"
        using 1(1) [of ?q "i # reached"] by force
      have "?D\<^sup>* `` set queue = {i} \<union> ?D\<^sup>* `` set ?q"
        using Cons by (auto simp: depends_def elim: converse_rtranclE intro: converse_rtrancl_into_rtrancl)
      with r Cons False show ?thesis by (subst reach_loop.simps) auto
    qed
  qed
qed

text \<open>
  C23. The walk over dependencies returns on every state, cyclic ones too, and its warnings are
  exact: one for each node that no ingress node is or transitively depends on, in node order.
\<close>

theorem Unreached_exact:
  "Unreached nodes = Some (map unreached_warning
     (filter (\<lambda>n. \<not> (\<exists>m \<in> set nodes. hasIngress m \<and> (n_id m, n_id n) \<in> (depends nodes)\<^sup>*)) nodes))"
proof -
  obtain r where r: "reach_loop nodes (map n_id (filter hasIngress nodes)) [] = Some r"
    "set r = (depends nodes)\<^sup>* `` (n_id ` {m \<in> set nodes. hasIngress m})"
    using reach_loop_correct [of nodes "[]" "map n_id (filter hasIngress nodes)"] by auto
  have "filter (\<lambda>n. n_id n \<notin> set r) nodes
      = filter (\<lambda>n. \<not> (\<exists>m \<in> set nodes. hasIngress m \<and> (n_id m, n_id n) \<in> (depends nodes)\<^sup>*)) nodes"
    by (rule filter_cong) (use r(2) in auto)
  with r(1) show ?thesis by (simp add: Unreached_def)
qed

subsection \<open>What an accepted state satisfies\<close>

lemma set_table_keys [simp]: "set (table_keys table) = fst ` set table"
  by (simp add: table_keys_def)

lemma table_keys_ordered: "sorted (table_keys table)" "distinct (table_keys table)"
  by (simp_all add: table_keys_def)

lemma table_at_key: "key \<in> fst ` set table \<longleftrightarrow> map_of table key = Some (table_at table key)"
  by (metis map_of_eq_None_iff not_None_eq option.distinct(1) option.sel table_at_def)

text \<open>A table conforms to its settings when nothing required is missing and everything in it is declared.\<close>

inductive conforms :: "toml_table \<Rightarrow> setting list \<Rightarrow> bool" where
  conformsI: "(\<And>s. s \<in> set ss \<Longrightarrow> st_required s \<Longrightarrow> map_of table (st_name s) \<noteq> None) \<Longrightarrow>
   (\<And>key v. map_of table key = Some v \<Longrightarrow>
      \<exists>s. find (\<lambda>s. st_name s = key) ss = Some s
        \<and> (if st_key s = [] then (\<forall>t. v \<noteq> Table t)
           else (\<exists>entries. v = Table entries
                  \<and> (\<forall>k w. map_of entries k = Some w \<longrightarrow> (\<exists>entry. w = Table entry \<and> conforms entry (st_entry s)))))) \<Longrightarrow>
   conforms table ss"

inductive_simps conforms_iff: "conforms table ss"

lemma all_table_keys:
  "(\<forall>key \<in> set (table_keys table). P key (table_at table key)) \<longleftrightarrow> (\<forall>key v. map_of table key = Some v \<longrightarrow> P key v)"
  by (metis map_of_eq_None_iff option.distinct(1) option.sel set_table_keys table_at_def table_at_key)

lemma concat_map_empty: "concat (map f xs) = [] \<longleftrightarrow> (\<forall>x \<in> set xs. f x = [])"
  by (induction xs) auto

lemma settings_conforms: "settings lines path table ss = [] \<longleftrightarrow> conforms table ss"
proof (induction lines path table ss rule: settings.induct)
  case (1 lines path table ss)
  let ?ok = "\<lambda>key v. \<exists>s. find (\<lambda>s. st_name s = key) ss = Some s
        \<and> (if st_key s = [] then (\<forall>t. v \<noteq> Table t)
           else (\<exists>entries. v = Table entries
                  \<and> (\<forall>k w. map_of entries k = Some w \<longrightarrow> (\<exists>entry. w = Table entry \<and> conforms entry (st_entry s)))))"
  let ?f = "\<lambda>key. let settingPath = path @ [key] in
         case find (\<lambda>s. st_name s = key) ss of
           None \<Rightarrow> [reportf lines settingPath ''unknown setting'']
         | Some s \<Rightarrow>
             (if st_key s = [] then
                (case table_at table key of Table _ \<Rightarrow> [reportf lines settingPath ''must be a value, not a table''] | _ \<Rightarrow> [])
              else
                (case table_at table key of
                   Table entries \<Rightarrow>
                     concat (map (\<lambda>entryKey.
                       case table_at entries entryKey of
                         Table entry \<Rightarrow> settings lines (settingPath @ [entryKey]) entry (st_entry s)
                       | _ \<Rightarrow> [reportf lines (settingPath @ [entryKey]) ''must be a table; write {} for an entry with no settings''])
                       (table_keys entries))
                 | _ \<Rightarrow> [reportf lines settingPath (''must be a table keyed by '' @ st_key s)]))"
  have entries: "(\<forall>k \<in> set (table_keys entries).
        (case table_at entries k of
           Table entry \<Rightarrow> settings lines ((path @ [key]) @ [k]) entry (st_entry s)
         | _ \<Rightarrow> [reportf lines ((path @ [key]) @ [k]) ''must be a table; write {} for an entry with no settings'']) = [])
      \<longleftrightarrow> (\<forall>k w. map_of entries k = Some w \<longrightarrow> (\<exists>entry. w = Table entry \<and> conforms entry (st_entry s)))"
    if "key \<in> set (table_keys table)" "find (\<lambda>s. st_name s = key) ss = Some s" "st_key s \<noteq> []"
      "table_at table key = Table entries" for key s entries
    unfolding all_table_keys [symmetric]
    using "1.IH" [OF that(1) refl that(2-4)] by (intro ball_cong refl) (auto split: toml.splits)
  have "?f key = [] \<longleftrightarrow> ?ok key (table_at table key)" if key: "key \<in> set (table_keys table)" for key
  proof (cases "find (\<lambda>s. st_name s = key) ss")
    case (Some s)
    show ?thesis
    proof (cases "st_key s = []")
      case True
      with Some show ?thesis by (cases "table_at table key") (auto simp: Let_def)
    next
      case False
      show ?thesis
      proof (cases "table_at table key")
        case (Table es)
        from entries [OF key Some False Table] show ?thesis
          using Some False Table by (simp add: Let_def concat_map_empty)
      qed (use Some False in \<open>auto simp: Let_def\<close>)
    qed
  qed (simp add: Let_def)
  then have "concat (map ?f (table_keys table)) = [] \<longleftrightarrow> (\<forall>key v. map_of table key = Some v \<longrightarrow> ?ok key v)"
    unfolding concat_map_empty all_table_keys [symmetric] by (intro ball_cong refl)
  moreover have "missing_settings lines path table ss = []
      \<longleftrightarrow> (\<forall>s. s \<in> set ss \<longrightarrow> st_required s \<longrightarrow> map_of table (st_name s) \<noteq> None)"
    by (auto simp: missing_settings_def filter_empty_conv)
  ultimately show ?case
    unfolding settings.simps [of lines path table ss] conforms_iff [of table ss] append_is_Nil_conv by blast
qed

text \<open>Every IO kind that a node holds is supported, with settings that conform.\<close>

definition io_ok :: "catalog \<Rightarrow> (iokind \<times> toml_table) list \<Rightarrow> bool" where
  "io_ok c io \<longleftrightarrow> (\<forall>(kind, ss) \<in> set io. \<exists>support. Catalog_Support c kind = Some support \<and> conforms ss (su_settings support))"

lemma io_ok_Nil [simp]: "io_ok c []"
  by (simp add: io_ok_def)

lemma io_ok_update:
  "io_ok c io \<Longrightarrow> Catalog_Support c kind = Some support \<Longrightarrow> conforms ss (su_settings support) \<Longrightarrow> io_ok c (AList.update kind ss io)"
  by (induction io) (auto simp: io_ok_def)

lemma each_key_induct:
  assumes "each_key f a ks = (x, [])" "P a"
    and "\<And>x k x'. P x \<Longrightarrow> f x k = (x', []) \<Longrightarrow> P x'"
  shows "P x"
  using assms(1,2)
proof (induction ks arbitrary: a)
  case (Cons k ks)
  obtain b ps where f: "f a k = (b, ps)" by fastforce
  with Cons.prems(1) have "ps = []" "each_key f b ks = (x, [])" by (auto split: prod.splits)
  with Cons f assms(3) show ?case by blast
qed auto

lemma kind_key_ok: "io_ok c io \<Longrightarrow> kind_key lines c path d protocols io protocol = (io', []) \<Longrightarrow> io_ok c io'"
  by (auto simp: kind_key_def Let_def settings_conforms split: option.splits toml.splits intro: io_ok_update)

lemma kinds_ok: "io_ok c io \<Longrightarrow> kinds lines c path d val io = (io', []) \<Longrightarrow> io_ok c io'"
  by (cases val) (auto simp: kinds_def intro: each_key_induct [where P = "io_ok c"] kind_key_ok)

lemma node_key_id: "node_key lines c path table n key = (n', ps) \<Longrightarrow> n_id n' = n_id n"
  by (auto simp: node_key_def Let_def split: if_splits prod.splits)

lemma node_key_ok: "io_ok c (n_io n) \<Longrightarrow> node_key lines c path table n key = (n', []) \<Longrightarrow> io_ok c (n_io n')"
  by (auto simp: node_key_def Let_def split: if_splits prod.splits intro: kinds_ok)

lemma each_key_keeps:
  assumes "\<And>x k x' ps. f x k = (x', ps) \<Longrightarrow> g x' = g x"
  shows "g (fst (each_key f a ks)) = g a"
  by (induction ks arbitrary: a) (auto split: prod.splits dest: assms, metis assms fst_conv)

lemma state_node_id: "n_id (fst (state_node lines c nodes i)) = i"
proof -
  have "n_id (fst (parser_node lines c [nodesKey, i] table)) = i" for table
    unfolding parser_node_def by (subst each_key_keeps [where g = n_id]) (auto dest: node_key_id)
  then show ?thesis by (auto simp: state_node_def Let_def split: toml.splits prod.splits) (metis fst_conv)
qed

lemma state_node_ok:
  assumes "state_node lines c nodes i = (n, [])"
  shows "nodeIDPattern i \<and> io_ok c (n_io n)"
proof -
  from assms obtain table where "table_at nodes i = Table table"
    "parser_node lines c [nodesKey, i] table = (n, [])" and named: "nodeIDPattern i"
    by (auto simp: state_node_def Let_def split: toml.splits prod.splits if_splits)
  then have "io_ok c (n_io n)"
    unfolding parser_node_def
    by (elim each_key_induct [where P = "\<lambda>n. io_ok c (n_io n)"]) (auto intro: node_key_ok)
  with named show ?thesis by simp
qed

text \<open>A dependency list without problems: other known nodes, each once, all migrated if its node is.\<close>

definition deps_ok :: "node list \<Rightarrow> node \<Rightarrow> bool" where
  "deps_ok nodes n \<longleftrightarrow> distinct (n_dependsOn n) \<and> n_id n \<notin> set (n_dependsOn n)
     \<and> (\<forall>d \<in> set (n_dependsOn n). \<exists>m. node_at nodes d = Some m \<and> (n_status n = Migrated \<longrightarrow> n_status m = Migrated))"

lemma check_node_deps_iff:
  "check_node_deps lines nodes n seen ids = [] \<longleftrightarrow>
     distinct ids \<and> set ids \<inter> set seen = {} \<and> n_id n \<notin> set ids
     \<and> (\<forall>d \<in> set ids. \<exists>m. node_at nodes d = Some m \<and> (n_status n = Migrated \<longrightarrow> n_status m = Migrated))"
proof (induction ids arbitrary: seen)
  case (Cons i ids)
  have "n_status m \<noteq> Pending \<longleftrightarrow> n_status m = Migrated" for m by (cases "n_status m") auto
  with Cons show ?case by (cases "node_at nodes i") (auto simp: Let_def)
qed simp

lemma unique_keys_iff:
  "unique_keys lines n kind name owners ks = (owners', ps) \<Longrightarrow>
     (ps = [] \<longleftrightarrow> distinct ks \<and> set ks \<inter> fst ` set owners = {}) \<and> fst ` set owners' = set ks \<union> fst ` set owners"
proof (induction ks arbitrary: owners owners' ps)
  case (Cons k ks)
  show ?case
  proof (cases "map_of owners k")
    case None
    with Cons.IH [of "(k, n_id n) # owners" owners' ps] Cons.prems show ?thesis by (auto simp: map_of_eq_None_iff)
  next
    case (Some o')
    then have "k \<in> fst ` set owners" by (metis domI dom_map_of_conv_image_fst)
    moreover obtain owners'' qs where u: "unique_keys lines n kind name owners ks = (owners'', qs)" by fastforce
    ultimately show ?thesis using Some Cons.IH [OF u] Cons.prems by auto
  qed
qed auto

lemma unique_nodes_iff:
  "unique_nodes lines kind name owners ns = [] \<longleftrightarrow>
     distinct (concat (map (\<lambda>n. table_keys (setting_entries n kind name)) ns))
     \<and> (\<forall>n \<in> set ns. set (table_keys (setting_entries n kind name)) \<inter> fst ` set owners = {})"
proof (induction ns arbitrary: owners)
  case (Cons n ns)
  obtain owners' ps where u: "unique_keys lines n kind name owners (table_keys (setting_entries n kind name)) = (owners', ps)"
    by fastforce
  let ?ks = "\<lambda>n. set (table_keys (setting_entries n kind name))"
  note U = unique_keys_iff [OF u]
  have disjoint: "(\<forall>m \<in> set ns. ?ks m \<inter> (?ks n \<union> fst ` set owners) = {})
      \<longleftrightarrow> ?ks n \<inter> (\<Union>m \<in> set ns. ?ks m) = {} \<and> (\<forall>m \<in> set ns. ?ks m \<inter> fst ` set owners = {})"
    by blast
  have "unique_nodes lines kind name owners (n # ns) = []
      \<longleftrightarrow> (?ks n \<inter> fst ` set owners = {})
        \<and> distinct (concat (map (\<lambda>n. table_keys (setting_entries n kind name)) ns))
        \<and> (\<forall>m \<in> set ns. ?ks m \<inter> (?ks n \<union> fst ` set owners) = {})"
    using U u Cons.IH [of owners'] table_keys_ordered(2) by simp
  then show ?case unfolding disjoint by (simp add: table_keys_ordered) blast
qed simp

definition state_valid :: "catalog \<Rightarrow> node list \<Rightarrow> bool" where
  "state_valid c nodes \<longleftrightarrow>
     sorted (map n_id nodes) \<and> distinct (map n_id nodes)
     \<and> (\<forall>n \<in> set nodes. nodeIDPattern (n_id n) \<and> io_ok c (n_io n) \<and> deps_ok nodes n)
     \<and> acyclic (depends nodes)
     \<and> (\<forall>support \<in> set (Supports c). \<forall>s \<in> set (su_settings support). st_unique s \<longrightarrow>
          distinct (concat (map (\<lambda>n. table_keys (setting_entries n (su_kind support) (st_name s))) nodes)))"

lemma parser_state_ok:
  assumes "parser_state lines c doc = (nodes, [])"
  shows "sorted (map n_id nodes)" "distinct (map n_id nodes)" "n \<in> set nodes \<Longrightarrow> nodeIDPattern (n_id n) \<and> io_ok c (n_io n)"
proof -
  have "nodes = [] \<or> (\<exists>ns. nodes = map fst (map (state_node lines c ns) (table_keys ns))
      \<and> (\<forall>i \<in> set (table_keys ns). snd (state_node lines c ns i) = []))"
    using assms by (auto simp: parser_state_def Let_def concat_map_empty split: option.splits toml.splits)
  then consider "nodes = []" | ns where "nodes = map fst (map (state_node lines c ns) (table_keys ns))"
    "\<forall>i \<in> set (table_keys ns). snd (state_node lines c ns i) = []" by blast
  then have "sorted (map n_id nodes) \<and> distinct (map n_id nodes) \<and> (\<forall>n \<in> set nodes. nodeIDPattern (n_id n) \<and> io_ok c (n_io n))"
  proof cases
    case 2
    have "map n_id nodes = table_keys ns" by (simp add: 2(1) comp_def state_node_id)
    moreover have "nodeIDPattern (n_id n) \<and> io_ok c (n_io n)" if "n \<in> set nodes" for n
    proof -
      from that 2 obtain i where "state_node lines c ns i = (n, [])" by (force simp: prod_eq_iff)
      with state_node_ok [OF this] state_node_id [of lines c ns i] show ?thesis by simp
    qed
    ultimately show ?thesis by (simp add: table_keys_ordered)
  qed simp
  then show "sorted (map n_id nodes)" "distinct (map n_id nodes)" "n \<in> set nodes \<Longrightarrow> nodeIDPattern (n_id n) \<and> io_ok c (n_io n)"
    by auto
qed

lemma deps_ok_proper:
  assumes "\<And>n. n \<in> set nodes \<Longrightarrow> deps_ok nodes n"
  shows "proper_depends nodes = depends nodes"
proof -
  have "a \<notin> set (node_deps nodes a)" for a
    using assms by (cases "node_at nodes a") (auto simp: node_deps_def deps_ok_def dest: node_at_in)
  then show ?thesis by (auto simp: proper_depends_def depends_def)
qed

lemma parse_iff:
  "parse lines c doc = Inr nodes \<longleftrightarrow>
     parser_state lines c doc = (nodes, []) \<and> checkDependencies lines nodes = [] \<and> checkUnique lines c nodes = []"
  by (auto simp: parse_def Let_def split: prod.splits if_splits)

lemma parse_valid:
  assumes "parse lines c doc = Inr nodes"
  shows "state_valid c nodes"
proof -
  have P: "parser_state lines c doc = (nodes, [])" "checkDependencies lines nodes = []" "checkUnique lines c nodes = []"
    using assms by (simp_all add: parse_iff)
  have deps: "deps_ok nodes n" if "n \<in> set nodes" for n
    using P(2) that by (auto simp: checkDependencies_def concat_map_empty check_node_deps_iff deps_ok_def)
  moreover have "distinct (concat (map (\<lambda>n. table_keys (setting_entries n (su_kind support) (st_name s))) nodes))"
    if "support \<in> set (Supports c)" "s \<in> set (su_settings support)" "st_unique s" for support s
  proof -
    have "unique_nodes lines (su_kind support) (st_name s) [] nodes = []"
      using P(3) [unfolded checkUnique_def concat_map_empty, rule_format, OF that(1,2)] that(3) by simp
    then show ?thesis unfolding unique_nodes_iff by blast
  qed
  moreover have "acyclic (depends nodes)"
    using P(2) check_cycles_iff [of nodes] deps_ok_proper [OF deps]
    by (auto simp: checkDependencies_def checkCycles_def split: option.splits)
  ultimately show ?thesis
    using parser_state_ok [OF P(1)] by (simp add: state_valid_def)
qed

text \<open>
  C22. A migration state that parses is well formed: nodes sorted by distinct kebab-case IDs, IO
  kinds that the catalog supports with settings that conform to it, dependencies on other known
  nodes listed once and acyclic, no key of a unique setting twice, and migration closed under
  dependencies: whatever a migrated node transitively depends on is a migrated node.
\<close>

theorem parse_well_formed:
  assumes "parse lines c doc = Inr nodes"
  shows "state_valid c nodes
    \<and> (\<forall>n \<in> set nodes. \<forall>i. n_status n = Migrated \<and> (n_id n, i) \<in> (depends nodes)\<^sup>* \<longrightarrow>
         (\<exists>m \<in> set nodes. n_id m = i \<and> n_status m = Migrated))"
proof -
  have V: "state_valid c nodes" by (rule parse_valid [OF assms])
  have self: "node_at nodes (n_id n) = Some n" if "n \<in> set nodes" for n
  proof -
    have "find (\<lambda>m. n_id m = n_id n) (rev nodes) \<noteq> None" using that by (auto simp: find_None_iff)
    then obtain m where m: "node_at nodes (n_id n) = Some m" by (auto simp: node_at_def)
    with V that node_at_in [OF m] show ?thesis by (auto simp: state_valid_def distinct_map inj_on_def)
  qed
  have "\<exists>m \<in> set nodes. n_id m = i \<and> n_status m = Migrated"
    if "n \<in> set nodes" "n_status n = Migrated" "(n_id n, i) \<in> (depends nodes)\<^sup>*" for n i
    using that(3)
  proof (induction rule: rtrancl_induct)
    case (step y z)
    then obtain m where m: "m \<in> set nodes" "n_id m = y" "n_status m = Migrated" by blast
    then have "z \<in> set (n_dependsOn m)" using step(2) self [OF m(1)] by (simp add: depends_def node_deps_def)
    moreover have "deps_ok nodes m" using V m(1) by (simp add: state_valid_def)
    ultimately obtain k where "node_at nodes z = Some k" "n_status k = Migrated"
      using m(3) unfolding deps_ok_def by blast
    with node_at_in show ?case by blast
  qed (use that in blast)
  with V show ?thesis by blast
qed

definition sample_doc :: toml_table where
  "sample_doc = [(''nodes'', Table [(''api'', Table [(''depends_on'', Array [Text ''db'']), (''status'', Text ''migrated'')]),
     (''db'', Table [(''status'', Text ''migrated'')])])]"

definition sample_state :: "node list" where
  "sample_state = [\<lparr>n_id = ''api'', n_dependsOn = [''db''], n_status = Migrated, n_io = [], n_line = 0\<rparr>,
     \<lparr>n_id = ''db'', n_dependsOn = [], n_status = Migrated, n_io = [], n_line = 0\<rparr>]"

lemma sample_parse: "parse [] [] sample_doc = Inr sample_state"
  by code_simp

theorem parse_well_formed_witness: "state_valid [] sample_state \<and> acyclic (depends sample_state)"
  using parse_well_formed [OF sample_parse] by (simp add: state_valid_def)

end
