(* ===== verification/State_Storage.thy ===== *)
theory State_Storage
  imports Spectre_Model "HOL-Library.Product_Lexorder" "HOL-Library.Sublist" "HOL-Library.AList"
begin

text \<open>
  \<open>internal/server/storage\<close>: where the SPECTRE server keeps the states and divergences that
  mirrors report. \<open>storage.go\<close> states the contract, which is \<open>store_spec\<close> here and the locale
  \<open>store\<close>; \<open>memory.go\<close> and \<open>redis.go\<close> are its two implementations.

  Times are nanoseconds since the Unix epoch. An operation returns its error, or what it
  promises, and the store. The Go maps of the memory store are ordered association lists, whose
  order stands for whatever order a range over the map takes. Redis is a service: what its
  commands do is the locale \<open>redis_server\<close>, and a stored JSON text is the value it encodes,
  so that decoding the text of another type is an error.
\<close>

subsection \<open>The contract\<close>

definition stateKey :: "string \<Rightarrow> string \<Rightarrow> string" where
  "stateKey service environment = go_quote service @ '' '' @ go_quote environment"

record received =
  rv_state :: mirror_state
  rv_received :: time

definition ignored :: "quarantine option \<Rightarrow> time option \<Rightarrow> quarantine \<Rightarrow> bool" where
  "ignored stored cleared incoming \<longleftrightarrow>
     (case stored of Some existing \<Rightarrow> q_since existing > q_since incoming | None \<Rightarrow> False)
     \<or> (case cleared of Some at \<Rightarrow> \<not> q_since incoming > at | None \<Rightarrow> False)"

type_synonym mirror_key = "string \<times> string"
type_synonym source_key = "string \<times> string \<times> direction"

text \<open>What a store holds, by mirror and by source.\<close>

record store_spec =
  sp_states :: "mirror_key \<rightharpoonup> received"
  sp_divergences :: "source_key \<rightharpoonup> divergence"
  sp_cleared :: "mirror_key \<rightharpoonup> time"

definition empty_spec :: store_spec where
  "empty_spec = \<lparr>sp_states = Map.empty, sp_divergences = Map.empty, sp_cleared = Map.empty\<rparr>"

definition source_of :: "divergence \<Rightarrow> source_key" where
  "source_of v = (v_service v, v_environment v, v_direction v)"

definition spec_put :: "store_spec \<Rightarrow> mirror_state \<Rightarrow> time \<Rightarrow> store_spec" where
  "spec_put a s at = a\<lparr>sp_states := (sp_states a)((s_service s, s_environment s) \<mapsto> \<lparr>rv_state = s, rv_received = at\<rparr>)\<rparr>"

definition spec_forget :: "store_spec \<Rightarrow> time \<Rightarrow> store_spec" where
  "spec_forget a since =
     a\<lparr>sp_states := (\<lambda>k. case sp_states a k of Some r \<Rightarrow> if rv_received r < since then None else Some r | None \<Rightarrow> None)\<rparr>"

definition spec_listed :: "store_spec \<Rightarrow> time \<Rightarrow> mirror_state set" where
  "spec_listed a since = {rv_state r | r k. sp_states a k = Some r \<and> since \<le> rv_received r}"

definition spec_record :: "store_spec \<Rightarrow> divergence \<Rightarrow> store_spec" where
  "spec_record a v =
     (if ignored (map_option v_quarantine (sp_divergences a (source_of v)))
          (sp_cleared a (v_service v, v_environment v)) (v_quarantine v) then a
      else a\<lparr>sp_divergences := (sp_divergences a)(source_of v \<mapsto> v)\<rparr>)"

definition spec_clear :: "store_spec \<Rightarrow> string \<Rightarrow> string \<Rightarrow> time \<Rightarrow> store_spec" where
  "spec_clear a service environment at =
     a\<lparr>sp_divergences := (\<lambda>(s, e, d). if s = service \<and> e = environment then None else sp_divergences a (s, e, d)),
       sp_cleared := (sp_cleared a)((service, environment) \<mapsto> at)\<rparr>"

text \<open>Directions that mirrors report; the wire format rejects every other one.\<close>

definition valid_direction :: "direction \<Rightarrow> bool" where
  "valid_direction d \<longleftrightarrow> d = Ingress \<or> d = Egress"

text \<open>
  The contract of \<open>Store\<close>. An operation that fails has either taken effect or not, and listing
  that fails has forgotten stale states only.
\<close>

locale store =
  fixes put :: "'m \<Rightarrow> mirror_state \<Rightarrow> time \<Rightarrow> unit result \<times> 'm"
    and list_states :: "'m \<Rightarrow> time \<Rightarrow> mirror_state list result \<times> 'm"
    and record_div :: "'m \<Rightarrow> divergence \<Rightarrow> unit result \<times> 'm"
    and clear :: "'m \<Rightarrow> string \<Rightarrow> string \<Rightarrow> time \<Rightarrow> unit result \<times> 'm"
    and list_divs :: "'m \<Rightarrow> divergence list result"
    and inv :: "'m \<Rightarrow> bool"
    and abs :: "'m \<Rightarrow> store_spec"
  assumes put_ok: "inv m \<Longrightarrow> put m s at = (Inr (), m') \<Longrightarrow> inv m' \<and> abs m' = spec_put (abs m) s at"
    and put_err: "inv m \<Longrightarrow> put m s at = (Inl e, m') \<Longrightarrow> inv m' \<and> (abs m' = abs m \<or> abs m' = spec_put (abs m) s at)"
    and states_ok: "inv m \<Longrightarrow> list_states m since = (Inr ss, m') \<Longrightarrow>
      inv m' \<and> set ss = spec_listed (abs m) since \<and> abs m' = spec_forget (abs m) since"
    and states_err: "inv m \<Longrightarrow> list_states m since = (Inl e, m') \<Longrightarrow>
      inv m' \<and> spec_forget (abs m') since = spec_forget (abs m) since"
    and record_ok: "inv m \<Longrightarrow> valid_direction (v_direction v) \<Longrightarrow> record_div m v = (Inr (), m') \<Longrightarrow>
      inv m' \<and> abs m' = spec_record (abs m) v"
    and record_err: "inv m \<Longrightarrow> valid_direction (v_direction v) \<Longrightarrow> record_div m v = (Inl e, m') \<Longrightarrow>
      inv m' \<and> (abs m' = abs m \<or> abs m' = spec_record (abs m) v)"
    and clear_ok: "inv m \<Longrightarrow> clear m service environment at = (Inr (), m') \<Longrightarrow>
      inv m' \<and> abs m' = spec_clear (abs m) service environment at"
    and clear_err: "inv m \<Longrightarrow> clear m service environment at = (Inl e, m') \<Longrightarrow>
      inv m' \<and> (abs m' = abs m \<or> abs m' = spec_clear (abs m) service environment at)"
    and divs_ok: "inv m \<Longrightarrow> list_divs m = Inr ds \<Longrightarrow> set ds = ran (sp_divergences (abs m))"

subsection \<open>Memory\<close>

record memory =
  mm_states :: "(string \<times> received) list"
  mm_divergences :: "(source_key \<times> divergence) list"
  mm_cleared :: "(string \<times> time) list"

definition NewMemory :: memory where
  "NewMemory = \<lparr>mm_states = [], mm_divergences = [], mm_cleared = []\<rparr>"

definition Memory_Put :: "memory \<Rightarrow> mirror_state \<Rightarrow> time \<Rightarrow> unit result \<times> memory" where
  "Memory_Put m s at =
     (Inr (), m\<lparr>mm_states := map_put (stateKey (s_service s) (s_environment s)) \<lparr>rv_state = s, rv_received = at\<rparr> (mm_states m)\<rparr>)"

fun memory_states_loop :: "time \<Rightarrow> (string \<times> received) list \<Rightarrow> (string \<times> received) list \<Rightarrow> mirror_state list
    \<Rightarrow> mirror_state list \<times> (string \<times> received) list" where
  "memory_states_loop since [] kept states = (states, kept)"
| "memory_states_loop since ((key, stored) # rest) kept states =
     (if rv_received stored < since then memory_states_loop since rest (map_del key kept) states
      else memory_states_loop since rest kept (states @ [rv_state stored]))"

definition Memory_States :: "memory \<Rightarrow> time \<Rightarrow> mirror_state list result \<times> memory" where
  "Memory_States m since =
     (case memory_states_loop since (mm_states m) (mm_states m) [] of
        (states, kept) \<Rightarrow> (Inr states, m\<lparr>mm_states := kept\<rparr>))"

definition Memory_Record :: "memory \<Rightarrow> divergence \<Rightarrow> unit result \<times> memory" where
  "Memory_Record m v =
     (let key = source_of v in
      if ignored (map_option v_quarantine (map_of (mm_divergences m) key))
           (map_of (mm_cleared m) (stateKey (v_service v) (v_environment v))) (v_quarantine v)
      then (Inr (), m)
      else (Inr (), m\<lparr>mm_divergences := map_put key v (mm_divergences m)\<rparr>))"

definition Memory_Clear :: "memory \<Rightarrow> string \<Rightarrow> string \<Rightarrow> time \<Rightarrow> unit result \<times> memory" where
  "Memory_Clear m service environment at =
     (Inr (), m\<lparr>mm_divergences := filter (\<lambda>((s, e, d), _). \<not> (s = service \<and> e = environment)) (mm_divergences m),
        mm_cleared := map_put (stateKey service environment) at (mm_cleared m)\<rparr>)"

definition Memory_Divergences :: "memory \<Rightarrow> divergence list result" where
  "Memory_Divergences m = Inr (map snd (mm_divergences m))"

definition memory_inv :: "memory \<Rightarrow> bool" where
  "memory_inv m \<longleftrightarrow>
     ordered_map (mm_states m) \<and> ordered_map (mm_divergences m) \<and> ordered_map (mm_cleared m)
     \<and> (\<forall>(k, r) \<in> set (mm_states m). k = stateKey (s_service (rv_state r)) (s_environment (rv_state r)))
     \<and> (\<forall>(k, v) \<in> set (mm_divergences m). k = source_of v)"

definition memory_abs :: "memory \<Rightarrow> store_spec" where
  "memory_abs m =
     \<lparr>sp_states = (\<lambda>(s, e). map_of (mm_states m) (stateKey s e)),
      sp_divergences = map_of (mm_divergences m),
      sp_cleared = (\<lambda>(s, e). map_of (mm_cleared m) (stateKey s e))\<rparr>"

lemma stateKey_prefix: "stateKey s e @ x = stateKey s' e' @ y \<Longrightarrow> s = s' \<and> e = e' \<and> x = y"
  unfolding stateKey_def by (auto dest!: go_quote_prefix)

lemma stateKey_inject [simp]: "stateKey s e = stateKey s' e' \<longleftrightarrow> s = s' \<and> e = e'"
  using stateKey_prefix [of s e "[]" s' e' "[]"] by auto

lemma filter_keys_map_of: "map_of (filter (\<lambda>(k, _). P k) m) k = (if P k then map_of m k else None)"
  by (induction m) auto

lemma ordered_map_filter: "ordered_map m \<Longrightarrow> ordered_map (filter P m)"
  unfolding ordered_map_def keys_def by (metis sorted_wrt_filter sorted_wrt_map)

lemma memory_states_loop_eq:
  "memory_states_loop since xs kept states =
     (states @ map (rv_state \<circ> snd) (filter (\<lambda>(k, r). \<not> rv_received r < since) xs),
      filter (\<lambda>(k, _). k \<notin> fst ` {x \<in> set xs. rv_received (snd x) < since}) kept)"
proof (induction xs arbitrary: kept states)
  case (Cons x xs)
  obtain k r where x: "x = (k, r)" by fastforce
  have "filter (\<lambda>(k, _). k \<notin> fst ` {x \<in> set xs. rv_received (snd x) < since}) (map_del k kept)
      = filter (\<lambda>(k', _). k' \<notin> insert k (fst ` {x \<in> set xs. rv_received (snd x) < since})) kept"
    unfolding map_del_def filter_filter by (rule filter_cong) auto
  moreover have "{y. (y = (k, r) \<or> y \<in> set xs) \<and> rv_received (snd y) < since}
      = (if rv_received r < since then {(k, r)} else {}) \<union> {y \<in> set xs. rv_received (snd y) < since}" by auto
  ultimately show ?case by (simp add: Cons.IH x)
qed (simp add: case_prod_unfold)

lemma memory_abs_put:
  assumes "memory_inv m"
  shows "memory_abs (snd (Memory_Put m s at)) = spec_put (memory_abs m) s at"
  using assms by (auto simp: memory_abs_def Memory_Put_def spec_put_def memory_inv_def fun_eq_iff)

lemma map_put_set: "x \<in> set (map_put k v m) \<Longrightarrow> x = (k, v) \<or> x \<in> set m"
  by (induction m) (auto split: if_splits)

lemma ordered_map_iff: "ordered_map m \<Longrightarrow> map_of m k = Some v \<longleftrightarrow> (k, v) \<in> set m"
  using keys_distinct [of m] by (simp add: keys_def)

lemma ran_map_of_ordered: "ordered_map m \<Longrightarrow> ran (map_of m) = snd ` set m"
  using keys_distinct [of m] by (simp add: keys_def ran_distinct)

lemma memory_inv_put: "memory_inv m \<Longrightarrow> memory_inv (snd (Memory_Put m s at))"
  by (auto simp: memory_inv_def Memory_Put_def dest!: map_put_set)

lemma memory_states:
  assumes "memory_inv m" "Memory_States m since = (Inr ss, m')"
  shows "memory_inv m'" "set ss = spec_listed (memory_abs m) since" "memory_abs m' = spec_forget (memory_abs m) since"
proof -
  let ?xs = "mm_states m"
  let ?stale = "fst ` {x \<in> set ?xs. rv_received (snd x) < since}"
  have ord: "ordered_map ?xs" and keyed: "\<And>k r. (k, r) \<in> set ?xs \<Longrightarrow> k = stateKey (s_service (rv_state r)) (s_environment (rv_state r))"
    using assms(1) by (auto simp: memory_inv_def)
  have ss: "ss = map (rv_state \<circ> snd) (filter (\<lambda>(k, r). \<not> rv_received r < since) ?xs)"
    and m': "m' = m\<lparr>mm_states := filter (\<lambda>(k, _). k \<notin> ?stale) ?xs\<rparr>"
    using assms(2) by (auto simp: Memory_States_def memory_states_loop_eq)
  have "\<exists>s e. map_of ?xs (stateKey s e) = Some r" if "(k, r) \<in> set ?xs" for k r
    using keyed [OF that] that ordered_map_iff [OF ord] by metis
  then show "set ss = spec_listed (memory_abs m) since"
    unfolding ss spec_listed_def memory_abs_def
    by (force simp: ordered_map_iff [OF ord] not_less)
  show "memory_inv m'" using assms(1) by (auto simp: memory_inv_def m' ordered_map_filter)
  have "map_of (filter (\<lambda>(k, _). k \<notin> ?stale) ?xs) k
      = (case map_of ?xs k of Some r \<Rightarrow> if rv_received r < since then None else Some r | None \<Rightarrow> None)" for k
  proof (cases "map_of ?xs k")
    case (Some r)
    have "r' = r" if "(k, r') \<in> set ?xs" for r' using that Some ordered_map_iff [OF ord, of k r'] by simp
    moreover have "(k, r) \<in> set ?xs" using Some ordered_map_iff [OF ord] by blast
    moreover have "k \<in> ?stale \<longleftrightarrow> (\<exists>r'. (k, r') \<in> set ?xs \<and> rv_received r' < since)" by force
    ultimately have "k \<in> ?stale \<longleftrightarrow> rv_received r < since" by blast
    with Some show ?thesis by (simp add: filter_keys_map_of)
  qed (simp add: filter_keys_map_of)
  then show "memory_abs m' = spec_forget (memory_abs m) since"
    by (simp add: memory_abs_def spec_forget_def m' fun_eq_iff)
qed

lemma memory_record:
  assumes "memory_inv m" "Memory_Record m v = (Inr (), m')"
  shows "memory_inv m'" "memory_abs m' = spec_record (memory_abs m) v"
  using assms by (auto simp: memory_inv_def Memory_Record_def Let_def memory_abs_def spec_record_def split: if_splits dest!: map_put_set)

lemma memory_clear:
  assumes "memory_inv m" "Memory_Clear m service environment at = (Inr (), m')"
  shows "memory_inv m'" "memory_abs m' = spec_clear (memory_abs m) service environment at"
proof -
  have m': "m' = m\<lparr>mm_divergences := filter (\<lambda>((s, e, d), _). \<not> (s = service \<and> e = environment)) (mm_divergences m),
        mm_cleared := map_put (stateKey service environment) at (mm_cleared m)\<rparr>"
    using assms(2) by (simp add: Memory_Clear_def)
  have "filter (\<lambda>((s, e, d), _). \<not> (s = service \<and> e = environment)) (mm_divergences m)
      = filter (\<lambda>(k, _). (case k of (s, e, d) \<Rightarrow> \<not> (s = service \<and> e = environment))) (mm_divergences m)"
    by (rule filter_cong) auto
  then have "map_of (filter (\<lambda>((s, e, d), _). \<not> (s = service \<and> e = environment)) (mm_divergences m)) k
      = (case k of (s, e, d) \<Rightarrow> if s = service \<and> e = environment then None else map_of (mm_divergences m) (s, e, d))" for k
    using filter_keys_map_of [of "\<lambda>k. case k of (s, e, d) \<Rightarrow> \<not> (s = service \<and> e = environment)" "mm_divergences m" k]
    by (auto split: prod.splits)
  moreover have "map_of (mm_cleared m') = (map_of (mm_cleared m))(stateKey service environment \<mapsto> at)"
    using assms(1) by (simp add: m' memory_inv_def)
  ultimately show "memory_abs m' = spec_clear (memory_abs m) service environment at"
    by (auto simp: memory_abs_def spec_clear_def m' fun_eq_iff)
  show "memory_inv m'" using assms(1) by (auto simp: memory_inv_def m' ordered_map_filter)
qed

interpretation memory: store Memory_Put Memory_States Memory_Record Memory_Clear Memory_Divergences memory_inv memory_abs
proof
  show "memory_inv m' \<and> memory_abs m' = spec_put (memory_abs m) s at"
    if "memory_inv m" "Memory_Put m s at = (Inr (), m')" for m s at m'
    using memory_abs_put [OF that(1)] memory_inv_put [OF that(1)] that(2) by (metis snd_conv)
  show "set ds = ran (sp_divergences (memory_abs m))" if "memory_inv m" "Memory_Divergences m = Inr ds" for m ds
    using that ran_map_of_ordered [of "mm_divergences m"] by (metis (no_types, lifting) Memory_Divergences_def list.set_map memory_abs_def memory_inv_def store_spec.select_convs(2) sum.inject(2))
  show "memory_inv m' \<and> set ss = spec_listed (memory_abs m) since \<and> memory_abs m' = spec_forget (memory_abs m) since"
    if "memory_inv m" "Memory_States m since = (Inr ss, m')" for m since ss m'
    using memory_states [OF that] by simp
qed (auto dest: memory_record memory_clear
    simp: Memory_Put_def Memory_States_def Memory_Record_def Memory_Clear_def Let_def split: prod.splits if_splits)

subsection \<open>Redis\<close>

text \<open>
  \<open>encoding/json\<close> refuses a time whose year is outside 0 to 9999, and only that, for the values
  stored here.
\<close>

definition json_time :: "time \<Rightarrow> bool" where
  "json_time t \<longleftrightarrow> - 62167219200 * 1000000000 \<le> t \<and> t < 253402300800 * 1000000000"

definition json_error :: string where
  "json_error = ''json: error calling MarshalJSON for type time.Time: Time.MarshalJSON: year outside of range [0,9999]''"

definition json_received :: "received \<Rightarrow> bool" where
  "json_received r \<longleftrightarrow> json_time (rv_received r) \<and> list_all (\<lambda>(d, q). json_time (q_since q)) (s_quarantines (rv_state r))"

datatype stored_value = StoredState received | StoredDivergence divergence | StoredTime time | StoredText string

datatype redis_command = HSET string string stored_value | HDEL string "string list"

type_synonym redis_contents = "string \<Rightarrow> string \<rightharpoonup> stored_value"

fun run_command :: "redis_contents \<Rightarrow> redis_command \<Rightarrow> redis_contents" where
  "run_command h (HSET key f val) = h(key := (h key)(f \<mapsto> val))"
| "run_command h (HDEL key fs) = h(key := (\<lambda>f. if f \<in> set fs then None else h key f))"

abbreviation statesKey :: string where "statesKey \<equiv> ''spectre:states''"
abbreviation divergencesKey :: string where "divergencesKey \<equiv> ''spectre:divergences''"
abbreviation clearedSuffix :: string where "clearedSuffix \<equiv> CHR 0x22 # '' cleared''"

text \<open>The Lua script, which the server runs atomically on the hash \<open>key\<close>.\<close>

definition forgetIfUnchanged :: "redis_contents \<Rightarrow> string \<Rightarrow> string \<Rightarrow> stored_value \<Rightarrow> redis_contents" where
  "forgetIfUnchanged h key f val = (if h key f = Some val then run_command h (HDEL key [f]) else h)"

text \<open>
  What the Redis server promises: \<open>exec\<close> runs commands as one transaction, \<open>eval\<close> runs the
  script, and a failure leaves open whether they took effect. Reads return what the hash holds.
\<close>

locale redis_server =
  fixes contents :: "'r \<Rightarrow> redis_contents"
    and exec :: "'r \<Rightarrow> redis_command list \<Rightarrow> string option \<times> 'r"
    and eval :: "'r \<Rightarrow> string \<Rightarrow> string \<Rightarrow> stored_value \<Rightarrow> string option \<times> 'r"
    and hgetall :: "'r \<Rightarrow> string \<Rightarrow> (string \<times> stored_value) list result"
    and hmget :: "'r \<Rightarrow> string \<Rightarrow> string list \<Rightarrow> stored_value option list result"
  assumes exec_ok: "exec r cs = (None, r') \<Longrightarrow> contents r' = foldl run_command (contents r) cs"
    and exec_err: "exec r cs = (Some e, r') \<Longrightarrow> contents r' = contents r \<or> contents r' = foldl run_command (contents r) cs"
    and eval_ok: "eval r key f val = (None, r') \<Longrightarrow> contents r' = forgetIfUnchanged (contents r) key f val"
    and eval_err: "eval r key f val = (Some e, r') \<Longrightarrow>
      contents r' = contents r \<or> contents r' = forgetIfUnchanged (contents r) key f val"
    and hgetall_ok: "hgetall r key = Inr fvs \<Longrightarrow> distinct (map fst fvs) \<and> map_of fvs = contents r key"
    and hmget_ok: "hmget r key fs = Inr vs \<Longrightarrow> vs = map (contents r key) fs"

definition sourceField :: "string \<Rightarrow> string \<Rightarrow> direction \<Rightarrow> string" where
  "sourceField service environment direction = stateKey service environment @ '' '' @ direction"

definition clearedField :: "string \<Rightarrow> string \<Rightarrow> string" where
  "clearedField service environment = stateKey service environment @ '' cleared''"

fun decodeState :: "stored_value \<Rightarrow> received result" where
  "decodeState (StoredState r) = Inr r"
| "decodeState _ = Inl ''decode state: unexpected value''"

fun decodeDivergence :: "stored_value \<Rightarrow> divergence result" where
  "decodeDivergence (StoredDivergence v) = Inr v"
| "decodeDivergence _ = Inl ''decode divergence: unexpected value''"

fun decodeCleared :: "stored_value \<Rightarrow> time result" where
  "decodeCleared (StoredTime t) = Inr t"
| "decodeCleared _ = Inl ''decode clear time: unexpected value''"

definition decodeOptional :: "stored_value option \<Rightarrow> (stored_value \<Rightarrow> 'a result) \<Rightarrow> 'a option result" where
  "decodeOptional val decode =
     (case val of None \<Rightarrow> Inr None | Some text \<Rightarrow> bind_result (decode text) (\<lambda>x. Inr (Some x)))"

definition wrap_error :: "string \<Rightarrow> string option \<times> 'r \<Rightarrow> unit result \<times> 'r" where
  "wrap_error msg x = (case x of (None, r) \<Rightarrow> (Inr (), r) | (Some e, r) \<Rightarrow> (Inl (wrap msg e), r))"

definition Redis_Put :: "('r \<Rightarrow> redis_command list \<Rightarrow> string option \<times> 'r) \<Rightarrow> 'r \<Rightarrow> mirror_state \<Rightarrow> time \<Rightarrow> unit result \<times> 'r" where
  "Redis_Put exec r s at =
     (let val = \<lparr>rv_state = s, rv_received = at\<rparr> in
      if \<not> json_received val then (Inl (wrap ''encode state'' json_error), r)
      else wrap_error ''store state''
        (exec r [HSET statesKey (stateKey (s_service s) (s_environment s)) (StoredState val)]))"

fun redis_states_loop :: "('r \<Rightarrow> string \<Rightarrow> string \<Rightarrow> stored_value \<Rightarrow> string option \<times> 'r) \<Rightarrow> time \<Rightarrow> 'r
    \<Rightarrow> (string \<times> stored_value) list \<Rightarrow> mirror_state list \<Rightarrow> mirror_state list result \<times> 'r" where
  "redis_states_loop eval since r [] states = (Inr states, r)"
| "redis_states_loop eval since r ((f, val) # rest) states =
     (case decodeState val of
        Inl err \<Rightarrow> (Inl err, r)
      | Inr stored \<Rightarrow>
          (if \<not> rv_received stored < since then redis_states_loop eval since r rest (states @ [rv_state stored])
           else case eval r statesKey f val of
             (Some e, r') \<Rightarrow> (Inl (wrap ''forget stale state'' e), r')
           | (None, r') \<Rightarrow> redis_states_loop eval since r' rest states))"

definition Redis_States :: "('r \<Rightarrow> string \<Rightarrow> string \<Rightarrow> stored_value \<Rightarrow> string option \<times> 'r) \<Rightarrow> ('r \<Rightarrow> string \<Rightarrow> (string \<times> stored_value) list result)
    \<Rightarrow> 'r \<Rightarrow> time \<Rightarrow> mirror_state list result \<times> 'r" where
  "Redis_States eval hgetall r since =
     (case hgetall r statesKey of
        Inl err \<Rightarrow> (Inl (wrap ''list states'' err), r)
      | Inr fvs \<Rightarrow> redis_states_loop eval since r fvs [])"

text \<open>What the watched function decides from the values it reads: the error, or whether to write.\<close>

definition record_decision :: "('r \<Rightarrow> string \<Rightarrow> string list \<Rightarrow> stored_value option list result) \<Rightarrow> 'r \<Rightarrow> divergence \<Rightarrow> bool result" where
  "record_decision hmget r v =
     (case hmget r divergencesKey [sourceField (v_service v) (v_environment v) (v_direction v), clearedField (v_service v) (v_environment v)] of
        Inl err \<Rightarrow> Inl (wrap ''read divergence'' err)
      | Inr vals \<Rightarrow>
          bind_result (decodeOptional (vals ! 0) decodeDivergence) (\<lambda>stored.
            bind_result (decodeOptional (vals ! 1) decodeCleared) (\<lambda>clearedAt.
              Inr (\<not> ignored (map_option v_quarantine stored) clearedAt (v_quarantine v)))))"

text \<open>
  The retry loop of \<open>Record\<close>. Each attempt reads under a watch; then other clients may act on the
  server, which fails the transaction if they touched the watched hash. An attempt that writes
  nothing does not commit and so returns in any case. \<open>None\<close> means that every attempt given was
  disturbed and the loop is still running.
\<close>

fun Redis_Record :: "('r \<Rightarrow> redis_command list \<Rightarrow> string option \<times> 'r) \<Rightarrow> ('r \<Rightarrow> string \<Rightarrow> string list \<Rightarrow> stored_value option list result)
    \<Rightarrow> (bool \<times> ('r \<Rightarrow> 'r)) list \<Rightarrow> 'r \<Rightarrow> divergence \<Rightarrow> (unit result \<times> 'r) option" where
  "Redis_Record exec hmget [] r v = None"
| "Redis_Record exec hmget ((touched, others) # attempts) r v =
     (if \<not> json_time (q_since (v_quarantine v)) then Some (Inl (wrap ''encode divergence'' json_error), r)
      else case record_decision hmget r v of
        Inl err \<Rightarrow> Some (Inl (wrap ''record divergence'' err), r)
      | Inr False \<Rightarrow> Some (Inr (), r)
      | Inr True \<Rightarrow>
          (if touched then Redis_Record exec hmget attempts (others r) v
           else Some (wrap_error ''record divergence''
             (exec (others r) [HSET divergencesKey (sourceField (v_service v) (v_environment v) (v_direction v)) (StoredDivergence v)]))))"

definition Redis_Clear :: "('r \<Rightarrow> redis_command list \<Rightarrow> string option \<times> 'r) \<Rightarrow> 'r \<Rightarrow> string \<Rightarrow> string \<Rightarrow> time \<Rightarrow> unit result \<times> 'r" where
  "Redis_Clear exec r service environment at =
     (if \<not> json_time at then (Inl (wrap ''encode clear time'' json_error), r)
      else wrap_error ''clear divergences''
        (exec r [HDEL divergencesKey [sourceField service environment Ingress, sourceField service environment Egress],
                 HSET divergencesKey (clearedField service environment) (StoredTime at)]))"

fun redis_divergences_loop :: "(string \<times> stored_value) list \<Rightarrow> divergence list result" where
  "redis_divergences_loop [] = Inr []"
| "redis_divergences_loop ((f, val) # rest) =
     (if suffix clearedSuffix f then redis_divergences_loop rest
      else bind_result (decodeDivergence val) (\<lambda>v.
        bind_result (redis_divergences_loop rest) (\<lambda>vs. Inr (v # vs))))"

definition Redis_Divergences :: "('r \<Rightarrow> string \<Rightarrow> (string \<times> stored_value) list result) \<Rightarrow> 'r \<Rightarrow> divergence list result" where
  "Redis_Divergences hgetall r =
     (case hgetall r divergencesKey of
        Inl err \<Rightarrow> Inl (wrap ''list divergences'' err)
      | Inr fvs \<Rightarrow> redis_divergences_loop fvs)"

subsubsection \<open>What the hashes hold\<close>

definition states_hash :: "(string \<rightharpoonup> stored_value) \<Rightarrow> bool" where
  "states_hash h \<longleftrightarrow> (\<forall>f val. h f = Some val \<longrightarrow>
     (\<exists>x. val = StoredState x \<and> f = stateKey (s_service (rv_state x)) (s_environment (rv_state x))))"

definition divergences_hash :: "(string \<rightharpoonup> stored_value) \<Rightarrow> bool" where
  "divergences_hash h \<longleftrightarrow> (\<forall>f val. h f = Some val \<longrightarrow>
     (\<exists>v. val = StoredDivergence v \<and> valid_direction (v_direction v)
        \<and> f = sourceField (v_service v) (v_environment v) (v_direction v))
     \<or> (\<exists>s e t. val = StoredTime t \<and> f = clearedField s e))"

definition hash_inv :: "redis_contents \<Rightarrow> bool" where
  "hash_inv h \<longleftrightarrow> states_hash (h statesKey) \<and> divergences_hash (h divergencesKey)"

definition hash_abs :: "redis_contents \<Rightarrow> store_spec" where
  "hash_abs h =
     \<lparr>sp_states = (\<lambda>(s, e). case h statesKey (stateKey s e) of Some (StoredState x) \<Rightarrow> Some x | _ \<Rightarrow> None),
      sp_divergences = (\<lambda>(s, e, d). if valid_direction d
        then (case h divergencesKey (sourceField s e d) of Some (StoredDivergence v) \<Rightarrow> Some v | _ \<Rightarrow> None) else None),
      sp_cleared = (\<lambda>(s, e). case h divergencesKey (clearedField s e) of Some (StoredTime t) \<Rightarrow> Some t | _ \<Rightarrow> None)\<rparr>"

lemma hash_abs_simps:
  "sp_states (hash_abs h) (s, e) = Some x \<longleftrightarrow> h statesKey (stateKey s e) = Some (StoredState x)"
  "sp_divergences (hash_abs h) (s, e, d) = Some v \<longleftrightarrow> valid_direction d \<and> h divergencesKey (sourceField s e d) = Some (StoredDivergence v)"
  "sp_cleared (hash_abs h) (s, e) = Some t \<longleftrightarrow> h divergencesKey (clearedField s e) = Some (StoredTime t)"
  by (simp_all add: hash_abs_def split: option.split stored_value.split)

lemma sourceField_inject [simp]: "sourceField s e d = sourceField s' e' d' \<longleftrightarrow> s = s' \<and> e = e' \<and> d = d'"
  unfolding sourceField_def by (auto dest!: stateKey_prefix)

lemma clearedField_inject [simp]: "clearedField s e = clearedField s' e' \<longleftrightarrow> s = s' \<and> e = e'"
  unfolding clearedField_def by (auto dest!: stateKey_prefix)

lemma source_not_cleared [simp]:
  "valid_direction d \<Longrightarrow> sourceField s e d \<noteq> clearedField s' e'"
  "valid_direction d \<Longrightarrow> clearedField s' e' \<noteq> sourceField s e d"
  by (auto simp: sourceField_def clearedField_def valid_direction_def dest!: stateKey_prefix)

lemma valid_directions [simp]: "valid_direction Ingress" "valid_direction Egress"
  by (simp_all add: valid_direction_def)

lemma suffix_cleared: "suffix clearedSuffix (clearedField s e)"
  by (simp add: clearedField_def stateKey_def go_quote_def suffix_def)

lemma suffix_source: "valid_direction d \<Longrightarrow> \<not> suffix clearedSuffix (sourceField s e d)"
  by (auto simp: sourceField_def valid_direction_def suffix_def)

lemma hash_put:
  assumes "hash_inv h"
  assumes h'_def: "h' = run_command h (HSET statesKey (stateKey (s_service s) (s_environment s)) (StoredState \<lparr>rv_state = s, rv_received = at\<rparr>))"
  shows "hash_inv h'" "hash_abs h' = spec_put (hash_abs h) s at"
proof -
  show "hash_inv h'" using assms(1) by (auto simp: h'_def hash_inv_def states_hash_def)
  show "hash_abs h' = spec_put (hash_abs h) s at" by (auto simp: h'_def hash_abs_def spec_put_def fun_eq_iff)
qed

lemma hash_record:
  assumes "hash_inv h" "valid_direction (v_direction v)"
  assumes h'_def: "h' = run_command h (HSET divergencesKey (sourceField (v_service v) (v_environment v) (v_direction v)) (StoredDivergence v))"
  shows "hash_inv h'" "hash_abs h' = (hash_abs h)\<lparr>sp_divergences := (sp_divergences (hash_abs h))(source_of v \<mapsto> v)\<rparr>"
proof -
  show "hash_inv h'" using assms(1,2) by (auto simp: h'_def hash_inv_def divergences_hash_def)
  show "hash_abs h' = (hash_abs h)\<lparr>sp_divergences := (sp_divergences (hash_abs h))(source_of v \<mapsto> v)\<rparr>"
    using assms(2) by (auto simp: h'_def hash_abs_def source_of_def fun_eq_iff)
qed

lemma hash_clear:
  assumes "hash_inv h"
  assumes h'_def: "h' = foldl run_command h
    [HDEL divergencesKey [sourceField service environment Ingress, sourceField service environment Egress],
     HSET divergencesKey (clearedField service environment) (StoredTime at)]"
  shows "hash_inv h'" "hash_abs h' = spec_clear (hash_abs h) service environment at"
proof -
  show "hash_inv h'" using assms(1) by (auto simp: h'_def hash_inv_def divergences_hash_def)
  show "hash_abs h' = spec_clear (hash_abs h) service environment at"
    by (auto simp: h'_def hash_abs_def spec_clear_def fun_eq_iff) (auto simp: valid_direction_def)
qed

text \<open>Forgetting some of the stale states.\<close>

definition drop_states :: "redis_contents \<Rightarrow> string set \<Rightarrow> redis_contents" where
  "drop_states h S = h(statesKey := (\<lambda>f. if f \<in> S then None else h statesKey f))"

definition stale_fields :: "redis_contents \<Rightarrow> time \<Rightarrow> string set" where
  "stale_fields h since = {f. \<exists>x. h statesKey f = Some (StoredState x) \<and> rv_received x < since}"

lemma drop_states_simps [simp]:
  "drop_states h {} = h" "drop_states (drop_states h S) T = drop_states h (S \<union> T)"
  "drop_states h S statesKey f = (if f \<in> S then None else h statesKey f)"
  by (auto simp: drop_states_def fun_eq_iff)

lemma forget_drop: "h statesKey f = Some val \<Longrightarrow> forgetIfUnchanged h statesKey f val = drop_states h {f}"
  by (simp add: forgetIfUnchanged_def drop_states_def fun_eq_iff)

lemma hash_inv_drop: "hash_inv h \<Longrightarrow> hash_inv (drop_states h S)"
  by (simp add: hash_inv_def states_hash_def drop_states_def)

lemma hash_abs_drop:
  assumes "S \<subseteq> stale_fields h since"
  shows "spec_forget (hash_abs (drop_states h S)) since = spec_forget (hash_abs h) since"
    and "S = stale_fields h since \<Longrightarrow> hash_abs (drop_states h S) = spec_forget (hash_abs h) since"
  using assms
  by (auto simp: spec_forget_def hash_abs_def drop_states_def stale_fields_def fun_eq_iff
      split: option.splits stored_value.splits)

lemma hash_listed:
  assumes "hash_inv h" "map_of fvs = h statesKey" "distinct (map fst fvs)"
  shows "{rv_state x | f x. (f, StoredState x) \<in> set fvs \<and> \<not> rv_received x < since} = spec_listed (hash_abs h) since"
proof -
  have fvs: "(f, val) \<in> set fvs \<longleftrightarrow> h statesKey f = Some val" for f val
    using assms(2,3) by (metis map_of_eq_Some_iff)
  have "(\<exists>f. h statesKey f = Some (StoredState x)) \<longleftrightarrow> (\<exists>k. sp_states (hash_abs h) k = Some x)" for x
  proof
    assume "\<exists>f. h statesKey f = Some (StoredState x)"
    then obtain f where "h statesKey f = Some (StoredState x)" by blast
    moreover from this assms(1) have "f = stateKey (s_service (rv_state x)) (s_environment (rv_state x))"
      by (auto simp: hash_inv_def states_hash_def)
    ultimately have "sp_states (hash_abs h) (s_service (rv_state x), s_environment (rv_state x)) = Some x"
      by (simp add: hash_abs_def)
    then show "\<exists>k. sp_states (hash_abs h) k = Some x" by blast
  qed (auto simp: hash_abs_simps)
  then show ?thesis by (fastforce simp: fvs spec_listed_def not_less)
qed

lemma divergences_loop_set:
  "redis_divergences_loop fvs = Inr ds \<Longrightarrow> set ds = {v. \<exists>f. (f, StoredDivergence v) \<in> set fvs \<and> \<not> suffix clearedSuffix f}"
proof (induction fvs arbitrary: ds)
  case (Cons x fvs)
  obtain f val where x: "x = (f, val)" by fastforce
  show ?case
  proof (cases "suffix clearedSuffix f")
    case True
    with Cons x show ?thesis by auto
  next
    case False
    with Cons.prems x obtain v vs where "val = StoredDivergence v" "redis_divergences_loop fvs = Inr vs" "ds = v # vs"
      by (cases val) auto
    with Cons.IH x False show ?thesis by auto
  qed
qed auto

lemma hash_divergences:
  assumes "hash_inv h" "map_of fvs = h divergencesKey" "distinct (map fst fvs)" "redis_divergences_loop fvs = Inr ds"
  shows "set ds = ran (sp_divergences (hash_abs h))"
proof -
  have fvs: "(f, val) \<in> set fvs \<longleftrightarrow> h divergencesKey f = Some val" for f val
    using assms(2,3) by (metis map_of_eq_Some_iff)
  have "(\<exists>f. h divergencesKey f = Some (StoredDivergence v) \<and> \<not> suffix clearedSuffix f)
      \<longleftrightarrow> (\<exists>s e d. valid_direction d \<and> h divergencesKey (sourceField s e d) = Some (StoredDivergence v))" for v
    using assms(1) suffix_source by (fastforce simp: hash_inv_def divergences_hash_def)
  moreover have "ran (sp_divergences (hash_abs h))
      = {v. \<exists>s e d. valid_direction d \<and> h divergencesKey (sourceField s e d) = Some (StoredDivergence v)}"
    by (auto simp: ran_def hash_abs_simps)
  ultimately show ?thesis using divergences_loop_set [OF assms(4)] fvs by simp
qed

lemma stale_drop: "stale_fields (drop_states h S) since = stale_fields h since - S"
  by (auto simp: stale_fields_def)

context redis_server
begin

lemma eval_forget:
  assumes "eval r statesKey f val = (e, r')" "contents r statesKey f = Some val"
  shows "\<exists>S \<subseteq> {f}. contents r' = drop_states (contents r) S \<and> (e = None \<longrightarrow> S = {f})"
proof (cases e)
  case None
  have "contents r' = drop_states (contents r) {f}"
    using eval_ok [of r statesKey f val r'] assms None forget_drop [of "contents r" f val, OF assms(2)] by simp
  then show ?thesis by auto
next
  case (Some err)
  have "contents r' = drop_states (contents r) {} \<or> contents r' = drop_states (contents r) {f}"
    using eval_err [of r statesKey f val err r'] assms Some forget_drop [of "contents r" f val, OF assms(2)] by simp
  with Some show ?thesis by (elim disjE) auto
qed

lemma states_loop:
  assumes "redis_states_loop eval since r fvs states = (res, r')" "distinct (map fst fvs)"
    and "\<And>f val. (f, val) \<in> set fvs \<Longrightarrow> contents r statesKey f = Some val"
  shows "\<exists>S. S \<subseteq> stale_fields (contents r) since \<and> contents r' = drop_states (contents r) S
    \<and> (\<forall>ss. res = Inr ss \<longrightarrow> S = stale_fields (contents r) since \<inter> fst ` set fvs
         \<and> set ss = set states \<union> {rv_state x | f x. (f, StoredState x) \<in> set fvs \<and> \<not> rv_received x < since})"
  using assms
proof (induction fvs arbitrary: r states)
  case Nil
  then show ?case by (intro exI [of _ "{}"]) auto
next
  case (Cons y fvs)
  obtain f val where y: "y = (f, val)" by fastforce
  have f: "contents r statesKey f = Some val" "f \<notin> fst ` set fvs" using Cons.prems y by auto
  show ?case
  proof (cases "decodeState val")
    case (Inl err)
    with Cons.prems(1) y show ?thesis by (intro exI [of _ "{}"]) auto
  next
    case (Inr x)
    then have val: "val = StoredState x" by (cases val) auto
    show ?thesis
    proof (cases "rv_received x < since")
      case False
      with Cons.prems(1) y val have "redis_states_loop eval since r fvs (states @ [rv_state x]) = (res, r')" by simp
      from Cons.IH [OF this] Cons.prems(2,3) y obtain S where
        S: "S \<subseteq> stale_fields (contents r) since" "contents r' = drop_states (contents r) S"
        "\<And>ss. res = Inr ss \<Longrightarrow> S = stale_fields (contents r) since \<inter> fst ` set fvs
         \<and> set ss = set (states @ [rv_state x]) \<union> {rv_state x | f x. (f, StoredState x) \<in> set fvs \<and> \<not> rv_received x < since}"
        by auto
      moreover have "f \<notin> stale_fields (contents r) since" using f val False by (simp add: stale_fields_def)
      ultimately show ?thesis using False y val by (intro exI [of _ S]) auto
    next
      case True
      then have stale: "f \<in> stale_fields (contents r) since" using f val by (simp add: stale_fields_def)
      obtain e r1 where ev: "eval r statesKey f val = (e, r1)" by fastforce
      from eval_forget [OF ev f(1)] obtain S0 where
        S0: "S0 \<subseteq> {f}" "contents r1 = drop_states (contents r) S0" "e = None \<Longrightarrow> S0 = {f}" by blast
      show ?thesis
      proof (cases e)
        case (Some err)
        with Cons.prems(1) y val True ev have "res = Inl (wrap ''forget stale state'' err)" "r' = r1" by auto
        with S0 stale show ?thesis by (intro exI [of _ S0]) auto
      next
        case None
        with Cons.prems(1) y val True ev have loop: "redis_states_loop eval since r1 fvs states = (res, r')" by simp
        have "contents r1 statesKey g = Some w" if "(g, w) \<in> set fvs" for g w
          using that Cons.prems(3) [of g w] y f(2) S0 by force
        from Cons.IH [OF loop _ this] Cons.prems(2) y obtain S where
          S: "S \<subseteq> stale_fields (contents r1) since" "contents r' = drop_states (contents r1) S"
          "\<And>ss. res = Inr ss \<Longrightarrow> S = stale_fields (contents r1) since \<inter> fst ` set fvs
           \<and> set ss = set states \<union> {rv_state x | f x. (f, StoredState x) \<in> set fvs \<and> \<not> rv_received x < since}"
          by auto
        with S0(2) S0(3) [OF None] stale f(2) True y val show ?thesis
          by (intro exI [of _ "insert f S"]) (auto simp: stale_drop)
      qed
    qed
  qed
qed

lemma Redis_States_spec:
  assumes "hash_inv (contents r)" "Redis_States eval hgetall r since = (res, r')"
  shows "hash_inv (contents r')" "spec_forget (hash_abs (contents r')) since = spec_forget (hash_abs (contents r)) since"
    "res = Inr ss \<Longrightarrow> set ss = spec_listed (hash_abs (contents r)) since
       \<and> hash_abs (contents r') = spec_forget (hash_abs (contents r)) since"
proof -
  have "hash_inv (contents r') \<and> spec_forget (hash_abs (contents r')) since = spec_forget (hash_abs (contents r)) since
    \<and> (res = Inr ss \<longrightarrow> set ss = spec_listed (hash_abs (contents r)) since
       \<and> hash_abs (contents r') = spec_forget (hash_abs (contents r)) since)"
  proof (cases "hgetall r statesKey")
    case (Inl err)
    with assms show ?thesis by (auto simp: Redis_States_def)
  next
    case (Inr fvs)
    note H = hgetall_ok [OF Inr]
    have all: "contents r statesKey f = Some val" if "(f, val) \<in> set fvs" for f val
      using H that by (metis map_of_is_SomeI)
    have loop: "redis_states_loop eval since r fvs [] = (res, r')" using assms(2) Inr by (simp add: Redis_States_def)
    from states_loop [OF loop conjunct1 [OF H] all] obtain S where
      S: "S \<subseteq> stale_fields (contents r) since" "contents r' = drop_states (contents r) S"
      "res = Inr ss \<Longrightarrow> S = stale_fields (contents r) since \<inter> fst ` set fvs
         \<and> set ss = {rv_state x | f x. (f, StoredState x) \<in> set fvs \<and> \<not> rv_received x < since}"
      by auto
    have "stale_fields (contents r) since \<subseteq> fst ` set fvs"
      using H by (auto simp: stale_fields_def) (metis map_of_SomeD fst_conv image_eqI)
    with S(3) have ok: "res = Inr ss \<Longrightarrow> S = stale_fields (contents r) since
         \<and> set ss = spec_listed (hash_abs (contents r)) since"
      using hash_listed [OF assms(1) conjunct2 [OF H] conjunct1 [OF H], of since] by auto
    show ?thesis
      using hash_inv_drop [OF assms(1)] hash_abs_drop [OF S(1)] ok S(2) by auto
  qed
  then show "hash_inv (contents r')" "spec_forget (hash_abs (contents r')) since = spec_forget (hash_abs (contents r)) since"
    "res = Inr ss \<Longrightarrow> set ss = spec_listed (hash_abs (contents r)) since
       \<and> hash_abs (contents r') = spec_forget (hash_abs (contents r)) since" by auto
qed

lemma decision_spec:
  assumes "hash_inv (contents r)" "valid_direction (v_direction v)" "record_decision hmget r v = Inr b"
  shows "b \<longleftrightarrow> \<not> ignored (map_option v_quarantine (sp_divergences (hash_abs (contents r)) (source_of v)))
    (sp_cleared (hash_abs (contents r)) (v_service v, v_environment v)) (v_quarantine v)"
proof -
  let ?h = "contents r divergencesKey"
  let ?f = "sourceField (v_service v) (v_environment v) (v_direction v)"
  let ?g = "clearedField (v_service v) (v_environment v)"
  obtain vals where vals: "hmget r divergencesKey [?f, ?g] = Inr vals" using assms(3)
    by (auto simp: record_decision_def split: sum.splits)
  then have vs: "vals = [?h ?f, ?h ?g]" using hmget_ok [OF vals] by simp
  have inv: "divergences_hash ?h" using assms(1) by (simp add: hash_inv_def)
  have d: "decodeOptional (?h ?f) decodeDivergence = Inr (sp_divergences (hash_abs (contents r)) (source_of v))"
  proof (cases "?h ?f")
    case (Some val)
    with inv assms(2) obtain w where "val = StoredDivergence w"
      unfolding divergences_hash_def by (metis source_not_cleared(1))
    with Some assms(2) show ?thesis by (simp add: decodeOptional_def hash_abs_def source_of_def)
  qed (simp add: decodeOptional_def hash_abs_def source_of_def)
  have c: "decodeOptional (?h ?g) decodeCleared = Inr (sp_cleared (hash_abs (contents r)) (v_service v, v_environment v))"
  proof (cases "?h ?g")
    case (Some val)
    with inv obtain t where "val = StoredTime t"
      unfolding divergences_hash_def by (metis source_not_cleared(1))
    with Some show ?thesis by (simp add: decodeOptional_def hash_abs_def)
  qed (simp add: decodeOptional_def hash_abs_def)
  show ?thesis using assms(3) by (simp add: record_decision_def vals vs d c)
qed

lemma exec_record:
  assumes "hash_inv (contents r)" "valid_direction (v_direction v)"
    and "exec r [HSET divergencesKey (sourceField (v_service v) (v_environment v) (v_direction v)) (StoredDivergence v)] = (e, r')"
    and "\<not> ignored (map_option v_quarantine (sp_divergences (hash_abs (contents r)) (source_of v)))
      (sp_cleared (hash_abs (contents r)) (v_service v, v_environment v)) (v_quarantine v)"
  shows "hash_inv (contents r')"
    "hash_abs (contents r') = spec_record (hash_abs (contents r)) v \<or> e \<noteq> None \<and> hash_abs (contents r') = hash_abs (contents r)"
proof -
  have "contents r' = contents r \<and> e \<noteq> None \<or> contents r' = run_command (contents r)
      (HSET divergencesKey (sourceField (v_service v) (v_environment v) (v_direction v)) (StoredDivergence v))"
    using exec_ok [of r _ r'] exec_err [of r _ _ r'] assms(3) by (cases e) fastforce+
  with hash_record [OF assms(1,2) refl] assms(1,4) show "hash_inv (contents r')"
    "hash_abs (contents r') = spec_record (hash_abs (contents r)) v \<or> e \<noteq> None \<and> hash_abs (contents r') = hash_abs (contents r)"
    by (auto simp: spec_record_def)
qed

text \<open>The retries of \<open>Record\<close>: others' steps between, and one atomic step of its own.\<close>

lemma record_loop:
  assumes "hash_inv (contents r)" "valid_direction (v_direction v)" "Redis_Record exec hmget attempts r v = Some (res, r')"
    and "\<And>t oth x. (t, oth) \<in> set attempts \<Longrightarrow> hash_inv (contents x) \<Longrightarrow>
      hash_inv (contents (oth x)) \<and> (\<not> t \<longrightarrow> contents (oth x) divergencesKey = contents x divergencesKey)"
  shows "\<exists>k \<le> length attempts. \<exists>r0. r0 = foldl (\<lambda>x (t, oth). oth x) r (take k attempts)
    \<and> hash_inv (contents r') \<and> (hash_abs (contents r') = spec_record (hash_abs (contents r0)) v
      \<or> res \<noteq> Inr () \<and> hash_abs (contents r') = hash_abs (contents r0))"
  using assms(1,3,4)
proof (induction attempts arbitrary: r)
  case (Cons a attempts)
  obtain t oth where a: "a = (t, oth)" by fastforce
  note oth = Cons.prems(3) [of t oth r, OF _ Cons.prems(1)]
  show ?case
  proof (cases "json_time (q_since (v_quarantine v)) \<and> record_decision hmget r v = Inr True")
    case False
    then have "r' = r" "res = Inr () \<Longrightarrow> record_decision hmget r v = Inr False"
      using Cons.prems(2) a by (auto split: if_splits sum.splits bool.splits)
    moreover from this decision_spec [OF Cons.prems(1) assms(2)]
    have "res = Inr () \<Longrightarrow> spec_record (hash_abs (contents r)) v = hash_abs (contents r)" by (fastforce simp: spec_record_def)
    ultimately show ?thesis using Cons.prems(1) by (intro exI [of _ 0]) auto
  next
    case True
    show ?thesis
    proof (cases t)
      case touched: True
      with True Cons.prems(2) a have "Redis_Record exec hmget attempts (oth r) v = Some (res, r')" by simp
      moreover have "hash_inv (contents (oth r))" using oth a by simp
      moreover have "hash_inv (contents (g x)) \<and> (\<not> t' \<longrightarrow> contents (g x) divergencesKey = contents x divergencesKey)"
        if "(t', g) \<in> set attempts" "hash_inv (contents x)" for t' g x
        using Cons.prems(3) [of t' g x] that by simp
      ultimately obtain k where
        "k \<le> length attempts" "hash_inv (contents r') \<and> (hash_abs (contents r') = spec_record (hash_abs (contents (foldl (\<lambda>x (t, oth). oth x) (oth r) (take k attempts)))) v
        \<or> res \<noteq> Inr () \<and> hash_abs (contents r') = hash_abs (contents (foldl (\<lambda>x (t, oth). oth x) (oth r) (take k attempts))))"
        using Cons.IH [of "oth r"] by blast
      with a show ?thesis by (intro exI [of _ "Suc k"]) auto
    next
      case False
      have same: "contents (oth r) divergencesKey = contents r divergencesKey" using oth a False by simp
      have keep: "sp_divergences (hash_abs (contents (oth r))) = sp_divergences (hash_abs (contents r))"
        "sp_cleared (hash_abs (contents (oth r))) = sp_cleared (hash_abs (contents r))"
        unfolding hash_abs_def same by simp_all
      obtain e r1 where ex: "exec (oth r) [HSET divergencesKey (sourceField (v_service v) (v_environment v) (v_direction v)) (StoredDivergence v)] = (e, r1)"
        by fastforce
      have r1: "r' = r1" "res = Inr () \<longleftrightarrow> e = None"
        using Cons.prems(2) a True False ex by (auto simp: wrap_error_def split: option.splits)
      from decision_spec [OF Cons.prems(1) assms(2), of True] True
      have "\<not> ignored (map_option v_quarantine (sp_divergences (hash_abs (contents (oth r))) (source_of v)))
        (sp_cleared (hash_abs (contents (oth r))) (v_service v, v_environment v)) (v_quarantine v)" by (simp add: keep)
      from exec_record [OF _ assms(2) ex this] oth a r1 show ?thesis by (intro exI [of _ 1]) auto
    qed
  qed
qed simp

lemma record_returns:
  "\<exists>(t, oth) \<in> set attempts. \<not> t \<Longrightarrow> \<exists>x. Redis_Record exec hmget attempts r v = Some x"
proof (induction attempts arbitrary: r)
  case (Cons a attempts)
  then show ?case by (cases a) (auto split: sum.splits bool.splits)
qed simp

lemma Redis_Put_spec:
  assumes "hash_inv (contents r)" "Redis_Put exec r s at = (res, r')"
  shows "hash_inv (contents r') \<and> (hash_abs (contents r') = spec_put (hash_abs (contents r)) s at
    \<or> res \<noteq> Inr () \<and> hash_abs (contents r') = hash_abs (contents r))"
proof (cases "json_received \<lparr>rv_state = s, rv_received = at\<rparr>")
  case True
  let ?c = "HSET statesKey (stateKey (s_service s) (s_environment s)) (StoredState \<lparr>rv_state = s, rv_received = at\<rparr>)"
  obtain e r1 where ex: "exec r [?c] = (e, r1)" by fastforce
  with assms(2) True have r1: "r' = r1" "res = Inr () \<longleftrightarrow> e = None"
    by (auto simp: Redis_Put_def Let_def wrap_error_def split: option.splits)
  have "contents r' = run_command (contents r) ?c \<or> e \<noteq> None \<and> contents r' = contents r"
    using exec_ok [of r "[?c]" r1] exec_err [of r "[?c]" _ r1] ex r1 by (cases e) auto
  with hash_put [OF assms(1) refl] assms(1) r1 show ?thesis by auto
qed (use assms in \<open>auto simp: Redis_Put_def Let_def\<close>)

lemma Redis_Clear_spec:
  assumes "hash_inv (contents r)" "Redis_Clear exec r service environment at = (res, r')"
  shows "hash_inv (contents r') \<and> (hash_abs (contents r') = spec_clear (hash_abs (contents r)) service environment at
    \<or> res \<noteq> Inr () \<and> hash_abs (contents r') = hash_abs (contents r))"
proof (cases "json_time at")
  case True
  let ?cs = "[HDEL divergencesKey [sourceField service environment Ingress, sourceField service environment Egress],
     HSET divergencesKey (clearedField service environment) (StoredTime at)]"
  obtain e r1 where ex: "exec r ?cs = (e, r1)" by fastforce
  with assms(2) True have r1: "r' = r1" "res = Inr () \<longleftrightarrow> e = None"
    by (auto simp: Redis_Clear_def wrap_error_def split: option.splits)
  have "contents r' = foldl run_command (contents r) ?cs \<or> e \<noteq> None \<and> contents r' = contents r"
    using exec_ok [of r ?cs r1] exec_err [of r ?cs _ r1] ex r1 by (cases e) auto
  with hash_clear [OF assms(1) refl] assms(1) r1 show ?thesis by auto
qed (use assms in \<open>auto simp: Redis_Clear_def\<close>)

lemma Redis_Record_once:
  assumes "hash_inv (contents r)" "valid_direction (v_direction v)" "the (Redis_Record exec hmget [(False, id)] r v) = (res, r')"
  shows "hash_inv (contents r') \<and> (hash_abs (contents r') = spec_record (hash_abs (contents r)) v
    \<or> res \<noteq> Inr () \<and> hash_abs (contents r') = hash_abs (contents r))"
proof -
  have "\<exists>x. Redis_Record exec hmget [(False, id)] r v = Some x" by (rule record_returns) simp
  with assms(3) have "Redis_Record exec hmget [(False, id)] r v = Some (res, r')" by (metis option.sel)
  from record_loop [OF assms(1,2) this] obtain k where "k \<le> Suc 0"
    "hash_inv (contents r') \<and> (hash_abs (contents r') = spec_record (hash_abs (contents (foldl (\<lambda>x (t, oth). oth x) r (take k [(False, id)])))) v
      \<or> res \<noteq> Inr () \<and> hash_abs (contents r') = hash_abs (contents (foldl (\<lambda>x (t, oth). oth x) r (take k [(False, id)]))))"
    by fastforce
  then show ?thesis by (cases k) auto
qed

lemma Redis_Divergences_spec:
  assumes "hash_inv (contents r)" "Redis_Divergences hgetall r = Inr ds"
  shows "set ds = ran (sp_divergences (hash_abs (contents r)))"
proof -
  from assms(2) obtain fvs where fvs: "hgetall r divergencesKey = Inr fvs" "redis_divergences_loop fvs = Inr ds"
    by (auto simp: Redis_Divergences_def split: sum.splits)
  with hgetall_ok [OF fvs(1)] hash_divergences [OF assms(1) _ _ fvs(2)] show ?thesis by blast
qed

end

sublocale redis_server \<subseteq> redis: store "Redis_Put exec" "Redis_States eval hgetall"
  "\<lambda>r v. the (Redis_Record exec hmget [(False, id)] r v)" "Redis_Clear exec" "Redis_Divergences hgetall"
  "\<lambda>r. hash_inv (contents r)" "\<lambda>r. hash_abs (contents r)"
proof unfold_locales
qed (auto dest: Redis_Put_spec Redis_States_spec Redis_Clear_spec Redis_Record_once Redis_Divergences_spec)

text \<open>The documented commands on hashes kept as association lists: a server that never fails.\<close>

type_synonym hash_tables = "string \<Rightarrow> (string \<times> stored_value) list"

fun table_command :: "hash_tables \<Rightarrow> redis_command \<Rightarrow> hash_tables" where
  "table_command t (HSET key f val) = t(key := AList.update f val (t key))"
| "table_command t (HDEL key fs) = t(key := filter (\<lambda>(f, _). f \<notin> set fs) (t key))"

definition table_contents :: "hash_tables \<Rightarrow> redis_contents" where
  "table_contents t key = map_of (t key)"

definition table_exec :: "hash_tables \<Rightarrow> redis_command list \<Rightarrow> string option \<times> hash_tables" where
  "table_exec t cs = (None, foldl table_command t cs)"

definition table_eval :: "hash_tables \<Rightarrow> string \<Rightarrow> string \<Rightarrow> stored_value \<Rightarrow> string option \<times> hash_tables" where
  "table_eval t key f val = (None, if map_of (t key) f = Some val then table_command t (HDEL key [f]) else t)"

definition table_hgetall :: "hash_tables \<Rightarrow> string \<Rightarrow> (string \<times> stored_value) list result" where
  "table_hgetall t key = Inr (AList.clearjunk (t key))"

definition table_hmget :: "hash_tables \<Rightarrow> string \<Rightarrow> string list \<Rightarrow> stored_value option list result" where
  "table_hmget t key fs = Inr (map (map_of (t key)) fs)"

lemma table_command_contents: "table_contents (table_command t c) = run_command (table_contents t) c"
proof (cases c)
  case (HDEL key fs)
  have "map_of (filter (\<lambda>(f, _). f \<notin> set fs) xs) f = (if f \<in> set fs then None else map_of xs f)" for xs :: "(string \<times> stored_value) list" and f
    using filter_keys_map_of [of "\<lambda>f. f \<notin> set fs" xs f] by simp
  with HDEL show ?thesis by (auto simp: table_contents_def fun_eq_iff)
qed (auto simp: table_contents_def fun_eq_iff update_conv)

lemma table_commands_contents: "table_contents (foldl table_command t cs) = foldl run_command (table_contents t) cs"
  by (induction cs arbitrary: t) (simp_all add: table_command_contents)

lemma table_at: "table_contents t key f = map_of (t key) f"
  by (simp add: table_contents_def)

interpretation table_server: redis_server table_contents table_exec table_eval table_hgetall table_hmget
proof
  show "table_contents r' = forgetIfUnchanged (table_contents r) key f val" if "table_eval r key f val = (None, r')" for r key f val r'
    using that table_command_contents [of r "HDEL key [f]"] table_at
    by (cases "map_of (r key) f = Some val")
      (auto simp: table_eval_def forgetIfUnchanged_def simp del: table_command.simps run_command.simps)
qed (auto simp: table_exec_def table_eval_def table_hgetall_def table_hmget_def table_commands_contents table_contents_def
    map_of_clearjunk)

subsection \<open>Sequences of operations\<close>

datatype store_op = OpPut mirror_state time | OpStates time | OpRecord divergence | OpClear string string time

fun spec_op :: "store_spec \<Rightarrow> store_op \<Rightarrow> store_spec" where
  "spec_op a (OpPut s at) = spec_put a s at"
| "spec_op a (OpStates since) = spec_forget a since"
| "spec_op a (OpRecord v) = spec_record a v"
| "spec_op a (OpClear service environment at) = spec_clear a service environment at"

fun op_valid :: "store_op \<Rightarrow> bool" where
  "op_valid (OpRecord v) = valid_direction (v_direction v)"
| "op_valid _ = True"

definition finished :: "'a result \<times> 'm \<Rightarrow> 'm option" where
  "finished x = (case x of (Inl _, _) \<Rightarrow> None | (Inr _, m) \<Rightarrow> Some m)"

text \<open>Operations in sequence on a store; \<open>None\<close> once one has failed.\<close>

fun run_op :: "('m \<Rightarrow> mirror_state \<Rightarrow> time \<Rightarrow> unit result \<times> 'm) \<Rightarrow> ('m \<Rightarrow> time \<Rightarrow> mirror_state list result \<times> 'm)
    \<Rightarrow> ('m \<Rightarrow> divergence \<Rightarrow> unit result \<times> 'm) \<Rightarrow> ('m \<Rightarrow> string \<Rightarrow> string \<Rightarrow> time \<Rightarrow> unit result \<times> 'm)
    \<Rightarrow> 'm \<Rightarrow> store_op \<Rightarrow> 'm option" where
  "run_op put states rec clear m (OpPut s at) = finished (put m s at)"
| "run_op put states rec clear m (OpStates since) = finished (states m since)"
| "run_op put states rec clear m (OpRecord v) = finished (rec m v)"
| "run_op put states rec clear m (OpClear service environment at) = finished (clear m service environment at)"

fun run_ops :: "('m \<Rightarrow> store_op \<Rightarrow> 'm option) \<Rightarrow> 'm \<Rightarrow> store_op list \<Rightarrow> 'm option" where
  "run_ops step m [] = Some m"
| "run_ops step m (p # ps) = (case step m p of None \<Rightarrow> None | Some m' \<Rightarrow> run_ops step m' ps)"

lemma finishedD: "finished x = Some m \<Longrightarrow> \<exists>v. x = (Inr v, m)"
  by (auto simp: finished_def split: prod.splits sum.splits)

context store
begin

lemma run_op_spec:
  assumes "inv m" "op_valid p" "run_op put list_states record_div clear m p = Some m'"
  shows "inv m' \<and> abs m' = spec_op (abs m) p"
proof (cases p)
  case (OpPut s at)
  with assms(3) put_ok [OF assms(1), of s at m'] show ?thesis by (auto dest!: finishedD)
next
  case (OpStates since)
  with assms(3) obtain ss where "list_states m since = (Inr ss, m')" by (auto dest!: finishedD)
  from states_ok [OF assms(1) this] OpStates show ?thesis by simp
next
  case (OpRecord v)
  with assms(2,3) record_ok [OF assms(1), of v m'] show ?thesis by (auto dest!: finishedD)
next
  case (OpClear service environment at)
  with assms(3) clear_ok [OF assms(1), of service environment at m'] show ?thesis by (auto dest!: finishedD)
qed

lemma run_ops_spec:
  "inv m \<Longrightarrow> list_all op_valid ps \<Longrightarrow> run_ops (run_op put list_states record_div clear) m ps = Some m' \<Longrightarrow>
   inv m' \<and> abs m' = foldl spec_op (abs m) ps"
proof (induction ps arbitrary: m)
  case (Cons p ps)
  then obtain m1 where m1: "run_op put list_states record_div clear m p = Some m1"
    "run_ops (run_op put list_states record_div clear) m1 ps = Some m'"
    by (auto split: option.splits)
  have "op_valid p" using Cons.prems(2) by simp
  from run_op_spec [OF Cons.prems(1) this m1(1)] Cons.IH [OF _ _ m1(2)] Cons.prems(2) show ?case by simp
qed simp

end

context redis_server
begin

lemma redis_run:
  assumes "hash_inv (contents r)" "list_all op_valid ps"
    "run_ops (run_op (Redis_Put exec) (Redis_States eval hgetall) (\<lambda>r v. the (Redis_Record exec hmget [(False, id)] r v)) (Redis_Clear exec)) r ps = Some r'"
  shows "hash_inv (contents r') \<and> hash_abs (contents r') = foldl spec_op (hash_abs (contents r)) ps"
  by (rule redis.run_ops_spec [OF assms])

end

text \<open>Both stores start empty.\<close>

lemma memory_start: "memory_inv NewMemory" "memory_abs NewMemory = empty_spec"
  by (auto simp: memory_inv_def memory_abs_def NewMemory_def empty_spec_def fun_eq_iff)

lemma hash_start:
  assumes "\<And>key f. h key f = None"
  shows "hash_inv h" "hash_abs h = empty_spec"
  using assms by (auto simp: hash_inv_def states_hash_def divergences_hash_def hash_abs_def empty_spec_def fun_eq_iff)

lemma memory_run_total: "\<exists>m'. run_ops (run_op Memory_Put Memory_States Memory_Record Memory_Clear) m ps = Some m'"
proof (induction ps arbitrary: m)
  case (Cons p ps)
  have "\<exists>m'. run_op Memory_Put Memory_States Memory_Record Memory_Clear m p = Some m'"
    by (cases p) (auto simp: finished_def Memory_Put_def Memory_States_def Memory_Record_def Memory_Clear_def Let_def split: prod.splits)
  with Cons.IH show ?case by auto
qed simp

lemma memory_lists:
  assumes "memory_inv m" "memory_abs m = a"
  shows "\<exists>ss ds. fst (Memory_States m since) = Inr ss \<and> Memory_Divergences m = Inr ds
    \<and> set ss = spec_listed a since \<and> set ds = ran (sp_divergences a)"
proof -
  obtain ss m' where ss: "Memory_States m since = (Inr ss, m')"
    by (cases "memory_states_loop since (mm_states m) (mm_states m) []") (auto simp: Memory_States_def)
  have ds: "Memory_Divergences m = Inr (map snd (mm_divergences m))" by (simp add: Memory_Divergences_def)
  from memory.states_ok [OF assms(1) ss] memory.divs_ok [OF assms(1) ds] ss ds assms(2) show ?thesis by simp
qed

abbreviation run_memory :: "memory \<Rightarrow> store_op list \<Rightarrow> memory option" where
  "run_memory \<equiv> run_ops (run_op Memory_Put Memory_States Memory_Record Memory_Clear)"

definition spec_kept :: "store_spec \<Rightarrow> bool" where
  "spec_kept a \<longleftrightarrow> (\<forall>k v. sp_divergences a k = Some v \<longrightarrow> k = source_of v
     \<and> (\<forall>at. sp_cleared a (v_service v, v_environment v) = Some at \<longrightarrow> at < q_since (v_quarantine v)))"

lemma spec_op_kept: "spec_kept a \<Longrightarrow> spec_kept (spec_op a p)"
proof (cases p)
  case (OpRecord v)
  moreover assume "spec_kept a"
  ultimately show ?thesis
    by (auto simp: spec_kept_def spec_record_def ignored_def split: option.splits)
next
  case (OpClear service environment at)
  assume kept: "spec_kept a"
  have "k = source_of w \<and> (\<forall>t. sp_cleared (spec_clear a service environment at) (v_service w, v_environment w) = Some t \<longrightarrow> t < q_since (v_quarantine w))"
    if "sp_divergences (spec_clear a service environment at) k = Some w" for k w
  proof -
    obtain s e d where k: "k = (s, e, d)" by (cases k)
    with that have old: "sp_divergences a k = Some w" "\<not> (s = service \<and> e = environment)"
      by (auto simp: spec_clear_def split: if_splits)
    then have "k = source_of w" using kept unfolding spec_kept_def by blast
    with old k kept show ?thesis by (simp add: spec_kept_def spec_clear_def source_of_def) blast
  qed
  with OpClear show ?thesis by (simp add: spec_kept_def)
qed (simp_all add: spec_kept_def spec_put_def spec_forget_def)

lemma spec_ops_kept: "spec_kept (foldl spec_op empty_spec ps)"
proof -
  have "spec_kept a \<Longrightarrow> spec_kept (foldl spec_op a ps)" for a
    by (induction ps arbitrary: a) (auto intro: spec_op_kept)
  moreover have "spec_kept empty_spec" by (simp add: spec_kept_def empty_spec_def)
  ultimately show ?thesis by blast
qed

text \<open>
  C19. Redis and memory implement the same store. From empty stores, whenever a sequence of
  operations with valid directions succeeds on Redis, it succeeds on memory, and listing
  afterwards gives the same states and the same divergences from both, in whatever order,
  provided the Redis server behaves as \<open>redis_server\<close> says.
\<close>

theorem stores_agree:
  assumes "redis_server contents exec eval hgetall hmget" "\<And>key f. contents r key f = None" "list_all op_valid ps"
    and "run_ops (run_op (Redis_Put exec) (Redis_States eval hgetall) (\<lambda>r v. the (Redis_Record exec hmget [(False, id)] r v)) (Redis_Clear exec)) r ps = Some r'"
    and "fst (Redis_States eval hgetall r' since) = Inr ss" "Redis_Divergences hgetall r' = Inr ds"
  shows "\<exists>m' ss' ds'. run_memory NewMemory ps = Some m' \<and> fst (Memory_States m' since) = Inr ss'
    \<and> Memory_Divergences m' = Inr ds' \<and> set ss' = set ss \<and> set ds' = set ds"
proof -
  note R = redis_server.redis_run [OF assms(1) hash_start(1) assms(3,4)]
  have hash: "hash_inv (contents r')" "hash_abs (contents r') = foldl spec_op empty_spec ps"
    using R assms(2) hash_start(2) [of "contents r"] by auto
  obtain m' where m': "run_memory NewMemory ps = Some m'" using memory_run_total by blast
  have mem: "memory_inv m'" "memory_abs m' = foldl spec_op empty_spec ps"
    using memory.run_ops_spec [OF memory_start(1) assms(3) m'] memory_start(2) by auto
  have "set ss = spec_listed (foldl spec_op empty_spec ps) since"
    using redis_server.Redis_States_spec(3) [OF assms(1) hash(1), of since "Inr ss" "snd (Redis_States eval hgetall r' since)" ss]
      assms(5) hash(2) by (cases "Redis_States eval hgetall r' since") auto
  moreover have "set ds = ran (sp_divergences (foldl spec_op empty_spec ps))"
    using redis_server.Redis_Divergences_spec [OF assms(1) hash(1) assms(6)] hash(2) by simp
  ultimately show ?thesis using memory_lists [OF mem, of since] m' by simp
qed

text \<open>
  C20. \<open>Record\<close> is atomic on Redis although it compares in Go: whatever other servers do between
  its reads and writes, a successful call has the effect of the specification at one moment
  between the calls of others, and it returns as soon as one attempt is not disturbed.
\<close>

theorem redis_record_atomic:
  assumes "redis_server contents exec eval hgetall hmget" "hash_inv (contents r)" "valid_direction (v_direction v)"
    and "\<And>t oth x. (t, oth) \<in> set attempts \<Longrightarrow> hash_inv (contents x) \<Longrightarrow>
      hash_inv (contents (oth x)) \<and> (\<not> t \<longrightarrow> contents (oth x) divergencesKey = contents x divergencesKey)"
  shows "(\<forall>r'. Redis_Record exec hmget attempts r v = Some (Inr (), r') \<longrightarrow>
      (\<exists>k \<le> length attempts. hash_abs (contents r')
         = spec_record (hash_abs (contents (foldl (\<lambda>x (t, oth). oth x) r (take k attempts)))) v))
    \<and> ((\<exists>(t, oth) \<in> set attempts. \<not> t) \<longrightarrow> Redis_Record exec hmget attempts r v \<noteq> None)"
proof -
  have "\<exists>k \<le> length attempts. hash_abs (contents r')
      = spec_record (hash_abs (contents (foldl (\<lambda>x (t, oth). oth x) r (take k attempts)))) v"
    if "Redis_Record exec hmget attempts r v = Some (Inr (), r')" for r'
    using redis_server.record_loop [of contents exec eval hgetall hmget r v attempts "Inr ()" r'] assms that by blast
  with redis_server.record_returns [OF assms(1)] show ?thesis by (metis option.distinct(1))
qed


subsection \<open>A concrete history\<close>

definition sample_quarantine :: "time \<Rightarrow> quarantine" where
  "sample_quarantine since = \<lparr>q_reason = plain_reason QuarantineUnable None ''detail'', q_since = since\<rparr>"

definition sample_divergence :: "time \<Rightarrow> divergence" where
  "sample_divergence since = \<lparr>v_service = ''pay'', v_environment = ''prod'', v_revision = ''abc'', v_direction = Egress,
     v_quarantine = sample_quarantine since\<rparr>"

definition sample_ops :: "store_op list" where
  "sample_ops = [OpRecord (sample_divergence 3), OpClear ''pay'' ''prod'' 5, OpRecord (sample_divergence 4), OpRecord (sample_divergence 9)]"

lemma sample_valid: "list_all op_valid sample_ops"
  by (simp add: sample_ops_def sample_divergence_def)

definition sample_memory :: memory where
  "sample_memory = \<lparr>mm_states = [], mm_divergences = [((''pay'', ''prod'', Egress), sample_divergence 9)],
     mm_cleared = [(stateKey ''pay'' ''prod'', 5)]\<rparr>"

lemmas memory_ops = Memory_Record_def Memory_Clear_def NewMemory_def finished_def source_of_def ignored_def
  sample_ops_def sample_divergence_def sample_quarantine_def sample_memory_def

lemma sample_memory_run: "run_memory NewMemory sample_ops = Some sample_memory"
  by (simp add: memory_ops)


abbreviation run_tables :: "hash_tables \<Rightarrow> store_op list \<Rightarrow> hash_tables option" where
  "run_tables \<equiv> run_ops (run_op (Redis_Put table_exec) (Redis_States table_eval table_hgetall)
     (\<lambda>r v. the (Redis_Record table_exec table_hmget [(False, id)] r v)) (Redis_Clear table_exec))"

lemmas table_ops = table_exec_def table_hmget_def table_hgetall_def record_decision_def decodeOptional_def wrap_error_def
  Redis_Clear_def Redis_States_def Redis_Divergences_def json_time_def finished_def ignored_def sample_ops_def sample_divergence_def
  sample_quarantine_def

definition sample_tables :: hash_tables where
  "sample_tables = (\<lambda>_. [])(divergencesKey :=
     [(clearedField ''pay'' ''prod'', StoredTime 5), (sourceField ''pay'' ''prod'' Egress, StoredDivergence (sample_divergence 9))])"

lemma sample_tables_run: "run_tables (\<lambda>_. []) sample_ops = Some sample_tables"
  by (simp add: table_ops sample_tables_def fun_eq_iff)

theorem stores_agree_witness:
  "\<exists>m' ss' ds'. run_memory NewMemory sample_ops = Some m' \<and> fst (Memory_States m' 0) = Inr ss'
    \<and> Memory_Divergences m' = Inr ds' \<and> set ss' = {} \<and> set ds' = {sample_divergence 9}"
proof -
  have d: "Redis_Divergences table_hgetall sample_tables = Inr [sample_divergence 9]"
    using suffix_cleared [of "''pay''" "''prod''"] suffix_source [of Egress "''pay''" "''prod''"]
    by (simp add: Redis_Divergences_def table_hgetall_def sample_tables_def)
  have s: "fst (Redis_States table_eval table_hgetall sample_tables 0) = Inr []"
    by (simp add: Redis_States_def table_hgetall_def sample_tables_def)
  have "table_contents (\<lambda>_. []) key f = None" for key f by (simp add: table_contents_def)
  from stores_agree [OF table_server.redis_server_axioms this sample_valid sample_tables_run s d] show ?thesis by simp
qed

theorem redis_record_atomic_witness:
  "Redis_Record table_exec table_hmget [(True, \<lambda>t. t), (False, \<lambda>t. t)] (\<lambda>_. []) (sample_divergence 3) \<noteq> None"
proof -
  have "hash_inv (table_contents (\<lambda>_. []))" by (rule hash_start(1)) (simp add: table_contents_def)
  moreover have "valid_direction (v_direction (sample_divergence 3))" by (simp add: sample_divergence_def)
  ultimately show ?thesis
    using redis_record_atomic [OF table_server.redis_server_axioms, of "\<lambda>_. []" "sample_divergence 3" "[(True, \<lambda>t. t), (False, \<lambda>t. t)]"]
    by (auto simp del: Redis_Record.simps)
qed

end
