(* ===== verification/Wire_Format.thy ===== *)
theory Wire_Format
  imports State_Storage
begin

text \<open>
  \<open>internal/server/wire\<close>: conversions between the messages of the SPECTRE service and the model.

  A message is a record of the fields the converters set and get; an optional message field is an
  option. Timestamps and durations are carried as the time and duration they stand for. An enum
  is open, so each has a constructor for numbers the protocol does not name. A difference count
  is 32 bits wide on the wire.
\<close>

subsection \<open>Messages\<close>

datatype pb_change = CHANGE_UNSPECIFIED | CHANGE_MISSING | CHANGE_ADDED | CHANGE_CHANGED | CHANGE_RETYPED | CHANGE_number int

datatype pb_json_type = JSON_TYPE_UNSPECIFIED | JSON_TYPE_NULL | JSON_TYPE_BOOLEAN | JSON_TYPE_NUMBER | JSON_TYPE_STRING
  | JSON_TYPE_OBJECT | JSON_TYPE_LIST | JSON_TYPE_number int

datatype pb_kind = KIND_UNSPECIFIED | KIND_DIVERGENT | KIND_UNABLE | KIND_UNMATCHED | KIND_UNLISTED | KIND_CAPACITY
  | KIND_PAIRING | KIND_number int

datatype pb_direction = DIRECTION_UNSPECIFIED | DIRECTION_INGRESS | DIRECTION_EGRESS | DIRECTION_number int

record pb_difference =
  pd_path :: string
  pd_change :: pb_change
  pd_count :: "32 word"
  pd_reference_type :: pb_json_type
  pd_candidate_type :: pb_json_type

record pb_traffic =
  pt_direction :: pb_direction
  pt_protocol :: string
  pt_route :: string

record pb_quarantine =
  pq_direction :: pb_direction
  pq_since :: "time option"
  pq_kind :: pb_kind
  pq_differences :: "pb_difference list"
  pq_truncated :: bool
  pq_detail :: string
  pq_node :: "string option"
  pq_traffic :: "pb_traffic option"

record pb_calls =
  pc_routes :: "(string \<times> u64) list"
  pc_other :: u64

record pb_state =
  ps_service :: string
  ps_environment :: string
  ps_revision :: string
  ps_spectre_version :: string
  ps_uptime :: "duration option"
  ps_calls :: "pb_calls option"
  ps_quarantines :: "pb_quarantine list"

datatype pb_update = PBState pb_state | PBQuarantine pb_quarantine | PBCalls pb_calls | PBKeepalive | PBNothing

record pb_divergence =
  pv_service :: string
  pv_environment :: string
  pv_revision :: string
  pv_quarantine :: "pb_quarantine option"

record pb_list_request =
  pl_service :: "string option"
  pl_environment :: "string option"
  pl_revision :: "string option"
  pl_node :: "string option"

record pb_list_response =
  pl_states :: "pb_state list"
  pl_divergences :: "pb_divergence list"

text \<open>The texts of the enum values that the converters reject: a name, or a number.\<close>

fun change_number :: "pb_change \<Rightarrow> string" where
  "change_number (CHANGE_number n) = show_int n"
| "change_number _ = ''CHANGE_UNSPECIFIED''"

fun json_type_number :: "pb_json_type \<Rightarrow> string" where
  "json_type_number (JSON_TYPE_number n) = show_int n"
| "json_type_number _ = ''JSON_TYPE_UNSPECIFIED''"

fun kind_number :: "pb_kind \<Rightarrow> string" where
  "kind_number (KIND_number n) = show_int n"
| "kind_number _ = ''KIND_UNSPECIFIED''"

fun direction_number :: "pb_direction \<Rightarrow> string" where
  "direction_number (DIRECTION_number n) = show_int n"
| "direction_number _ = ''DIRECTION_UNSPECIFIED''"

subsection \<open>Enums\<close>

fun changeMessage :: "change \<Rightarrow> pb_change" where
  "changeMessage ChangeMissing = CHANGE_MISSING"
| "changeMessage ChangeAdded = CHANGE_ADDED"
| "changeMessage ChangeChanged = CHANGE_CHANGED"
| "changeMessage ChangeRetyped = CHANGE_RETYPED"
| "changeMessage (ChangeOther _) = CHANGE_UNSPECIFIED"

fun changeFromMessage :: "pb_change \<Rightarrow> change result" where
  "changeFromMessage CHANGE_MISSING = Inr ChangeMissing"
| "changeFromMessage CHANGE_ADDED = Inr ChangeAdded"
| "changeFromMessage CHANGE_CHANGED = Inr ChangeChanged"
| "changeFromMessage CHANGE_RETYPED = Inr ChangeRetyped"
| "changeFromMessage c = Inl (''unknown difference change '' @ change_number c)"

fun jsonTypeMessage :: "json_type \<Rightarrow> pb_json_type" where
  "jsonTypeMessage JSONNull = JSON_TYPE_NULL"
| "jsonTypeMessage JSONBoolean = JSON_TYPE_BOOLEAN"
| "jsonTypeMessage JSONNumber = JSON_TYPE_NUMBER"
| "jsonTypeMessage JSONString = JSON_TYPE_STRING"
| "jsonTypeMessage JSONObject = JSON_TYPE_OBJECT"
| "jsonTypeMessage JSONList = JSON_TYPE_LIST"
| "jsonTypeMessage (JSONTypeOther _) = JSON_TYPE_UNSPECIFIED"

fun jsonTypeFromMessage :: "pb_json_type \<Rightarrow> json_type result" where
  "jsonTypeFromMessage JSON_TYPE_NULL = Inr JSONNull"
| "jsonTypeFromMessage JSON_TYPE_BOOLEAN = Inr JSONBoolean"
| "jsonTypeFromMessage JSON_TYPE_NUMBER = Inr JSONNumber"
| "jsonTypeFromMessage JSON_TYPE_STRING = Inr JSONString"
| "jsonTypeFromMessage JSON_TYPE_OBJECT = Inr JSONObject"
| "jsonTypeFromMessage JSON_TYPE_LIST = Inr JSONList"
| "jsonTypeFromMessage t = Inl (''unknown JSON type '' @ json_type_number t)"

fun kindMessage :: "quarantine_kind \<Rightarrow> pb_kind" where
  "kindMessage QuarantineDivergent = KIND_DIVERGENT"
| "kindMessage QuarantineUnable = KIND_UNABLE"
| "kindMessage QuarantineUnmatched = KIND_UNMATCHED"
| "kindMessage QuarantineUnlisted = KIND_UNLISTED"
| "kindMessage QuarantineCapacity = KIND_CAPACITY"
| "kindMessage QuarantinePairing = KIND_PAIRING"
| "kindMessage (QuarantineKindOther _) = KIND_UNSPECIFIED"

fun kindFromMessage :: "pb_kind \<Rightarrow> quarantine_kind result" where
  "kindFromMessage KIND_DIVERGENT = Inr QuarantineDivergent"
| "kindFromMessage KIND_UNABLE = Inr QuarantineUnable"
| "kindFromMessage KIND_UNMATCHED = Inr QuarantineUnmatched"
| "kindFromMessage KIND_UNLISTED = Inr QuarantineUnlisted"
| "kindFromMessage KIND_CAPACITY = Inr QuarantineCapacity"
| "kindFromMessage KIND_PAIRING = Inr QuarantinePairing"
| "kindFromMessage k = Inl (''unknown quarantine kind '' @ kind_number k)"

definition directionMessage :: "direction \<Rightarrow> pb_direction" where
  "directionMessage d =
     (if d = Ingress then DIRECTION_INGRESS else if d = Egress then DIRECTION_EGRESS else DIRECTION_UNSPECIFIED)"

fun directionFromMessage :: "pb_direction \<Rightarrow> direction result" where
  "directionFromMessage DIRECTION_INGRESS = Inr Ingress"
| "directionFromMessage DIRECTION_EGRESS = Inr Egress"
| "directionFromMessage d = Inl (''unknown direction '' @ direction_number d)"

subsection \<open>Differences and quarantines\<close>

definition differenceMessage :: "difference \<Rightarrow> pb_difference" where
  "differenceMessage d =
     \<lparr>pd_path = d_path d, pd_change = changeMessage (d_change d), pd_count = of_int (max (d_count d) 0),
      pd_reference_type = (case d_retype d of Some r \<Rightarrow> jsonTypeMessage (rt_reference r) | None \<Rightarrow> JSON_TYPE_UNSPECIFIED),
      pd_candidate_type = (case d_retype d of Some r \<Rightarrow> jsonTypeMessage (rt_candidate r) | None \<Rightarrow> JSON_TYPE_UNSPECIFIED)\<rparr>"

definition differenceMessages :: "difference list \<Rightarrow> pb_difference list" where
  "differenceMessages ds = map differenceMessage ds"

definition differenceFromMessage :: "pb_difference \<Rightarrow> difference result" where
  "differenceFromMessage m =
     bind_result (changeFromMessage (pd_change m)) (\<lambda>change.
       let d = \<lparr>d_path = pd_path m, d_change = change, d_retype = None, d_count = uint (pd_count m)\<rparr> in
       if change = ChangeRetyped then
         bind_result (jsonTypeFromMessage (pd_reference_type m)) (\<lambda>reference.
           bind_result (jsonTypeFromMessage (pd_candidate_type m)) (\<lambda>candidate.
             Inr (d\<lparr>d_retype := Some \<lparr>rt_reference = reference, rt_candidate = candidate\<rparr>\<rparr>)))
       else Inr d)"

fun map_result :: "('a \<Rightarrow> 'b result) \<Rightarrow> 'a list \<Rightarrow> 'b list result" where
  "map_result f [] = Inr []"
| "map_result f (x # xs) = bind_result (f x) (\<lambda>y. bind_result (map_result f xs) (\<lambda>ys. Inr (y # ys)))"

definition differencesFromMessages :: "pb_difference list \<Rightarrow> difference list result" where
  "differencesFromMessages ms = map_result differenceFromMessage ms"

definition QuarantineMessage :: "direction \<Rightarrow> quarantine \<Rightarrow> pb_quarantine" where
  "QuarantineMessage direction q =
     (let reason = q_reason q in
      \<lparr>pq_direction = directionMessage direction, pq_since = Some (q_since q), pq_kind = kindMessage (r_kind reason),
       pq_differences = differenceMessages (r_differences reason), pq_truncated = r_truncated reason,
       pq_detail = r_detail reason, pq_node = r_node reason,
       pq_traffic = map_option (\<lambda>t. \<lparr>pt_direction = directionMessage (tr_direction t), pt_protocol = tr_protocol t,
          pt_route = tr_route t\<rparr>) (r_traffic reason)\<rparr>)"

text \<open>\<open>Zero\<close>: absent when empty, whatever the optional field said.\<close>

definition zero_string :: "string option \<Rightarrow> string option" where
  "zero_string s = (case s of Some t \<Rightarrow> if t = [] then None else Some t | None \<Rightarrow> None)"

definition trafficFromMessage :: "pb_traffic option \<Rightarrow> traffic option result" where
  "trafficFromMessage m =
     (case m of
        None \<Rightarrow> Inr None
      | Some t \<Rightarrow> bind_result (directionFromMessage (pt_direction t)) (\<lambda>direction.
          Inr (Some \<lparr>tr_direction = direction, tr_protocol = pt_protocol t, tr_route = pt_route t\<rparr>)))"

definition reasonFromMessage :: "pb_quarantine \<Rightarrow> quarantine_reason result" where
  "reasonFromMessage m =
     bind_result (kindFromMessage (pq_kind m)) (\<lambda>kind.
       bind_result (differencesFromMessages (pq_differences m)) (\<lambda>differences.
         bind_result (trafficFromMessage (pq_traffic m)) (\<lambda>traffic.
           Inr \<lparr>r_kind = kind, r_traffic = traffic, r_node = zero_string (pq_node m), r_differences = differences,
             r_truncated = pq_truncated m, r_detail = pq_detail m\<rparr>)))"

definition quarantineFromMessage :: "pb_quarantine \<Rightarrow> quarantine result" where
  "quarantineFromMessage m =
     (case pq_since m of
        None \<Rightarrow> Inl ''quarantine needs its start time''
      | Some since \<Rightarrow> bind_result (reasonFromMessage m) (\<lambda>reason. Inr \<lparr>q_reason = reason, q_since = since\<rparr>))"

definition wrap_result :: "string \<Rightarrow> 'a result \<Rightarrow> 'a result" where
  "wrap_result msg r = (case r of Inl err \<Rightarrow> Inl (wrap msg err) | Inr x \<Rightarrow> Inr x)"

definition QuarantineFromMessage :: "pb_quarantine \<Rightarrow> (direction \<times> quarantine) result" where
  "QuarantineFromMessage m =
     bind_result (wrap_result ''quarantine'' (directionFromMessage (pq_direction m))) (\<lambda>direction.
       bind_result (wrap_result ''quarantine'' (quarantineFromMessage m)) (\<lambda>quarantine. Inr (direction, quarantine)))"

subsection \<open>States, updates and lists\<close>

definition CallsMessage :: "calls \<Rightarrow> pb_calls" where
  "CallsMessage c = \<lparr>pc_routes = c_routes c, pc_other = c_other c\<rparr>"

definition CallsFromMessage :: "pb_calls option \<Rightarrow> calls result" where
  "CallsFromMessage m =
     (case m of
        None \<Rightarrow> Inr \<lparr>c_routes = [], c_other = 0\<rparr>
      | Some c \<Rightarrow>
          (if list_ex (\<lambda>(route, _). route = []) (pc_routes c) then Inl ''call counts need a route''
           else Inr \<lparr>c_routes = pc_routes c, c_other = pc_other c\<rparr>))"

definition StateMessage :: "mirror_state \<Rightarrow> pb_state" where
  "StateMessage s =
     \<lparr>ps_service = s_service s, ps_environment = s_environment s, ps_revision = s_revision s,
      ps_spectre_version = s_spectre_version s, ps_uptime = Some (s_uptime s),
      ps_calls = (if length (c_routes (s_calls s)) > 0 \<or> c_other (s_calls s) > 0 then Some (CallsMessage (s_calls s)) else None),
      ps_quarantines = List.map_filter (\<lambda>d. map_option (QuarantineMessage d) (map_of (s_quarantines s) d)) [Ingress, Egress]\<rparr>"

fun restore_quarantines :: "pb_quarantine list \<Rightarrow> (direction \<times> quarantine) list \<Rightarrow> (direction \<times> quarantine) list result" where
  "restore_quarantines [] qs = Inr qs"
| "restore_quarantines (m # ms) qs =
     bind_result (QuarantineFromMessage m) (\<lambda>(direction, restored).
       if map_of qs direction \<noteq> None then Inl (''state holds more than one '' @ direction @ '' quarantine'')
       else restore_quarantines ms (map_put direction restored qs))"

definition StateFromMessage :: "pb_state \<Rightarrow> mirror_state result" where
  "StateFromMessage m =
     (if ps_service m = [] \<or> ps_environment m = [] \<or> ps_revision m = [] then Inl ''state needs a service, environment, and revision''
      else case ps_uptime m of
        None \<Rightarrow> Inl ''state needs an uptime''
      | Some uptime \<Rightarrow>
          bind_result (CallsFromMessage (ps_calls m)) (\<lambda>calls.
            bind_result (restore_quarantines (ps_quarantines m) []) (\<lambda>quarantines.
              Inr \<lparr>s_service = ps_service m, s_environment = ps_environment m, s_revision = ps_revision m,
                s_spectre_version = ps_spectre_version m, s_uptime = uptime, s_quarantines = quarantines, s_calls = calls\<rparr>)))"

fun UpdateMessage :: "update \<Rightarrow> pb_update" where
  "UpdateMessage (UpdateState s) = PBState (StateMessage s)"
| "UpdateMessage (UpdateQuarantine d q) = PBQuarantine (QuarantineMessage d q)"
| "UpdateMessage (UpdateCalls c) = PBCalls (CallsMessage c)"

fun UpdateFromMessage :: "pb_update \<Rightarrow> update result" where
  "UpdateFromMessage (PBState m) = bind_result (StateFromMessage m) (\<lambda>s. Inr (UpdateState s))"
| "UpdateFromMessage (PBQuarantine m) = bind_result (QuarantineFromMessage m) (\<lambda>(d, q). Inr (UpdateQuarantine d q))"
| "UpdateFromMessage (PBCalls m) = bind_result (CallsFromMessage (Some m)) (\<lambda>c. Inr (UpdateCalls c))"
| "UpdateFromMessage PBKeepalive = Inl ''a keepalive holds no update''"
| "UpdateFromMessage PBNothing = Inl ''update holds nothing''"

definition DivergenceMessage :: "divergence \<Rightarrow> pb_divergence" where
  "DivergenceMessage v =
     \<lparr>pv_service = v_service v, pv_environment = v_environment v, pv_revision = v_revision v,
      pv_quarantine = Some (QuarantineMessage (v_direction v) (v_quarantine v))\<rparr>"

definition DivergenceFromMessage :: "pb_divergence \<Rightarrow> divergence result" where
  "DivergenceFromMessage m =
     (if pv_service m = [] \<or> pv_environment m = [] \<or> pv_revision m = [] then Inl ''divergence needs a service, environment, and revision''
      else case pv_quarantine m of
        None \<Rightarrow> Inl ''divergence needs a quarantine''
      | Some q \<Rightarrow>
          bind_result (QuarantineFromMessage q) (\<lambda>(direction, quarantine).
            Inr \<lparr>v_service = pv_service m, v_environment = pv_environment m, v_revision = pv_revision m,
              v_direction = direction, v_quarantine = quarantine\<rparr>))"

definition ListResponse :: "mirror_state list \<Rightarrow> divergence list \<Rightarrow> pb_list_response" where
  "ListResponse states divergences = \<lparr>pl_states = map StateMessage states, pl_divergences = map DivergenceMessage divergences\<rparr>"

definition ListFromResponse :: "pb_list_response \<Rightarrow> (mirror_state list \<times> divergence list) result" where
  "ListFromResponse m =
     bind_result (map_result StateFromMessage (pl_states m)) (\<lambda>states.
       bind_result (map_result DivergenceFromMessage (pl_divergences m)) (\<lambda>divergences. Inr (states, divergences)))"

definition FilterMessage :: "divergence_filter \<Rightarrow> pb_list_request" where
  "FilterMessage f = \<lparr>pl_service = f_service f, pl_environment = f_environment f, pl_revision = f_revision f, pl_node = f_node f\<rparr>"

definition FilterFromMessage :: "pb_list_request \<Rightarrow> divergence_filter" where
  "FilterFromMessage m =
     \<lparr>f_service = pl_service m, f_environment = pl_environment m, f_revision = pl_revision m, f_node = pl_node m\<rparr>"

subsection \<open>Round trips\<close>

text \<open>
  What the wire format carries without loss: named enum values, counts of 32 bits, retypes of
  retyped differences only, non-empty node names and routes.
\<close>

definition change_known :: "change \<Rightarrow> bool" where "change_known c \<longleftrightarrow> (\<forall>t. c \<noteq> ChangeOther t)"
definition type_known :: "json_type \<Rightarrow> bool" where "type_known c \<longleftrightarrow> (\<forall>t. c \<noteq> JSONTypeOther t)"
definition kind_known :: "quarantine_kind \<Rightarrow> bool" where "kind_known c \<longleftrightarrow> (\<forall>t. c \<noteq> QuarantineKindOther t)"

definition difference_ok :: "difference \<Rightarrow> bool" where
  "difference_ok d \<longleftrightarrow> change_known (d_change d) \<and> 0 \<le> d_count d \<and> d_count d < 2 ^ 32
     \<and> (case d_retype d of None \<Rightarrow> d_change d \<noteq> ChangeRetyped
        | Some r \<Rightarrow> d_change d = ChangeRetyped \<and> type_known (rt_reference r) \<and> type_known (rt_candidate r))"

definition reason_ok :: "quarantine_reason \<Rightarrow> bool" where
  "reason_ok r \<longleftrightarrow> kind_known (r_kind r) \<and> list_all difference_ok (r_differences r) \<and> r_node r \<noteq> Some []
     \<and> (case r_traffic r of None \<Rightarrow> True | Some t \<Rightarrow> valid_direction (tr_direction t))"

definition wire_state_ok :: "mirror_state \<Rightarrow> bool" where
  "wire_state_ok s \<longleftrightarrow> s_service s \<noteq> [] \<and> s_environment s \<noteq> [] \<and> s_revision s \<noteq> []
     \<and> ordered_map (s_quarantines s) \<and> (\<forall>(d, q) \<in> set (s_quarantines s). valid_direction d \<and> reason_ok (q_reason q))
     \<and> list_all (\<lambda>(route, _). route \<noteq> []) (c_routes (s_calls s))"

fun update_ok :: "update \<Rightarrow> bool" where
  "update_ok (UpdateState s) = wire_state_ok s"
| "update_ok (UpdateQuarantine d q) = (valid_direction d \<and> reason_ok (q_reason q))"
| "update_ok (UpdateCalls c) = list_all (\<lambda>(route, _). route \<noteq> []) (c_routes c)"

definition wire_divergence_ok :: "divergence \<Rightarrow> bool" where
  "wire_divergence_ok v \<longleftrightarrow> v_service v \<noteq> [] \<and> v_environment v \<noteq> [] \<and> v_revision v \<noteq> []
     \<and> valid_direction (v_direction v) \<and> reason_ok (q_reason (v_quarantine v))"

lemma change_roundtrip [simp]: "change_known c \<Longrightarrow> changeFromMessage (changeMessage c) = Inr c"
  by (cases c) (auto simp: change_known_def)

lemma type_roundtrip [simp]: "type_known t \<Longrightarrow> jsonTypeFromMessage (jsonTypeMessage t) = Inr t"
  by (cases t) (auto simp: type_known_def)

lemma kind_roundtrip [simp]: "kind_known k \<Longrightarrow> kindFromMessage (kindMessage k) = Inr k"
  by (cases k) (auto simp: kind_known_def)

lemma direction_roundtrip [simp]: "valid_direction d \<Longrightarrow> directionFromMessage (directionMessage d) = Inr d"
  by (auto simp: valid_direction_def directionMessage_def)

lemma count_roundtrip: "0 \<le> n \<Longrightarrow> n < 2 ^ 32 \<Longrightarrow> uint (of_int (max n 0) :: 32 word) = n"
  by (simp add: uint_word_of_int max_def)

lemma difference_roundtrip: "difference_ok d \<Longrightarrow> differenceFromMessage (differenceMessage d) = Inr d"
  using count_roundtrip [of "d_count d"]
  by (cases d) (auto simp: difference_ok_def differenceFromMessage_def differenceMessage_def Let_def split: option.splits)

lemma map_result_roundtrip: "(\<And>x. x \<in> set xs \<Longrightarrow> f (g x) = Inr x) \<Longrightarrow> map_result f (map g xs) = Inr xs"
  by (induction xs) auto

lemma quarantine_roundtrip:
  assumes "valid_direction d" "reason_ok (q_reason q)"
  shows "QuarantineFromMessage (QuarantineMessage d q) = Inr (d, q)"
proof -
  have "differencesFromMessages (differenceMessages (r_differences (q_reason q))) = Inr (r_differences (q_reason q))"
    using assms(2) unfolding differencesFromMessages_def differenceMessages_def
    by (intro map_result_roundtrip difference_roundtrip) (auto simp: reason_ok_def list_all_iff)
  moreover have "zero_string (r_node (q_reason q)) = r_node (q_reason q)"
    using assms(2) by (auto simp: reason_ok_def zero_string_def split: option.splits)
  moreover have "trafficFromMessage (map_option (\<lambda>t. \<lparr>pt_direction = directionMessage (tr_direction t), pt_protocol = tr_protocol t,
      pt_route = tr_route t\<rparr>) (r_traffic (q_reason q))) = Inr (r_traffic (q_reason q))"
    using assms(2) by (auto simp: reason_ok_def trafficFromMessage_def split: option.splits)
  ultimately have "quarantineFromMessage (QuarantineMessage d q) = Inr q"
    using assms(2) by (simp add: reason_ok_def quarantineFromMessage_def reasonFromMessage_def QuarantineMessage_def Let_def)
  with assms(1) show ?thesis by (simp add: QuarantineFromMessage_def wrap_result_def) (simp add: QuarantineMessage_def Let_def wrap_result_def)
qed

lemma calls_roundtrip:
  "list_all (\<lambda>(route, _). route \<noteq> []) (c_routes c) \<Longrightarrow> CallsFromMessage (Some (CallsMessage c)) = Inr c"
  by (cases c) (auto simp: CallsFromMessage_def CallsMessage_def list_ex_iff list_all_iff)

lemma restore_roundtrip:
  assumes "ordered_map qs" "\<forall>(d, q) \<in> set qs. valid_direction d \<and> reason_ok (q_reason q)"
  shows "restore_quarantines (List.map_filter (\<lambda>d. map_option (QuarantineMessage d) (map_of qs d)) [Ingress, Egress]) [] = Inr qs"
proof -
  have ok: "valid_direction d \<and> reason_ok (q_reason q)" if "map_of qs d = Some q" for d q
    using assms that by (auto dest: map_of_SomeD)
  let ?ms = "List.map_filter (\<lambda>d. map_option (QuarantineMessage d) (map_of qs d)) [Ingress, Egress]"
  have ms: "?ms = (case map_of qs Ingress of None \<Rightarrow> [] | Some q \<Rightarrow> [QuarantineMessage Ingress q])
      @ (case map_of qs Egress of None \<Rightarrow> [] | Some q \<Rightarrow> [QuarantineMessage Egress q])"
    by (simp add: map_filter_def split: option.split)
  let ?r = "(case map_of qs Egress of None \<Rightarrow> [] | Some q \<Rightarrow> [(Egress, q)])
      @ (case map_of qs Ingress of None \<Rightarrow> [] | Some q \<Rightarrow> [(Ingress, q)])"
  have "Egress < Ingress" by simp
  then have "restore_quarantines ?ms [] = Inr ?r"
    unfolding ms using ok [of Ingress] ok [of Egress]
    by (cases "map_of qs Ingress"; cases "map_of qs Egress") (simp_all add: quarantine_roundtrip)
  moreover have "ordered_map ?r" "map_of ?r Ingress = map_of qs Ingress" "map_of ?r Egress = map_of qs Egress"
    using \<open>Egress < Ingress\<close> by (cases "map_of qs Ingress"; cases "map_of qs Egress"; simp)+
  moreover have "\<forall>d. \<not> valid_direction d \<longrightarrow> map_of ?r d = None"
    by (cases "map_of qs Ingress"; cases "map_of qs Egress") (auto simp: valid_direction_def)
  ultimately have "\<exists>r. restore_quarantines ?ms [] = Inr r
    \<and> ordered_map r \<and> map_of r Ingress = map_of qs Ingress \<and> map_of r Egress = map_of qs Egress
    \<and> (\<forall>d. \<not> valid_direction d \<longrightarrow> map_of r d = None)"
    by blast
  then obtain r where r: "restore_quarantines (List.map_filter (\<lambda>d. map_option (QuarantineMessage d) (map_of qs d)) [Ingress, Egress]) [] = Inr r"
    "ordered_map r" "map_of r Ingress = map_of qs Ingress" "map_of r Egress = map_of qs Egress"
    "\<And>d. \<not> valid_direction d \<Longrightarrow> map_of r d = None" by blast
  have "map_of r d = map_of qs d" for d
  proof (cases "valid_direction d")
    case True
    then show ?thesis using r(3,4) unfolding valid_direction_def by blast
  next
    case False
    then have "map_of qs d = None" using ok [of d] by (cases "map_of qs d") simp_all
    with r(5) [OF False] show ?thesis by simp
  qed
  with ordered_map_ext [OF r(2) assms(1)] r(1) show ?thesis by simp
qed

lemma state_roundtrip: "wire_state_ok s \<Longrightarrow> StateFromMessage (StateMessage s) = Inr s"
proof -
  assume ok: "wire_state_ok s"
  have "CallsFromMessage (ps_calls (StateMessage s)) = Inr (s_calls s)"
  proof (cases "length (c_routes (s_calls s)) > 0 \<or> c_other (s_calls s) > 0")
    case True
    with ok calls_roundtrip show ?thesis by (simp add: StateMessage_def wire_state_ok_def)
  next
    case False
    then have "c_routes (s_calls s) = []" "c_other (s_calls s) = 0" by (auto simp: word_gt_0)
    then show ?thesis by (simp add: StateMessage_def CallsFromMessage_def)
  qed
  moreover have "restore_quarantines (ps_quarantines (StateMessage s)) [] = Inr (s_quarantines s)"
    using ok restore_roundtrip by (simp add: StateMessage_def wire_state_ok_def)
  ultimately show ?thesis using ok by (simp add: StateFromMessage_def wire_state_ok_def) (simp add: StateMessage_def)
qed

lemma divergence_roundtrip: "wire_divergence_ok v \<Longrightarrow> DivergenceFromMessage (DivergenceMessage v) = Inr v"
  by (simp add: wire_divergence_ok_def DivergenceFromMessage_def DivergenceMessage_def quarantine_roundtrip)

lemma update_roundtrip: "update_ok u \<Longrightarrow> UpdateFromMessage (UpdateMessage u) = Inr u"
  by (cases u) (simp_all add: state_roundtrip quarantine_roundtrip calls_roundtrip)

text \<open>
  C25. The wire format loses nothing of what a mirror reports: every well-formed update, and every
  list of well-formed states and divergences with its filter, is restored exactly from its
  message.
\<close>

theorem wire_roundtrip:
  assumes "update_ok u" "list_all wire_state_ok ss" "list_all wire_divergence_ok vs"
  shows "UpdateFromMessage (UpdateMessage u) = Inr u \<and> ListFromResponse (ListResponse ss vs) = Inr (ss, vs)
    \<and> FilterFromMessage (FilterMessage f) = f"
proof -
  have "map_result StateFromMessage (map StateMessage ss) = Inr ss"
    "map_result DivergenceFromMessage (map DivergenceMessage vs) = Inr vs"
    using assms(2,3) by (auto intro!: map_result_roundtrip state_roundtrip divergence_roundtrip simp: list_all_iff)
  with update_roundtrip [OF assms(1)] show ?thesis
    by (simp add: ListFromResponse_def ListResponse_def FilterFromMessage_def FilterMessage_def)
qed

definition sample_reason :: quarantine_reason where
  "sample_reason = \<lparr>r_kind = QuarantineDivergent, r_traffic = Some \<lparr>tr_direction = Ingress, tr_protocol = ''http'', tr_route = ''GET /''\<rparr>,
     r_node = Some ''api'', r_differences = [\<lparr>d_path = ''$'', d_change = ChangeRetyped,
       d_retype = Some \<lparr>rt_reference = JSONNull, rt_candidate = JSONList\<rparr>, d_count = 2\<rparr>], r_truncated = False, r_detail = []\<rparr>"

definition sample_update :: update where
  "sample_update = UpdateQuarantine Ingress \<lparr>q_reason = sample_reason, q_since = 7\<rparr>"

theorem wire_roundtrip_witness: "UpdateFromMessage (UpdateMessage sample_update) = Inr sample_update"
proof -
  have "update_ok sample_update"
    by (simp add: sample_update_def sample_reason_def reason_ok_def difference_ok_def kind_known_def change_known_def type_known_def)
  with wire_roundtrip [of sample_update "[]" "[]"] show ?thesis by simp
qed

subsection \<open>What decoding accepts\<close>

lemma directionFromMessage_valid: "directionFromMessage m = Inr d \<Longrightarrow> valid_direction d"
  by (cases m) auto

lemma QuarantineFromMessage_valid: "QuarantineFromMessage m = Inr (d, q) \<Longrightarrow> valid_direction d"
  by (cases "directionFromMessage (pq_direction m)"; cases "quarantineFromMessage m")
    (auto simp: QuarantineFromMessage_def wrap_result_def dest: directionFromMessage_valid)

lemma restore_quarantines_valid:
  "restore_quarantines ms qs = Inr r \<Longrightarrow> ordered_map qs \<Longrightarrow> \<forall>(d, q) \<in> set qs. valid_direction d \<Longrightarrow>
   ordered_map r \<and> (\<forall>(d, q) \<in> set r. valid_direction d) \<and> length r = length qs + length ms"
proof (induction ms arbitrary: qs)
  case (Cons m ms)
  then obtain d q where q: "QuarantineFromMessage m = Inr (d, q)"
    by (cases "QuarantineFromMessage m") auto
  with Cons.prems(1) have rest: "map_of qs d = None" "restore_quarantines ms (map_put d q qs) = Inr r"
    by (auto split: if_splits)
  have "\<forall>(d', q') \<in> set (map_put d q qs). valid_direction d'"
    using Cons.prems(3) QuarantineFromMessage_valid [OF q] by (auto dest!: map_put_set)
  moreover have "length (map_put d q qs) = Suc (length qs)"
    using rest(1) by (induction qs) (auto split: if_splits)
  ultimately show ?case using Cons.IH [OF rest(2)] Cons.prems(2) by simp
qed simp

lemma StateFromMessage_valid:
  assumes "StateFromMessage m = Inr s"
  shows "s_service s \<noteq> []" "s_environment s \<noteq> []" "s_revision s \<noteq> []" "ordered_map (s_quarantines s)"
    "(d, q) \<in> set (s_quarantines s) \<Longrightarrow> valid_direction d" "length (s_quarantines s) = length (ps_quarantines m)"
proof -
  obtain uptime calls qs where ok: "ps_uptime m = Some uptime" "CallsFromMessage (ps_calls m) = Inr calls"
    "restore_quarantines (ps_quarantines m) [] = Inr qs" "\<not> (ps_service m = [] \<or> ps_environment m = [] \<or> ps_revision m = [])"
    using assms
    by (cases "CallsFromMessage (ps_calls m)"; cases "restore_quarantines (ps_quarantines m) []")
      (auto simp: StateFromMessage_def split: if_splits option.splits)
  then have s: "s = \<lparr>s_service = ps_service m, s_environment = ps_environment m, s_revision = ps_revision m,
      s_spectre_version = ps_spectre_version m, s_uptime = uptime, s_quarantines = qs, s_calls = calls\<rparr>"
    using assms by (simp add: StateFromMessage_def)
  from ok(4) s show "s_service s \<noteq> []" "s_environment s \<noteq> []" "s_revision s \<noteq> []" by auto
  from restore_quarantines_valid [OF ok(3)] s show "ordered_map (s_quarantines s)"
    "(d, q) \<in> set (s_quarantines s) \<Longrightarrow> valid_direction d" "length (s_quarantines s) = length (ps_quarantines m)" by auto
qed

end
