(* ===== verification/Mirror_Service.thy ===== *)
theory Mirror_Service
  imports Wire_Format
begin

text \<open>
  The SPECTRE server and the mirrors that report to it: \<open>internal/server\<close> (\<open>service.go\<close>,
  \<open>filter.go\<close>), \<open>server/client\<close> and \<open>server/reporter\<close>.

  The service is parameterised by the operations of a store, as the code is by the interface. A
  stream is the list of what \<open>Receive\<close> returns with the server's clock at each; \<open>None\<close> means
  that the handler still waits for the next message. Durations do not wrap: a 64-bit count of
  nanoseconds lasts 292 years.
\<close>

subsection \<open>The service\<close>

datatype service_error = InvalidArgument string | Unavailable string | StreamError string

text \<open>\<open>nextState\<close>. An update of a kind that needs a started stream is an error before one.\<close>

definition not_started :: string where
  "not_started = ''an update stream must begin with the mirror's state''"

definition nextState :: "mirror_state option \<Rightarrow> pb_update \<Rightarrow> mirror_state result" where
  "nextState state message =
     (if message = PBKeepalive then (case state of None \<Rightarrow> Inl not_started | Some current \<Rightarrow> Inr current)
      else bind_result (UpdateFromMessage message) (\<lambda>update.
        case update of
          UpdateState s \<Rightarrow> Inr s
        | UpdateQuarantine d q \<Rightarrow> (case state of None \<Rightarrow> Inl not_started | Some current \<Rightarrow> Inr (Quarantined current d q))
        | UpdateCalls c \<Rightarrow> (case state of None \<Rightarrow> Inl not_started | Some current \<Rightarrow> Inr (current\<lparr>s_calls := c\<rparr>))))"

fun record_loop :: "('m \<Rightarrow> divergence \<Rightarrow> unit result \<times> 'm) \<Rightarrow> mirror_state \<Rightarrow> (direction \<times> quarantine) list \<Rightarrow> 'm \<Rightarrow> unit result \<times> 'm" where
  "record_loop rec s [] m = (Inr (), m)"
| "record_loop rec s ((d, q) # qs) m =
     (case rec m (state_divergence s d q) of
        (Inl err, m') \<Rightarrow> (Inl err, m')
      | (Inr _, m') \<Rightarrow> record_loop rec s qs m')"

definition recordQuarantines :: "('m \<Rightarrow> divergence \<Rightarrow> unit result \<times> 'm) \<Rightarrow> 'm \<Rightarrow> mirror_state \<Rightarrow> unit result \<times> 'm" where
  "recordQuarantines rec m s = record_loop rec s (s_quarantines s) m"

datatype receipt = Received pb_update time | ReceiveFailed string | EndOfStream

text \<open>One turn of the loop of \<open>Update\<close>: the state and the time it was measured, or the error.\<close>

definition is_state :: "pb_update \<Rightarrow> bool" where
  "is_state message = (case message of PBState _ \<Rightarrow> True | _ \<Rightarrow> False)"

definition is_quiet :: "pb_update \<Rightarrow> bool" where
  "is_quiet message = (case message of PBKeepalive \<Rightarrow> True | PBCalls _ \<Rightarrow> True | _ \<Rightarrow> False)"

definition update_turn :: "('m \<Rightarrow> mirror_state \<Rightarrow> time \<Rightarrow> unit result \<times> 'm) \<Rightarrow> ('m \<Rightarrow> divergence \<Rightarrow> unit result \<times> 'm)
    \<Rightarrow> mirror_state option \<Rightarrow> time \<Rightarrow> pb_update \<Rightarrow> time \<Rightarrow> 'm \<Rightarrow> (service_error + mirror_state \<times> time) \<times> 'm" where
  "update_turn put rec state measured message now m =
     (case nextState state message of
        Inl err \<Rightarrow> (Inl (InvalidArgument err), m)
      | Inr current \<Rightarrow>
          (let measured' = (if is_state message then now else measured) in
           case put m (current\<lparr>s_uptime := s_uptime current + (now - measured')\<rparr>) now of
             (Inl err, m1) \<Rightarrow> (Inl (Unavailable err), m1)
           | (Inr _, m1) \<Rightarrow>
               (if is_quiet message then (Inr (current, measured'), m1)
                else case recordQuarantines rec m1 current of
                  (Inl err, m2) \<Rightarrow> (Inl (Unavailable err), m2)
                | (Inr _, m2) \<Rightarrow> (Inr (current, measured'), m2))))"

fun Service_Update :: "('m \<Rightarrow> mirror_state \<Rightarrow> time \<Rightarrow> unit result \<times> 'm) \<Rightarrow> ('m \<Rightarrow> divergence \<Rightarrow> unit result \<times> 'm)
    \<Rightarrow> mirror_state option \<Rightarrow> time \<Rightarrow> receipt list \<Rightarrow> 'm \<Rightarrow> (service_error + unit) option \<times> 'm" where
  "Service_Update put rec state measured [] m = (None, m)"
| "Service_Update put rec state measured (EndOfStream # _) m = (Some (Inr ()), m)"
| "Service_Update put rec state measured (ReceiveFailed err # _) m = (Some (Inl (StreamError err)), m)"
| "Service_Update put rec state measured (Received message now # rest) m =
     (case update_turn put rec state measured message now m of
        (Inl err, m') \<Rightarrow> (Some (Inl err), m')
      | (Inr (current, measured'), m') \<Rightarrow> Service_Update put rec (Some current) measured' rest m')"

text \<open>\<open>slices.SortFunc\<close> by a comparison, as an insertion sort.\<close>

fun insert_by :: "('a \<Rightarrow> 'a \<Rightarrow> bool) \<Rightarrow> 'a \<Rightarrow> 'a list \<Rightarrow> 'a list" where
  "insert_by before x [] = [x]"
| "insert_by before x (y # ys) = (if before y x then y # insert_by before x ys else x # y # ys)"

definition sort_by :: "('a \<Rightarrow> 'a \<Rightarrow> bool) \<Rightarrow> 'a list \<Rightarrow> 'a list" where
  "sort_by before xs = foldr (insert_by before) xs []"

definition state_before :: "mirror_state \<Rightarrow> mirror_state \<Rightarrow> bool" where
  "state_before a b \<longleftrightarrow> (s_service a, s_environment a) < (s_service b, s_environment b)"

definition divergence_before :: "divergence \<Rightarrow> divergence \<Rightarrow> bool" where
  "divergence_before a b \<longleftrightarrow>
     (v_service a, v_environment a) < (v_service b, v_environment b)
     \<or> (v_service a, v_environment a) = (v_service b, v_environment b) \<and> v_direction b < v_direction a"

definition filterStates :: "mirror_state list \<Rightarrow> divergence_filter \<Rightarrow> mirror_state list" where
  "filterStates states f = sort_by state_before (filter (MatchesState f) states)"

definition filterDivergences :: "divergence list \<Rightarrow> divergence_filter \<Rightarrow> divergence list" where
  "filterDivergences divergences f = sort_by divergence_before (filter (Matches f) divergences)"

definition ListDivergences :: "('m \<Rightarrow> time \<Rightarrow> mirror_state list result \<times> 'm) \<Rightarrow> ('m \<Rightarrow> divergence list result) \<Rightarrow> duration
    \<Rightarrow> 'm \<Rightarrow> pb_list_request \<Rightarrow> time \<Rightarrow> (service_error + pb_list_response) \<times> 'm" where
  "ListDivergences states divs ttl m request now =
     (case states m (now - ttl) of
        (Inl err, m') \<Rightarrow> (Inl (Unavailable err), m')
      | (Inr ss, m') \<Rightarrow>
          (case divs m' of
             Inl err \<Rightarrow> (Inl (Unavailable err), m')
           | Inr vs \<Rightarrow>
               (let f = FilterFromMessage request in
                (Inr (ListResponse (filterStates ss f) (filterDivergences vs f)), m'))))"

definition ClearDivergences :: "('m \<Rightarrow> string \<Rightarrow> string \<Rightarrow> time \<Rightarrow> unit result \<times> 'm) \<Rightarrow> 'm \<Rightarrow> string \<Rightarrow> string \<Rightarrow> time
    \<Rightarrow> (service_error + unit) \<times> 'm" where
  "ClearDivergences clear m service environment now =
     (if service = [] \<or> environment = [] then
        (Inl (InvalidArgument ''clearing divergences needs a service and environment''), m)
      else case clear m service environment now of
        (Inl err, m') \<Rightarrow> (Inl (Unavailable err), m')
      | (Inr _, m') \<Rightarrow> (Inr (), m'))"

subsection \<open>The reporter\<close>

record reporter =
  rp_service :: string
  rp_environment :: string
  rp_revision :: string
  rp_version :: string
  rp_started :: time
  rp_quarantines :: "(direction \<times> quarantine) list"

definition reporter_state :: "reporter \<Rightarrow> calls \<Rightarrow> time \<Rightarrow> mirror_state" where
  "reporter_state r calls now =
     \<lparr>s_service = rp_service r, s_environment = rp_environment r, s_revision = rp_revision r, s_spectre_version = rp_version r,
      s_uptime = now - rp_started r, s_quarantines = rp_quarantines r, s_calls = calls\<rparr>"

text \<open>
  What happens to an open stream, as the select of \<open>stream\<close> sees it: the keepalive timer with
  the counts at that time, or a quarantine. The other branches end the stream.
\<close>

datatype stream_event = Tick calls | Quarantine_event direction quarantine

text \<open>One turn: the message sent, and the reporter and counts that follow.\<close>

fun stream_turn :: "reporter \<Rightarrow> calls \<Rightarrow> stream_event \<Rightarrow> pb_update \<times> reporter \<times> calls" where
  "stream_turn r sent (Tick calls) =
     (if \<not> Calls_Equal calls sent then (UpdateMessage (UpdateCalls calls), r, calls) else (PBKeepalive, r, sent))"
| "stream_turn r sent (Quarantine_event d q) =
     (UpdateMessage (UpdateQuarantine d q), r\<lparr>rp_quarantines := map_put d q (rp_quarantines r)\<rparr>, sent)"

fun stream_loop :: "reporter \<Rightarrow> calls \<Rightarrow> stream_event list \<Rightarrow> pb_update list \<times> reporter \<times> calls" where
  "stream_loop r sent [] = ([], r, sent)"
| "stream_loop r sent (e # es) =
     (case stream_turn r sent e of
        (message, r', sent') \<Rightarrow> (case stream_loop r' sent' es of (messages, r'', sent'') \<Rightarrow> (message # messages, r'', sent'')))"

text \<open>The messages of one stream, the whole state first.\<close>

definition stream :: "reporter \<Rightarrow> calls \<Rightarrow> time \<Rightarrow> stream_event list \<Rightarrow> pb_update list \<times> reporter \<times> calls" where
  "stream r calls now es =
     (case stream_loop r calls es of
        (messages, r', sent) \<Rightarrow> (UpdateMessage (UpdateState (reporter_state r calls now)) # messages, r', sent))"

subsubsection \<open>Retries\<close>

abbreviation minRetryDelay :: duration where "minRetryDelay \<equiv> 1000000000"
abbreviation maxRetryDelay :: duration where "maxRetryDelay \<equiv> 60000000000"

text \<open>\<open>rand.N\<close> of a bound returns some number below it, here \<open>random\<close>. Go divides towards zero.\<close>

definition jitter :: "duration \<Rightarrow> duration \<Rightarrow> duration" where
  "jitter d random = d div 2 + random"

text \<open>
  One turn of \<open>Run\<close> after a stream: whether it failed and how long it lasted give the delay
  before the next one, if any, and the delay kept.
\<close>

definition run_turn :: "duration \<Rightarrow> bool \<Rightarrow> duration \<Rightarrow> duration \<Rightarrow> duration option \<times> duration" where
  "run_turn delay failed lasted random =
     (let delay' = (if \<not> failed \<or> lasted > maxRetryDelay then minRetryDelay else delay) in
      if \<not> failed then (None, delay') else (Some (jitter delay' random), min (delay' * 2) maxRetryDelay))"

definition reporter_Validate :: "duration \<Rightarrow> duration \<Rightarrow> unit result" where
  "reporter_Validate keepalive maxAge =
     (if keepalive \<le> 0 \<or> maxAge \<le> 0 then Inl ''server keepalive interval and stream max age must be positive'' else Inr ())"

subsection \<open>Sorting\<close>

lemma set_insert_by [simp]: "set (insert_by before x ys) = insert x (set ys)"
  by (induction ys) auto

lemma set_sort_by [simp]: "set (sort_by before xs) = set xs"
  unfolding sort_by_def by (induction xs) auto

text \<open>A sort by an asymmetric comparison whose converse is transitive leaves nothing out of order.\<close>

lemma sorted_sort_by:
  assumes "\<And>x y. before x y \<Longrightarrow> \<not> before y x" "\<And>x y z. \<not> before y x \<Longrightarrow> \<not> before z y \<Longrightarrow> \<not> before z x"
  shows "sorted_wrt (\<lambda>x y. \<not> before y x) (sort_by before xs)"
proof -
  have insert: "sorted_wrt (\<lambda>x y. \<not> before y x) (insert_by before x ys)" if "sorted_wrt (\<lambda>x y. \<not> before y x) ys" for x ys
    using that
  proof (induction ys)
    case (Cons y ys)
    show ?case
    proof (cases "before y x")
      case True
      then have "\<not> before x y" by (rule assms(1))
      with True Cons show ?thesis by simp
    next
      case False
      have "\<not> before z x" if "z \<in> set ys" for z using assms(2) [OF False, of z] Cons.prems that by simp
      with False Cons.prems show ?thesis by simp
    qed
  qed simp
  show ?thesis unfolding sort_by_def by (induction xs) (auto intro: insert)
qed

lemma lex_rev_asym:
  fixes k1 k2 :: "'k::linorder" and l1 l2 :: "'l::linorder"
  shows "k1 < k2 \<or> k1 = k2 \<and> l2 < l1 \<Longrightarrow> \<not> (k2 < k1 \<or> k2 = k1 \<and> l1 < l2)"
  by auto

lemma lex_rev_trans:
  fixes k1 k2 k3 :: "'k::linorder" and l1 l2 l3 :: "'l::linorder"
  shows "\<not> (k2 < k1 \<or> k2 = k1 \<and> l1 < l2) \<Longrightarrow> \<not> (k3 < k2 \<or> k3 = k2 \<and> l2 < l3) \<Longrightarrow> \<not> (k3 < k1 \<or> k3 = k1 \<and> l1 < l3)"
  by auto

lemma sorted_filterStates: "sorted_wrt (\<lambda>a b. \<not> state_before b a) (filterStates ss f)"
  unfolding filterStates_def state_before_def
  by (rule sorted_sort_by) (erule less_not_sym, meson le_less_trans not_le)

lemma sorted_filterDivergences: "sorted_wrt (\<lambda>a b. \<not> divergence_before b a) (filterDivergences vs f)"
  unfolding filterDivergences_def divergence_before_def
proof (rule sorted_sort_by)
  let ?before = "\<lambda>a b. (v_service a, v_environment a) < (v_service b, v_environment b)
     \<or> (v_service a, v_environment a) = (v_service b, v_environment b) \<and> v_direction b < v_direction a"
  show "\<not> ?before y x" if "?before x y" for x y by (rule lex_rev_asym [OF that])
  show "\<not> ?before z x" if "\<not> ?before y x" "\<not> ?before z y" for x y z
    by (rule lex_rev_trans [OF that])
qed

subsection \<open>A stream as the server sees it\<close>

fun next_states :: "mirror_state option \<Rightarrow> pb_update list \<Rightarrow> mirror_state option result" where
  "next_states state [] = Inr state"
| "next_states state (message # messages) = bind_result (nextState state message) (\<lambda>s. next_states (Some s) messages)"

fun event_ok :: "stream_event \<Rightarrow> bool" where
  "event_ok (Tick c) = (calls_ok c \<and> list_all (\<lambda>(route, _). route \<noteq> []) (c_routes c))"
| "event_ok (Quarantine_event d q) = (valid_direction d \<and> reason_ok (q_reason q))"

fun ticked :: "calls \<Rightarrow> stream_event \<Rightarrow> calls" where
  "ticked c (Tick c') = c'"
| "ticked c (Quarantine_event d q) = c"

lemma Calls_Equal_eq: "calls_ok c \<Longrightarrow> calls_ok d \<Longrightarrow> Calls_Equal c d \<longleftrightarrow> c = d"
  using Calls_Equal_iff [of c d] by (cases c; cases d) auto

lemma nextState_update:
  assumes "update_ok u"
  shows "nextState state (UpdateMessage u) = (case u of
      UpdateState s \<Rightarrow> Inr s
    | UpdateQuarantine d q \<Rightarrow> (case state of None \<Rightarrow> Inl not_started | Some current \<Rightarrow> Inr (Quarantined current d q))
    | UpdateCalls c \<Rightarrow> (case state of None \<Rightarrow> Inl not_started | Some current \<Rightarrow> Inr (current\<lparr>s_calls := c\<rparr>)))"
proof -
  have "UpdateMessage u \<noteq> PBKeepalive" by (cases u) auto
  with update_roundtrip [OF assms] show ?thesis by (simp add: nextState_def)
qed

lemma stream_turn_state:
  assumes "event_ok e" "calls_ok sent" "stream_turn r sent e = (message, r', sent')"
  shows "nextState (Some (reporter_state r sent now)) message = Inr (reporter_state r' sent' now) \<and> sent' = ticked sent e \<and> calls_ok sent'"
proof (cases e)
  case (Tick c)
  show ?thesis
  proof (cases "c = sent")
    case True
    with Tick assms Calls_Equal_eq [of c sent] show ?thesis by (simp add: nextState_def)
  next
    case False
    with Tick assms Calls_Equal_eq [of c sent] have "message = UpdateMessage (UpdateCalls c)" "r' = r" "sent' = c" by auto
    moreover have "update_ok (UpdateCalls c)" using Tick assms(1) by simp
    ultimately show ?thesis using Tick assms(1) nextState_update by (simp add: reporter_state_def del: UpdateMessage.simps)
  qed
next
  case (Quarantine_event d q)
  then have "message = UpdateMessage (UpdateQuarantine d q)" "r' = r\<lparr>rp_quarantines := map_put d q (rp_quarantines r)\<rparr>" "sent' = sent"
    using assms(3) by auto
  moreover have "update_ok (UpdateQuarantine d q)" using Quarantine_event assms(1) by simp
  ultimately show ?thesis
    using Quarantine_event assms(2) nextState_update by (simp add: reporter_state_def Quarantined_def del: UpdateMessage.simps)
qed

lemma stream_loop_state:
  "list_all event_ok es \<Longrightarrow> calls_ok sent \<Longrightarrow> stream_loop r sent es = (messages, r', sent') \<Longrightarrow>
   next_states (Some (reporter_state r sent now)) messages = Inr (Some (reporter_state r' sent' now)) \<and> sent' = foldl ticked sent es"
proof (induction es arbitrary: r sent messages)
  case (Cons e es)
  have e: "event_ok e" using Cons.prems(1) by simp
  obtain message r1 sent1 where turn: "stream_turn r sent e = (message, r1, sent1)" by (metis prod_cases3)
  moreover obtain ms r2 sent2 where rest: "stream_loop r1 sent1 es = (ms, r2, sent2)" by (metis prod_cases3)
  ultimately have "messages = message # ms" "r' = r2" "sent' = sent2" using Cons.prems(3) by auto
  moreover have "nextState (Some (reporter_state r sent now)) message = Inr (reporter_state r1 sent1 now)"
    "sent1 = ticked sent e" "calls_ok sent1"
    using stream_turn_state [OF _ Cons.prems(2) turn, of now] e by blast+
  moreover from this have "next_states (Some (reporter_state r1 sent1 now)) ms = Inr (Some (reporter_state r2 sent2 now)) \<and> sent2 = foldl ticked sent1 es"
    using Cons.IH [of sent1 r1 ms] Cons.prems(1) rest calculation by simp
  ultimately show ?case by simp
qed auto

lemma stream_state:
  assumes "wire_state_ok (reporter_state r calls now)" "calls_ok calls" "list_all event_ok es" "stream r calls now es = (messages, r', sent)"
  shows "next_states None messages = Inr (Some (reporter_state r' sent now)) \<and> sent = foldl ticked calls es"
proof -
  obtain ms where ms: "stream_loop r calls es = (ms, r', sent)"
    "messages = UpdateMessage (UpdateState (reporter_state r calls now)) # ms"
    using assms(4) by (auto simp: stream_def split: prod.splits)
  have "update_ok (UpdateState (reporter_state r calls now))" using assms(1) by simp
  with stream_loop_state [OF assms(3,2) ms(1), of now] ms(2) nextState_update show ?thesis
    by (simp del: UpdateMessage.simps)
qed

subsection \<open>What a stream stores\<close>

text \<open>
  Every quarantine of a state is accounted for: a divergence of its source that began no earlier
  is stored, or the mirror was cleared since.
\<close>

definition accounted :: "store_spec \<Rightarrow> mirror_state \<Rightarrow> direction \<times> quarantine \<Rightarrow> bool" where
  "accounted a s dq \<longleftrightarrow>
     (\<exists>v. sp_divergences a (s_service s, s_environment s, fst dq) = Some v \<and> q_since (snd dq) \<le> q_since (v_quarantine v))
     \<or> (\<exists>at. sp_cleared a (s_service s, s_environment s) = Some at \<and> q_since (snd dq) \<le> at)"

lemma accounted_record:
  assumes "accounted a s dq"
  shows "accounted (spec_record a v) s dq"
proof (cases "ignored (map_option v_quarantine (sp_divergences a (source_of v)))
    (sp_cleared a (v_service v, v_environment v)) (v_quarantine v)")
  case False
  with assms show ?thesis
    by (auto simp: accounted_def spec_record_def ignored_def split: option.splits)
qed (use assms in \<open>simp add: spec_record_def\<close>)

lemma accounted_recorded: "accounted (spec_record a (state_divergence s d q)) s (d, q)"
proof (cases "ignored (map_option v_quarantine (sp_divergences a (s_service s, s_environment s, d)))
    (sp_cleared a (s_service s, s_environment s)) q")
  case True
  then show ?thesis
    by (auto simp: accounted_def spec_record_def ignored_def state_divergence_def source_of_def split: option.splits)
qed (simp add: accounted_def spec_record_def state_divergence_def source_of_def)

definition dirs_valid :: "mirror_state \<Rightarrow> bool" where
  "dirs_valid s \<longleftrightarrow> (\<forall>(d, q) \<in> set (s_quarantines s). valid_direction d)"

lemma UpdateFromMessage_state:
  "UpdateFromMessage message = Inr (UpdateState s) \<Longrightarrow> \<exists>m. message = PBState m \<and> StateFromMessage m = Inr s"
  "UpdateFromMessage message = Inr (UpdateQuarantine d q) \<Longrightarrow> \<exists>m. message = PBQuarantine m \<and> QuarantineFromMessage m = Inr (d, q)"
  "UpdateFromMessage message = Inr (UpdateCalls c) \<Longrightarrow> \<exists>m. message = PBCalls m"
  by (cases message, auto simp: split_beta split: prod.splits)+

lemma nextState_valid:
  assumes "nextState state message = Inr s" "pred_option dirs_valid state"
  shows "dirs_valid s" "is_quiet message \<Longrightarrow> \<exists>s0. state = Some s0 \<and> s_service s0 = s_service s \<and> s_environment s0 = s_environment s
    \<and> s_quarantines s0 = s_quarantines s"
proof -
  have "dirs_valid s \<and> (is_quiet message \<longrightarrow> (\<exists>s0. state = Some s0 \<and> s_service s0 = s_service s \<and> s_environment s0 = s_environment s
    \<and> s_quarantines s0 = s_quarantines s))"
  proof (cases "message = PBKeepalive")
    case True
    with assms show ?thesis by (auto simp: nextState_def split: option.splits)
  next
    case False
    then obtain u where u: "UpdateFromMessage message = Inr u"
      using assms(1) by (cases "UpdateFromMessage message") (auto simp: nextState_def)
    show ?thesis
    proof (cases u)
      case (UpdateState s')
      with u UpdateFromMessage_state(1) obtain m where "message = PBState m" "StateFromMessage m = Inr s'" by blast
      moreover have "s' = s" using assms(1) False u UpdateState by (simp add: nextState_def)
      ultimately show ?thesis using StateFromMessage_valid(5) by (auto simp: is_quiet_def dirs_valid_def)
    next
      case (UpdateQuarantine d q)
      with u UpdateFromMessage_state(2) obtain m where m: "message = PBQuarantine m" "QuarantineFromMessage m = Inr (d, q)" by blast
      obtain s0 where "state = Some s0" "s = Quarantined s0 d q"
        using assms(1) False u UpdateQuarantine by (auto simp: nextState_def split: option.splits)
      with m assms(2) QuarantineFromMessage_valid [OF m(2)] show ?thesis
        by (auto simp: is_quiet_def dirs_valid_def Quarantined_def dest!: map_put_set)
    next
      case (UpdateCalls c)
      then obtain s0 where "state = Some s0" "s = s0\<lparr>s_calls := c\<rparr>"
        using assms(1) False u by (auto simp: nextState_def split: option.splits)
      with assms(2) show ?thesis by (simp add: dirs_valid_def)
    qed
  qed
  then show "dirs_valid s" "is_quiet message \<Longrightarrow> \<exists>s0. state = Some s0 \<and> s_service s0 = s_service s \<and> s_environment s0 = s_environment s
    \<and> s_quarantines s0 = s_quarantines s" by blast+
qed

context store
begin

lemma record_loop_ok:
  assumes "inv m" "\<forall>(d, q) \<in> set qs. valid_direction d" "record_loop record_div s qs m = (Inr u, m')"
  shows "inv m' \<and> sp_states (abs m') = sp_states (abs m) \<and> (\<forall>dq \<in> set qs. accounted (abs m') s dq)
    \<and> (\<forall>dq. accounted (abs m) s dq \<longrightarrow> accounted (abs m') s dq)"
  using assms
proof (induction qs arbitrary: m)
  case (Cons dq qs)
  obtain d q where dq: "dq = (d, q)" by fastforce
  with Cons.prems(3) obtain m1 where m1: "record_div m (state_divergence s d q) = (Inr (), m1)" "record_loop record_div s qs m1 = (Inr u, m')"
    by (auto split: prod.splits sum.splits)
  have "valid_direction (v_direction (state_divergence s d q))" using Cons.prems(2) dq by (simp add: state_divergence_def)
  note R = record_ok [OF Cons.prems(1) this m1(1)]
  have keep: "sp_states (spec_record (abs m) (state_divergence s d q)) = sp_states (abs m)" by (simp add: spec_record_def)
  have IH: "inv m' \<and> sp_states (abs m') = sp_states (abs m1) \<and> (\<forall>dq \<in> set qs. accounted (abs m') s dq)
      \<and> (\<forall>dq. accounted (abs m1) s dq \<longrightarrow> accounted (abs m') s dq)"
    using Cons.IH [OF _ _ m1(2)] R Cons.prems(2) by simp
  with R keep accounted_recorded [of "abs m" s d q] accounted_record dq show ?case by auto
qed simp

lemma update_turn_ok:
  assumes "inv m" "update_turn put record_div state measured message now m = (Inr (current, measured'), m')"
    and "\<forall>(d, q) \<in> set (s_quarantines current). valid_direction d"
    and "is_quiet message \<Longrightarrow> \<exists>s. state = Some s \<and> s_service s = s_service current \<and> s_environment s = s_environment current
      \<and> s_quarantines s = s_quarantines current \<and> (\<forall>dq \<in> set (s_quarantines s). accounted (abs m) s dq)"
  shows "inv m' \<and> (\<exists>up. sp_states (abs m') (s_service current, s_environment current) = Some \<lparr>rv_state = current\<lparr>s_uptime := up\<rparr>, rv_received = now\<rparr>)
    \<and> (\<forall>dq \<in> set (s_quarantines current). accounted (abs m') current dq)"
proof -
  let ?up = "s_uptime current + (now - measured')"
  obtain m1 where m1: "put m (current\<lparr>s_uptime := ?up\<rparr>) now = (Inr (), m1)"
    and rest: "if is_quiet message then m' = m1 else \<exists>u. recordQuarantines record_div m1 current = (Inr u, m')"
    using assms(2) by (auto simp: update_turn_def Let_def split: sum.splits prod.splits if_splits)
  note P = put_ok [OF assms(1) m1]
  have stored: "sp_states (abs m1) (s_service current, s_environment current) = Some \<lparr>rv_state = current\<lparr>s_uptime := ?up\<rparr>, rv_received = now\<rparr>"
    using P by (simp add: spec_put_def)
  have keep: "accounted (abs m1) s dq = accounted (abs m) s dq" for s dq using P by (simp add: accounted_def spec_put_def)
  show ?thesis
  proof (cases "is_quiet message")
    case True
    with assms(4) obtain s where "s_service s = s_service current" "s_environment s = s_environment current"
      "s_quarantines s = s_quarantines current" "\<forall>dq \<in> set (s_quarantines s). accounted (abs m) s dq" by blast
    then have "\<forall>dq \<in> set (s_quarantines current). accounted (abs m1) current dq" using keep by (simp add: accounted_def)
    with True rest P stored show ?thesis by auto
  next
    case False
    with rest obtain u where "record_loop record_div current (s_quarantines current) m1 = (Inr u, m')"
      by (auto simp: recordQuarantines_def)
    from record_loop_ok [OF _ assms(3) this] P stored show ?thesis by auto
  qed
qed

definition reported :: "'m \<Rightarrow> mirror_state \<Rightarrow> time \<Rightarrow> bool" where
  "reported m s now \<longleftrightarrow>
     (\<exists>up. sp_states (abs m) (s_service s, s_environment s) = Some \<lparr>rv_state = s\<lparr>s_uptime := up\<rparr>, rv_received = now\<rparr>)
     \<and> (\<forall>dq \<in> set (s_quarantines s). accounted (abs m) s dq)"

lemma Service_Update_ok:
  assumes "inv m" "pred_option dirs_valid state" "pred_option (\<lambda>s. \<forall>dq \<in> set (s_quarantines s). accounted (abs m) s dq) state"
    and "Service_Update put record_div state measured (map (\<lambda>(message, now). Received message now) ms @ [EndOfStream]) m = (Some (Inr ()), m')"
  shows "inv m' \<and> (ms \<noteq> [] \<longrightarrow> (\<exists>s. next_states state (map fst ms) = Inr (Some s) \<and> reported m' s (snd (last ms))))"
  using assms
proof (induction ms arbitrary: state measured m)
  case (Cons x ms)
  obtain message now where x: "x = (message, now)" by fastforce
  from Cons.prems(4) x obtain current measured' m1 where
    turn: "update_turn put record_div state measured message now m = (Inr (current, measured'), m1)" and
    rest: "Service_Update put record_div (Some current) measured' (map (\<lambda>(message, now). Received message now) ms @ [EndOfStream]) m1 = (Some (Inr ()), m')"
    by (auto split: prod.splits sum.splits)
  have step: "nextState state message = Inr current"
    using turn by (auto simp: update_turn_def Let_def split: sum.splits prod.splits if_splits)
  note V = nextState_valid [OF step Cons.prems(2)]
  have T: "inv m1" "reported m1 current now"
    using update_turn_ok [OF Cons.prems(1) turn] V Cons.prems(3) unfolding reported_def dirs_valid_def by fastforce+
  have R: "inv m' \<and> (ms \<noteq> [] \<longrightarrow> (\<exists>s. next_states (Some current) (map fst ms) = Inr (Some s) \<and> reported m' s (snd (last ms))))"
    by (rule Cons.IH [OF T(1) _ _ rest]) (use V(1) T(2) in \<open>simp_all add: reported_def\<close>)
  show ?case
  proof (cases "ms = []")
    case True
    with rest have "m' = m1" by simp
    with T True step x show ?thesis by simp
  next
    case False
    with R step x show ?thesis by simp
  qed
qed auto

end

subsection \<open>From the mirror to the list\<close>



lemma ingress_first:
  "v_service a = v_service b \<Longrightarrow> v_environment a = v_environment b \<Longrightarrow> v_direction a = Ingress \<Longrightarrow> v_direction b = Egress \<Longrightarrow>
   divergence_before a b"
  by (simp add: divergence_before_def)

text \<open>The memory store never fails, so the service accepts every stream that it can decode.\<close>

lemma memory_record_loop: "\<exists>m'. record_loop Memory_Record s qs m = (Inr (), m')"
proof (induction qs arbitrary: m)
  case (Cons dq qs)
  have "\<exists>m1. Memory_Record m v = (Inr (), m1)" for v by (simp add: Memory_Record_def Let_def)
  then obtain m1 where "Memory_Record m (state_divergence s (fst dq) (snd dq)) = (Inr (), m1)" by blast
  with Cons.IH show ?case by (cases dq) simp
qed simp

lemma memory_turn:
  assumes "nextState state message = Inr s"
  shows "\<exists>measured' m'. update_turn Memory_Put Memory_Record state measured message now m = (Inr (s, measured'), m')"
proof -
  obtain m1 where m1: "Memory_Put m (s\<lparr>s_uptime := s_uptime s + (now - (if is_state message then now else measured))\<rparr>) now = (Inr (), m1)"
    by (simp add: Memory_Put_def)
  obtain m2 where "recordQuarantines Memory_Record m1 s = (Inr (), m2)"
    using memory_record_loop [of s "s_quarantines s" m1] unfolding recordQuarantines_def by blast
  with m1 assms show ?thesis by (cases "is_quiet message") (auto simp: update_turn_def Let_def)
qed

lemma memory_accepts:
  "next_states state (map fst ms) = Inr final \<Longrightarrow>
   \<exists>m'. Service_Update Memory_Put Memory_Record state measured (map (\<lambda>(message, now). Received message now) ms @ [EndOfStream]) m = (Some (Inr ()), m')"
proof (induction ms arbitrary: state measured m)
  case (Cons x ms)
  obtain message now where x: "x = (message, now)" by fastforce
  with Cons.prems obtain s where s: "nextState state message = Inr s" "next_states (Some s) (map fst ms) = Inr final"
    by (cases "nextState state message") auto
  from memory_turn [OF s(1)] obtain measured' m1 where
    "update_turn Memory_Put Memory_Record state measured message now m = (Inr (s, measured'), m1)" by blast
  with Cons.IH [OF s(2)] x show ?case by simp
qed simp

subsection \<open>Retries back off within bounds\<close>

lemma run_turn_bounds:
  assumes "minRetryDelay \<le> delay" "delay \<le> maxRetryDelay" "run_turn delay failed lasted random = (wait, delay')"
    and "0 \<le> random" "random \<le> (if \<not> failed \<or> lasted > maxRetryDelay then minRetryDelay else delay) div 2"
  shows "minRetryDelay \<le> delay' \<and> delay' \<le> maxRetryDelay
    \<and> (case wait of None \<Rightarrow> \<not> failed | Some w \<Rightarrow> failed \<and> minRetryDelay div 2 \<le> w \<and> w \<le> maxRetryDelay)"
  using assms by (auto simp: run_turn_def jitter_def Let_def min_def split: if_splits)

subsection \<open>A concrete report\<close>

definition sample_reporter :: reporter where
  "sample_reporter = \<lparr>rp_service = ''pay'', rp_environment = ''prod'', rp_revision = ''abc'', rp_version = ''1'', rp_started = 0, rp_quarantines = []\<rparr>"

definition no_calls :: calls where "no_calls = \<lparr>c_routes = [], c_other = 0\<rparr>"

definition sample_events :: "stream_event list" where
  "sample_events = [Quarantine_event Egress (sample_quarantine 3), Tick no_calls]"

definition sample_messages :: "pb_update list" where
  "sample_messages = [UpdateMessage (UpdateState (reporter_state sample_reporter no_calls 2)),
     UpdateMessage (UpdateQuarantine Egress (sample_quarantine 3)), PBKeepalive]"

definition sample_end :: reporter where
  "sample_end = sample_reporter\<lparr>rp_quarantines := [(Egress, sample_quarantine 3)]\<rparr>"

lemma sample_stream: "stream sample_reporter no_calls 2 sample_events = (sample_messages, sample_end, no_calls)"
  by (simp add: stream_def sample_events_def sample_messages_def sample_reporter_def sample_end_def no_calls_def Calls_Equal_def)

lemma sample_wire: "wire_state_ok (reporter_state sample_reporter no_calls 2)" "calls_ok no_calls" "list_all event_ok sample_events"
  by (simp_all add: wire_state_ok_def reporter_state_def sample_reporter_def no_calls_def calls_ok_def sample_events_def
      sample_quarantine_def reason_ok_def plain_reason_def kind_known_def)

lemma sample_update:
  "\<exists>m'. Service_Update Memory_Put Memory_Record None 0
     (map (\<lambda>(message, now). Received message now) (zip sample_messages [10, 11, 12]) @ [EndOfStream]) NewMemory = (Some (Inr ()), m')"
proof (rule memory_accepts)
  have "map fst (zip sample_messages [10, 11, 12 :: time]) = sample_messages" by (simp add: sample_messages_def)
  with stream_state [OF sample_wire sample_stream]
  show "next_states None (map fst (zip sample_messages [10, 11, 12 :: time])) = Inr (Some (reporter_state sample_end no_calls 2))" by simp
qed



end
