(* ===== verification/Body_Stream.thy ===== *)
theory Body_Stream
  imports Script_Rules Future_Value "HOL-Library.Sublist"
begin

text \<open>
  \<open>internal/proxy/budget.go\<close>, \<open>internal/httpserver/body.go\<close> and \<open>recording.go\<close>: how bodies are
  copied while the proxy forwards them, and the memory they may hold.

  \<^item> The semaphore below a budget is \<open>golang.org/x/sync\<close>: a parameter \<open>W\<close>, with \<open>weighted_ok\<close> for
    what its documentation promises.
  \<^item> An operation that may panic or never return gives \<open>'a returns\<close>: \<open>None\<close> when it does not
    return (it blocks, or its loop runs forever) and \<open>Inl\<close> when it panics. A method that holds the
    body's mutex throughout is one step.
  \<^item> \<open>sb_overflows\<close> and \<open>sb_aborts\<close> record the calls of the callbacks \<open>overflow\<close> and \<open>abort\<close>. Chunks
    are a list from \<open>head\<close> to \<open>tail\<close>.
  \<^item> A source read is its result, the bytes and the error, as an argument. An error that
    \<open>errors.Is\<close> finds to be \<open>io.EOF\<close> is \<open>EOF\<close>.

  The locale \<open>budget_client\<close> states what a client of a shared budget keeps, with the lemma that any
  number of them hold exactly what is reserved; \<open>body_sink\<close> is the interface that \<open>teeBody\<close> writes to.
\<close>

type_synonym bytes = string
type_synonym 'a returns = "'a result option"

definition bind_returns :: "'a returns \<Rightarrow> ('a \<Rightarrow> 'b returns) \<Rightarrow> 'b returns" where
  "bind_returns r f = (case r of None \<Rightarrow> None | Some (Inl e) \<Rightarrow> Some (Inl e) | Some (Inr x) \<Rightarrow> f x)"

lemma bind_returns_simps [simp]:
  "bind_returns None f = None"
  "bind_returns (Some (Inl e)) f = Some (Inl e)"
  "bind_returns (Some (Inr x)) f = f x"
  by (simp_all add: bind_returns_def)

lemma bind_returns_Inr:
  "bind_returns r f = Some (Inr y) \<longleftrightarrow> (\<exists>x. r = Some (Inr x) \<and> f x = Some (Inr y))"
  by (auto simp: bind_returns_def split: option.splits sum.splits)

lemma bind_returns_assoc: "bind_returns (bind_returns r f) g = bind_returns r (\<lambda>x. bind_returns (f x) g)"
  by (simp add: bind_returns_def split: option.splits sum.splits)

datatype io_error = EOF | IoError string

fun wrap_io :: "string \<Rightarrow> io_error \<Rightarrow> io_error" where
  "wrap_io msg EOF = EOF"
| "wrap_io msg (IoError e) = IoError (wrap msg e)"

subsection \<open>The budget\<close>

record 'w weighted =
  wt_new :: "int \<Rightarrow> 'w"
  wt_try :: "'w \<Rightarrow> int \<Rightarrow> bool \<times> 'w"
  wt_release :: "'w \<Rightarrow> int \<Rightarrow> 'w result"

text \<open>
  What the semaphore promises of non-negative weights, with \<open>whole\<close> its capacity and \<open>taken\<close> what
  is acquired: an acquisition succeeds when it fits and otherwise changes nothing, and what was
  acquired can be released.
\<close>

definition weighted_ok :: "'w weighted \<Rightarrow> ('w \<Rightarrow> int) \<Rightarrow> ('w \<Rightarrow> int) \<Rightarrow> bool" where
  "weighted_ok W whole taken \<longleftrightarrow>
     (\<forall>n. whole (wt_new W n) = n \<and> taken (wt_new W n) = 0)
     \<and> (\<forall>w n. n \<ge> 0 \<longrightarrow> taken w + n \<le> whole w \<longrightarrow>
          fst (wt_try W w n) \<and> whole (snd (wt_try W w n)) = whole w \<and> taken (snd (wt_try W w n)) = taken w + n)
     \<and> (\<forall>w n. n \<ge> 0 \<longrightarrow> \<not> taken w + n \<le> whole w \<longrightarrow> wt_try W w n = (False, w))
     \<and> (\<forall>w n. n \<ge> 0 \<longrightarrow> n \<le> taken w \<longrightarrow>
          (\<exists>w'. wt_release W w n = Inr w' \<and> whole w' = whole w \<and> taken w' = taken w - n))"

record 'w budget =
  bg_limit :: int
  bg_available :: 'w

definition NewBudget :: "'w weighted \<Rightarrow> int \<Rightarrow> 'w budget" where
  "NewBudget W limit = \<lparr>bg_limit = limit, bg_available = wt_new W limit\<rparr>"

definition Reserve :: "'w weighted \<Rightarrow> 'w budget \<Rightarrow> int \<Rightarrow> bool \<times> 'w budget" where
  "Reserve W b n = (case wt_try W (bg_available b) n of (ok, w) \<Rightarrow> (ok, b\<lparr>bg_available := w\<rparr>))"

definition Budget_Release :: "'w weighted \<Rightarrow> 'w budget \<Rightarrow> int \<Rightarrow> 'w budget result" where
  "Budget_Release W b n =
     (case wt_release W (bg_available b) n of Inl e \<Rightarrow> Inl e | Inr w \<Rightarrow> Inr (b\<lparr>bg_available := w\<rparr>))"

subsection \<open>The mirrored request body\<close>

definition bufferBlockSize :: int where
  "bufferBlockSize = 4 * 1024"

record chunk =
  ch_data :: bytes
  ch_cap :: nat

record stream_body =
  sb_chunks :: "chunk list"
  sb_offset :: nat
  sb_allocated :: int
  sb_writerError :: "io_error option"
  sb_writerClosed :: bool
  sb_readerClosed :: bool
  sb_overflows :: "string list"
  sb_aborts :: nat

definition newStreamBody :: stream_body where
  "newStreamBody = \<lparr>sb_chunks = [], sb_offset = 0, sb_allocated = 0, sb_writerError = None,
     sb_writerClosed = False, sb_readerClosed = False, sb_overflows = [], sb_aborts = 0\<rparr>"

definition clearBuffer :: "'w weighted \<Rightarrow> stream_body \<Rightarrow> 'w budget \<Rightarrow> (stream_body \<times> 'w budget) result" where
  "clearBuffer W b bud =
     (case Budget_Release W bud (sb_allocated b) of
        Inl e \<Rightarrow> Inl e
      | Inr bud' \<Rightarrow> Inr (b\<lparr>sb_chunks := [], sb_offset := 0, sb_allocated := 0\<rparr>, bud'))"

definition stream_Read :: "'w weighted \<Rightarrow> nat \<Rightarrow> stream_body \<Rightarrow> 'w budget
    \<Rightarrow> ((bytes \<times> io_error option) \<times> stream_body \<times> 'w budget) returns" where
  "stream_Read W n b bud =
     (if n = 0 then Some (Inr (([], None), b, bud))
      else case sb_chunks b of
        c # cs \<Rightarrow>
          (let data = take n (drop (sb_offset b) (ch_data c));
               offset = sb_offset b + length data
           in if offset = length (ch_data c) then
                (case Budget_Release W bud (int (ch_cap c)) of
                   Inl e \<Rightarrow> Some (Inl e)
                 | Inr bud' \<Rightarrow> Some (Inr ((data, None),
                     b\<lparr>sb_chunks := cs, sb_offset := 0, sb_allocated := sb_allocated b - int (ch_cap c)\<rparr>, bud')))
              else Some (Inr ((data, None), b\<lparr>sb_offset := offset\<rparr>, bud)))
      | [] \<Rightarrow>
          (if sb_readerClosed b
           then Some (Inr (([], Some (IoError (wrap ''read mirrored request body'' ''io: read/write on closed pipe''))), b, bud))
           else if sb_writerClosed b
           then Some (Inr (([], map_option (wrap_io ''read mirrored request body'') (sb_writerError b)), b, bud))
           else None))"

text \<open>One turn of the loop of \<open>append\<close>: room in the tail, or \<open>None\<close> when the budget is exhausted.\<close>

definition append_room :: "'w weighted \<Rightarrow> stream_body \<Rightarrow> 'w budget \<Rightarrow> (stream_body option \<times> 'w budget) result" where
  "append_room W b bud =
     (if sb_chunks b = [] \<or> length (ch_data (last (sb_chunks b))) = ch_cap (last (sb_chunks b)) then
        (let capacity = min bufferBlockSize (bg_limit bud) in
         case Reserve W bud capacity of
           (False, bud') \<Rightarrow> Inr (None, bud')
         | (True, bud') \<Rightarrow>
             (if capacity < 0 then Inl ''runtime error: makeslice: cap out of range''
              else Inr (Some (b\<lparr>sb_chunks := sb_chunks b @ [\<lparr>ch_data = [], ch_cap = nat capacity\<rparr>],
                     sb_allocated := sb_allocated b + capacity\<rparr>), bud')))
      else Inr (Some b, bud))"

definition append_fill :: "bytes \<Rightarrow> stream_body \<Rightarrow> bytes \<times> stream_body" where
  "append_fill data b =
     (let c = last (sb_chunks b);
          written = min (ch_cap c - length (ch_data c)) (length data)
      in (drop written data,
          b\<lparr>sb_chunks := butlast (sb_chunks b) @ [c\<lparr>ch_data := ch_data c @ take written data\<rparr>]\<rparr>))"

definition append_overflow :: "'w weighted \<Rightarrow> stream_body \<Rightarrow> 'w budget \<Rightarrow> (stream_body \<times> 'w budget) result" where
  "append_overflow W b bud =
     (let message = ''candidate request buffer exceeded '' @ show_int (bg_limit bud) @ '' bytes'' in
      case clearBuffer W b bud of
        Inl e \<Rightarrow> Inl e
      | Inr (b', bud') \<Rightarrow>
          Inr (b'\<lparr>sb_writerClosed := True, sb_writerError := Some (IoError message),
                 sb_overflows := sb_overflows b' @ [message]\<rparr>, bud'))"

partial_function (option) append_loop :: "'w weighted \<Rightarrow> bytes \<Rightarrow> stream_body \<Rightarrow> 'w budget \<Rightarrow> (stream_body \<times> 'w budget) returns" where
  [code]: "append_loop W data b bud =
     (if data = [] then Some (Inr (b, bud))
      else case append_room W b bud of
        Inl e \<Rightarrow> Some (Inl e)
      | Inr (None, bud') \<Rightarrow> Some (append_overflow W b bud')
      | Inr (Some b', bud') \<Rightarrow> append_loop W (fst (append_fill data b')) (snd (append_fill data b')) bud')"

definition stream_append :: "'w weighted \<Rightarrow> bytes \<Rightarrow> stream_body \<Rightarrow> 'w budget \<Rightarrow> (stream_body \<times> 'w budget) returns" where
  "stream_append W data b bud =
     (if sb_readerClosed b \<or> sb_writerClosed b then Some (Inr (b, bud)) else append_loop W data b bud)"

definition closeReader :: "'w weighted \<Rightarrow> stream_body \<Rightarrow> 'w budget \<Rightarrow> (stream_body \<times> 'w budget) result" where
  "closeReader W b bud = clearBuffer W (b\<lparr>sb_readerClosed := True\<rparr>) bud"

definition stream_closeWriter :: "io_error \<Rightarrow> stream_body \<Rightarrow> stream_body" where
  "stream_closeWriter err b =
     (if sb_writerClosed b then b
      else b\<lparr>sb_aborts := (if err = EOF then sb_aborts b else sb_aborts b + 1),
             sb_writerClosed := True, sb_writerError := Some err\<rparr>)"

subsection \<open>Clients of a shared budget\<close>

text \<open>The state of a budget as its clients see it: its capacity is its limit, and it is never exceeded.\<close>

definition budget_ok :: "('w \<Rightarrow> int) \<Rightarrow> ('w \<Rightarrow> int) \<Rightarrow> 'w budget \<Rightarrow> bool" where
  "budget_ok whole taken bud \<longleftrightarrow>
     whole (bg_available bud) = bg_limit bud \<and> 0 \<le> taken (bg_available bud) \<and> taken (bg_available bud) \<le> bg_limit bud"

abbreviation reserved :: "('w \<Rightarrow> int) \<Rightarrow> 'w budget \<Rightarrow> int" where
  "reserved taken bud \<equiv> taken (bg_available bud)"

text \<open>How one operation of a client moves the budget: by what the client holds more or less.\<close>

definition budget_moves :: "('w \<Rightarrow> int) \<Rightarrow> ('w \<Rightarrow> int) \<Rightarrow> int \<Rightarrow> 'w budget \<Rightarrow> 'w budget \<Rightarrow> bool" where
  "budget_moves whole taken d bud bud' \<longleftrightarrow>
     budget_ok whole taken bud' \<and> bg_limit bud' = bg_limit bud
     \<and> reserved taken bud' = reserved taken bud + d"

lemma budget_moves_refl [simp]: "budget_moves whole taken 0 bud bud \<longleftrightarrow> budget_ok whole taken bud"
  by (auto simp: budget_moves_def)

lemma budget_moves_trans:
  "budget_moves whole taken d bud bud' \<Longrightarrow> budget_moves whole taken e bud' bud'' \<Longrightarrow>
   budget_moves whole taken (d + e) bud bud''"
  by (simp add: budget_moves_def)

lemma budget_ok_New: "weighted_ok W whole taken \<Longrightarrow> 0 \<le> n \<Longrightarrow> budget_ok whole taken (NewBudget W n)"
  by (simp add: weighted_ok_def budget_ok_def NewBudget_def)

lemma reserved_New: "weighted_ok W whole taken \<Longrightarrow> reserved taken (NewBudget W n) = 0"
  by (simp add: weighted_ok_def NewBudget_def)

lemma Reserve_fits:
  assumes "weighted_ok W whole taken" "budget_ok whole taken bud" "0 \<le> n" "reserved taken bud + n \<le> bg_limit bud"
  obtains bud' where "Reserve W bud n = (True, bud')" "budget_moves whole taken n bud bud'"
proof -
  from assms have "fst (wt_try W (bg_available bud) n)"
    "whole (snd (wt_try W (bg_available bud) n)) = whole (bg_available bud)"
    "taken (snd (wt_try W (bg_available bud) n)) = taken (bg_available bud) + n"
    by (auto simp: weighted_ok_def budget_ok_def)
  with assms that show thesis
    by (cases "wt_try W (bg_available bud) n") (auto simp: Reserve_def budget_moves_def budget_ok_def)
qed

lemma Reserve_full:
  assumes "weighted_ok W whole taken" "budget_ok whole taken bud" "0 \<le> n" "\<not> reserved taken bud + n \<le> bg_limit bud"
  shows "Reserve W bud n = (False, bud)"
  using assms by (auto simp: weighted_ok_def budget_ok_def Reserve_def)

lemma Budget_Release_held:
  assumes "weighted_ok W whole taken" "budget_ok whole taken bud" "0 \<le> n" "n \<le> reserved taken bud"
  obtains bud' where "Budget_Release W bud n = Inr bud'" "budget_moves whole taken (- n) bud bud'"
proof -
  from assms obtain w where "wt_release W (bg_available bud) n = Inr w"
    "whole w = whole (bg_available bud)" "taken w = taken (bg_available bud) - n"
    unfolding weighted_ok_def by blast
  with assms that show thesis by (auto simp: Budget_Release_def budget_moves_def budget_ok_def)
qed

text \<open>Any number of clients, each opened with nothing held, that take turns on one budget.\<close>

inductive shared_step :: "('c \<Rightarrow> bool) \<Rightarrow> ('c \<Rightarrow> 'w budget \<Rightarrow> 'c \<Rightarrow> 'w budget \<Rightarrow> bool)
    \<Rightarrow> 'c list \<times> 'w budget \<Rightarrow> 'c list \<times> 'w budget \<Rightarrow> bool" for fresh step where
  shared_open: "fresh c \<Longrightarrow> shared_step fresh step (cs, bud) (cs @ [c], bud)"
| shared_turn: "i < length cs \<Longrightarrow> step (cs ! i) bud c bud' \<Longrightarrow> shared_step fresh step (cs, bud) (cs[i := c], bud')"

definition shared_inv :: "('w \<Rightarrow> int) \<Rightarrow> ('w \<Rightarrow> int) \<Rightarrow> int \<Rightarrow> ('c \<Rightarrow> bool) \<Rightarrow> ('c \<Rightarrow> int) \<Rightarrow> 'c list \<times> 'w budget \<Rightarrow> bool" where
  "shared_inv whole taken n ok holds s \<longleftrightarrow>
     (\<forall>c \<in> set (fst s). ok c) \<and> budget_ok whole taken (snd s) \<and> bg_limit (snd s) = n \<and> 0 < n
     \<and> reserved taken (snd s) = sum_list (map holds (fst s))"

lemma sum_list_member:
  assumes "\<forall>c \<in> set cs. (0::int) \<le> f c" "c \<in> set cs"
  shows "f c \<le> sum_list (map f cs)"
  using member_le_sum_list [of "f c" "map f cs"] assms by auto

lemma sum_list_set_nth:
  "i < length cs \<Longrightarrow> sum_list (map f (cs[i := c])) = sum_list (map f cs) + (f c - f (cs ! i) :: int)"
  by (induction cs arbitrary: i) (auto simp: nth_Cons split: nat.splits)

locale budget_client =
  fixes W :: "'w weighted" and whole taken :: "'w \<Rightarrow> int"
    and ok fresh :: "'c \<Rightarrow> bool" and holds :: "'c \<Rightarrow> int"
    and step :: "'c \<Rightarrow> 'w budget \<Rightarrow> 'c \<Rightarrow> 'w budget \<Rightarrow> bool"
  assumes holds_nonneg: "ok c \<Longrightarrow> 0 \<le> holds c"
    and fresh_ok: "fresh c \<Longrightarrow> ok c \<and> holds c = 0"
    and step_moves: "weighted_ok W whole taken \<Longrightarrow> step c bud c' bud' \<Longrightarrow> ok c \<Longrightarrow> budget_ok whole taken bud \<Longrightarrow> 0 < bg_limit bud \<Longrightarrow>
       holds c \<le> reserved taken bud \<Longrightarrow>
       ok c' \<and> budget_moves whole taken (holds c' - holds c) bud bud'"
begin

lemma holds_reserved:
  assumes "shared_inv whole taken n ok holds (cs, bud)" "i < length cs"
  shows "ok (cs ! i)" "holds (cs ! i) \<le> reserved taken bud"
  using assms sum_list_member [of cs holds "cs ! i"] holds_nonneg by (auto simp: shared_inv_def)

lemma shared_inv_step:
  assumes "weighted_ok W whole taken" "shared_step fresh step s t" "shared_inv whole taken n ok holds s"
  shows "shared_inv whole taken n ok holds t"
  using assms(2,3)
proof (induction rule: shared_step.induct)
  case (shared_open c cs bud)
  then show ?case using fresh_ok by (auto simp: shared_inv_def)
next
  case (shared_turn i cs bud c bud')
  note held = holds_reserved [OF shared_turn(3,1)]
  have "ok c \<and> budget_moves whole taken (holds c - holds (cs ! i)) bud bud'"
    using step_moves [OF assms(1) shared_turn(2)] held shared_turn(3) by (simp add: shared_inv_def)
  then show ?case using shared_turn
    by (auto simp: shared_inv_def budget_moves_def sum_list_set_nth dest!: set_update_subset_insert [THEN subsetD])
qed

lemma shared_inv_New:
  "weighted_ok W whole taken \<Longrightarrow> 0 < n \<Longrightarrow> shared_inv whole taken n ok holds ([], NewBudget W n)"
  by (simp add: shared_inv_def budget_ok_New reserved_New) (simp add: NewBudget_def)

lemma shared_reach:
  assumes "weighted_ok W whole taken" "reach ([], NewBudget W n) (shared_step fresh step) s" "0 < n"
  shows "shared_inv whole taken n ok holds s"
  using assms(2)
  by (induction rule: reach.induct) (auto intro: shared_inv_New [OF assms(1,3)] shared_inv_step [OF assms(1)])

end

subsection \<open>The stream is a queue within its budget\<close>

definition chunks_ok :: "stream_body \<Rightarrow> bool" where
  "chunks_ok b \<longleftrightarrow>
     (\<forall>c \<in> set (sb_chunks b). ch_data c \<noteq> [] \<and> length (ch_data c) \<le> ch_cap c)
     \<and> (case sb_chunks b of [] \<Rightarrow> sb_offset b = 0 | c # cs \<Rightarrow> sb_offset b < length (ch_data c))
     \<and> sb_allocated b = (\<Sum>c \<leftarrow> sb_chunks b. int (ch_cap c))"

text \<open>The bytes that wait to be read.\<close>

definition contents :: "stream_body \<Rightarrow> bytes" where
  "contents b = drop (sb_offset b) (concat (map ch_data (sb_chunks b)))"

lemma chunks_allocated: "chunks_ok b \<Longrightarrow> 0 \<le> sb_allocated b"
  by (auto simp: chunks_ok_def intro!: sum_list_nonneg)

lemma contents_Nil: "sb_chunks b = [] \<Longrightarrow> contents b = []"
  by (simp add: contents_def)

lemma contents_Nil_iff: "chunks_ok b \<Longrightarrow> contents b = [] \<longleftrightarrow> sb_chunks b = []"
  by (cases "sb_chunks b") (auto simp: chunks_ok_def contents_def)

lemma clearBuffer_ok:
  assumes "weighted_ok W whole taken" "budget_ok whole taken bud" "0 \<le> sb_allocated b" "sb_allocated b \<le> reserved taken bud"
  obtains bud' where "clearBuffer W b bud = Inr (b\<lparr>sb_chunks := [], sb_offset := 0, sb_allocated := 0\<rparr>, bud')"
    "budget_moves whole taken (- sb_allocated b) bud bud'"
proof -
  obtain bud' where "Budget_Release W bud (sb_allocated b) = Inr bud'" "budget_moves whole taken (- sb_allocated b) bud bud'"
    using Budget_Release_held [OF assms] .
  with that show thesis by (simp add: clearBuffer_def)
qed

lemma append_fill_ok:
  assumes "sb_chunks b = cs @ [c]" "length (ch_data c) < ch_cap c" "data \<noteq> []"
    "\<forall>c \<in> set cs. ch_data c \<noteq> [] \<and> length (ch_data c) \<le> ch_cap c"
    "cs = [] \<longrightarrow> sb_offset b \<le> length (ch_data c)"
    "cs \<noteq> [] \<longrightarrow> sb_offset b < length (ch_data (hd cs))"
    "sb_allocated b = (\<Sum>c \<leftarrow> sb_chunks b. int (ch_cap c))"
  shows "chunks_ok (snd (append_fill data b)) \<and> contents b @ data = contents (snd (append_fill data b)) @ fst (append_fill data b)
    \<and> length (fst (append_fill data b)) < length data"
proof -
  let ?w = "min (ch_cap c - length (ch_data c)) (length data)"
  have w: "0 < ?w" "?w \<le> length data" using assms(2,3) by auto
  have fill: "append_fill data b = (drop ?w data, b\<lparr>sb_chunks := cs @ [c\<lparr>ch_data := ch_data c @ take ?w data\<rparr>]\<rparr>)"
    using assms(1) by (simp add: append_fill_def Let_def)
  have taken_ne: "take ?w data \<noteq> []" using w assms(3) by simp
  have split: "concat (map ch_data cs) @ ch_data c @ data = concat (map ch_data cs) @ ch_data c @ take ?w data @ drop ?w data"
    by simp
  have off: "sb_offset b \<le> length (concat (map ch_data cs) @ ch_data c)"
    using assms(5,6) by (cases cs) auto
  have "chunks_ok (snd (append_fill data b))"
    unfolding fill chunks_ok_def using assms taken_ne w
    by (cases cs) (auto simp: min_def length_append)
  moreover have "contents b @ data = contents (snd (append_fill data b)) @ fst (append_fill data b)"
    unfolding fill contents_def using off assms(1) by (simp add: drop_append)
  moreover have "length (fst (append_fill data b)) < length data" using w fill by simp
  ultimately show ?thesis by blast
qed

definition flags :: "stream_body \<Rightarrow> io_error option \<times> bool \<times> bool \<times> string list \<times> nat" where
  "flags b = (sb_writerError b, sb_writerClosed b, sb_readerClosed b, sb_overflows b, sb_aborts b)"

text \<open>What a turn of the loop gives: room in the tail, or an exhausted budget left as it was.\<close>

lemma append_room_ok:
  assumes "weighted_ok W whole taken" "budget_ok whole taken bud" "0 < bg_limit bud" "chunks_ok b"
  shows "append_room W b bud = Inr (None, bud)
    \<or> (\<exists>b' bud' cs c. append_room W b bud = Inr (Some b', bud') \<and> sb_chunks b' = cs @ [c] \<and> length (ch_data c) < ch_cap c
         \<and> (\<forall>c \<in> set cs. ch_data c \<noteq> [] \<and> length (ch_data c) \<le> ch_cap c)
         \<and> (cs = [] \<longrightarrow> sb_offset b' \<le> length (ch_data c)) \<and> (cs \<noteq> [] \<longrightarrow> sb_offset b' < length (ch_data (hd cs)))
         \<and> sb_allocated b' = (\<Sum>c \<leftarrow> sb_chunks b'. int (ch_cap c))
         \<and> contents b' = contents b \<and> budget_moves whole taken (sb_allocated b' - sb_allocated b) bud bud'
         \<and> flags b' = flags b)"
proof (cases "sb_chunks b = [] \<or> length (ch_data (last (sb_chunks b))) = ch_cap (last (sb_chunks b))")
  case True
  let ?n = "min bufferBlockSize (bg_limit bud)"
  have n: "0 < ?n" using assms(3) by (simp add: bufferBlockSize_def)
  show ?thesis
  proof (cases "reserved taken bud + ?n \<le> bg_limit bud")
    case fits: True
    obtain bud' where bud': "Reserve W bud ?n = (True, bud')" "budget_moves whole taken ?n bud bud'"
      using Reserve_fits [OF assms(1,2) _ fits] n by auto
    let ?b = "b\<lparr>sb_chunks := sb_chunks b @ [\<lparr>ch_data = [], ch_cap = nat ?n\<rparr>], sb_allocated := sb_allocated b + ?n\<rparr>"
    have "append_room W b bud = Inr (Some ?b, bud')" using True bud'(1) n by (auto simp: append_room_def Let_def)
    moreover have "contents ?b = contents b" by (simp add: contents_def)
    moreover have "sb_chunks b \<noteq> [] \<longrightarrow> sb_offset b < length (ch_data (hd (sb_chunks b)))" "sb_chunks b = [] \<longrightarrow> sb_offset b = 0"
      using assms(4) by (auto simp: chunks_ok_def split: list.splits)
    ultimately show ?thesis using assms(4) bud'(2) n
      by (intro disjI2 exI [of _ ?b] exI [of _ bud'] exI [of _ "sb_chunks b"] exI [of _ "\<lparr>ch_data = [], ch_cap = nat ?n\<rparr>"])
        (auto simp: chunks_ok_def flags_def)
  next
    case False
    then have "Reserve W bud ?n = (False, bud)" using Reserve_full [OF assms(1,2)] n by simp
    with True show ?thesis by (auto simp: append_room_def Let_def)
  qed
next
  case False
  then have "append_room W b bud = Inr (Some b, bud)" by (simp add: append_room_def)
  moreover obtain cs c where split: "sb_chunks b = cs @ [c]" using False by (metis rev_exhaust)
  moreover have "length (ch_data c) < ch_cap c" using False assms(4) split by (auto simp: chunks_ok_def order_less_le)
  moreover have "cs = [] \<longrightarrow> sb_offset b \<le> length (ch_data c)" "cs \<noteq> [] \<longrightarrow> sb_offset b < length (ch_data (hd cs))"
    using assms(4) split by (cases cs; auto simp: chunks_ok_def)+
  ultimately show ?thesis using assms(2,4)
    by (intro disjI2 exI [of _ b] exI [of _ bud] exI [of _ cs] exI [of _ c]) (auto simp: chunks_ok_def)
qed

text \<open>
  The loop ends: it appends the data, or it overflows, which empties the buffer, ends the body with
  an error and calls \<open>overflow\<close> once.
\<close>

lemma append_loop_ok:
  assumes "weighted_ok W whole taken"
  shows "budget_ok whole taken bud \<Longrightarrow> 0 < bg_limit bud \<Longrightarrow> chunks_ok b \<Longrightarrow> sb_allocated b \<le> reserved taken bud \<Longrightarrow>
    \<exists>b' bud'. append_loop W data b bud = Some (Inr (b', bud')) \<and> chunks_ok b'
      \<and> budget_moves whole taken (sb_allocated b' - sb_allocated b) bud bud'
      \<and> (contents b' = contents b @ data \<and> flags b' = flags b
         \<or> (\<exists>m. sb_chunks b' = [] \<and> flags b' = (Some (IoError m), True, sb_readerClosed b, sb_overflows b @ [m], sb_aborts b)))"
proof (induction data arbitrary: b bud rule: length_induct)
  case (1 data)
  show ?case
  proof (cases "data = []")
    case True
    then show ?thesis using 1 by (subst append_loop.simps) simp
  next
    case data: False
    consider (full) "append_room W b bud = Inr (None, bud)"
      | (room) b' bud' cs c where "append_room W b bud = Inr (Some b', bud')" "sb_chunks b' = cs @ [c]" "length (ch_data c) < ch_cap c"
          "\<forall>c \<in> set cs. ch_data c \<noteq> [] \<and> length (ch_data c) \<le> ch_cap c"
          "cs = [] \<longrightarrow> sb_offset b' \<le> length (ch_data c)" "cs \<noteq> [] \<longrightarrow> sb_offset b' < length (ch_data (hd cs))"
          "sb_allocated b' = (\<Sum>c \<leftarrow> sb_chunks b'. int (ch_cap c))"
          "contents b' = contents b" "budget_moves whole taken (sb_allocated b' - sb_allocated b) bud bud'"
          "flags b' = flags b"
      using append_room_ok [OF assms 1(2,3,4)] by metis
    then show ?thesis
    proof cases
      case full
      obtain bud' where bud': "clearBuffer W b bud = Inr (b\<lparr>sb_chunks := [], sb_offset := 0, sb_allocated := 0\<rparr>, bud')"
          "budget_moves whole taken (- sb_allocated b) bud bud'"
        using clearBuffer_ok [OF assms 1(2) chunks_allocated [OF 1(4)] 1(5)] .
      then show ?thesis using full data
        by (subst append_loop.simps) (auto simp: append_overflow_def Let_def chunks_ok_def flags_def)
    next
      case room
      let ?r = "fst (append_fill data b')" and ?b = "snd (append_fill data b')"
      note fill = append_fill_ok [OF room(2,3) data room(4-7)]
      have alloc: "sb_allocated ?b = sb_allocated b'" and fl: "flags ?b = flags b"
        using room(10) by (simp_all add: append_fill_def Let_def flags_def)
      have "sb_allocated ?b \<le> reserved taken bud'" "budget_ok whole taken bud'" "0 < bg_limit bud'"
        using alloc room(9) 1(3,5) by (auto simp: budget_moves_def)
      then obtain b2 bud2 where loop: "append_loop W ?r ?b bud' = Some (Inr (b2, bud2))" "chunks_ok b2"
          "budget_moves whole taken (sb_allocated b2 - sb_allocated ?b) bud' bud2"
          "contents b2 = contents ?b @ ?r \<and> flags b2 = flags ?b
           \<or> (\<exists>m. sb_chunks b2 = [] \<and> flags b2 = (Some (IoError m), True, sb_readerClosed ?b, sb_overflows ?b @ [m], sb_aborts ?b))"
        using 1(1) fill by blast
      have run: "append_loop W data b bud = Some (Inr (b2, bud2))"
        using data room(1) loop(1) by (subst append_loop.simps) simp
      have moves: "budget_moves whole taken (sb_allocated b2 - sb_allocated b) bud bud2"
        using budget_moves_trans [OF room(9) loop(3)] alloc by simp
      have "contents b2 = contents b @ data \<and> flags b2 = flags b
          \<or> (\<exists>m. sb_chunks b2 = [] \<and> flags b2 = (Some (IoError m), True, sb_readerClosed b, sb_overflows b @ [m], sb_aborts b))"
        using loop(4) fill fl room(8) unfolding flags_def by auto
      with run moves loop(2) show ?thesis by blast
    qed
  qed
qed

text \<open>
  A body together with its history: what the tee wrote before either end was closed, and what the
  candidate's request read.
\<close>

record stream_client =
  sc_body :: stream_body
  sc_written :: bytes
  sc_read :: bytes

definition fresh_stream :: "stream_client \<Rightarrow> bool" where
  "fresh_stream c \<longleftrightarrow> c = \<lparr>sc_body = newStreamBody, sc_written = [], sc_read = []\<rparr>"

inductive stream_step :: "'w weighted \<Rightarrow> stream_client \<Rightarrow> 'w budget \<Rightarrow> stream_client \<Rightarrow> 'w budget \<Rightarrow> bool" for W where
  step_append: "stream_append W data (sc_body c) bud = Some (Inr (b, bud')) \<Longrightarrow>
     stream_step W c bud (c\<lparr>sc_body := b, sc_written := sc_written c
       @ (if sb_readerClosed (sc_body c) \<or> sb_writerClosed (sc_body c) then [] else data)\<rparr>) bud'"
| step_read: "stream_Read W n (sc_body c) bud = Some (Inr ((data, err), b, bud')) \<Longrightarrow>
     stream_step W c bud (c\<lparr>sc_body := b, sc_read := sc_read c @ data\<rparr>) bud'"
| step_closeReader: "closeReader W (sc_body c) bud = Inr (b, bud') \<Longrightarrow> stream_step W c bud (c\<lparr>sc_body := b\<rparr>) bud'"
| step_closeWriter: "stream_step W c bud (c\<lparr>sc_body := stream_closeWriter err (sc_body c)\<rparr>) bud"

text \<open>
  What the closed ends mean: an overflow ends the body with an error, and every other error was
  preceded by an abort of the candidate's request.
\<close>

fun ends_ok :: "io_error option \<times> bool \<times> bool \<times> string list \<times> nat \<Rightarrow> bool" where
  "ends_ok (werr, wclosed, rclosed, overflows, aborts) \<longleftrightarrow>
     (wclosed \<longleftrightarrow> werr \<noteq> None) \<and> (overflows \<noteq> [] \<longrightarrow> werr = Some (IoError (last overflows)))
     \<and> length overflows \<le> 1 \<and> (overflows = [] \<longrightarrow> (aborts > 0 \<longleftrightarrow> (\<exists>m. werr = Some (IoError m))))"

definition stream_ok :: "stream_client \<Rightarrow> bool" where
  "stream_ok c \<longleftrightarrow>
     chunks_ok (sc_body c) \<and> ends_ok (flags (sc_body c))
     \<and> (sb_readerClosed (sc_body c) \<or> sb_overflows (sc_body c) \<noteq> [] \<longrightarrow> sb_chunks (sc_body c) = [])
     \<and> prefix (sc_read c @ contents (sc_body c)) (sc_written c)
     \<and> (\<not> sb_readerClosed (sc_body c) \<longrightarrow> sb_overflows (sc_body c) = [] \<longrightarrow>
          sc_read c @ contents (sc_body c) = sc_written c)"

abbreviation stream_holds :: "stream_client \<Rightarrow> int" where
  "stream_holds c \<equiv> sb_allocated (sc_body c)"

lemma stream_append_ok:
  assumes "weighted_ok W whole taken" "budget_ok whole taken bud" "0 < bg_limit bud" "stream_ok c" "stream_holds c \<le> reserved taken bud"
  shows "\<exists>b bud'. stream_append W data (sc_body c) bud = Some (Inr (b, bud'))
    \<and> stream_ok (c\<lparr>sc_body := b, sc_written := sc_written c
       @ (if sb_readerClosed (sc_body c) \<or> sb_writerClosed (sc_body c) then [] else data)\<rparr>)
    \<and> budget_moves whole taken (sb_allocated b - stream_holds c) bud bud'"
proof (cases "sb_readerClosed (sc_body c) \<or> sb_writerClosed (sc_body c)")
  case True
  then show ?thesis using assms by (simp add: stream_append_def)
next
  case False
  have chunks: "chunks_ok (sc_body c)" using assms(4) by (simp add: stream_ok_def)
  have flush: "sb_overflows (sc_body c) = []" "sc_read c @ contents (sc_body c) = sc_written c"
    using assms(4) False by (auto simp: stream_ok_def flags_def)
  obtain b bud' where loop: "append_loop W data (sc_body c) bud = Some (Inr (b, bud'))" "chunks_ok b"
      "budget_moves whole taken (sb_allocated b - stream_holds c) bud bud'"
      "contents b = contents (sc_body c) @ data \<and> flags b = flags (sc_body c)
       \<or> (\<exists>m. sb_chunks b = [] \<and> flags b = (Some (IoError m), True, sb_readerClosed (sc_body c),
             sb_overflows (sc_body c) @ [m], sb_aborts (sc_body c)))"
    using append_loop_ok [OF assms(1,2,3) chunks assms(5), of data] by blast
  from loop(4) have "stream_ok (c\<lparr>sc_body := b, sc_written := sc_written c @ data\<rparr>)"
  proof
    assume new: "contents b = contents (sc_body c) @ data \<and> flags b = flags (sc_body c)"
    then show ?thesis using assms(4) False loop(2) flush(1)
      by (simp add: stream_ok_def flags_def flip: flush(2))
  next
    assume "\<exists>m. sb_chunks b = [] \<and> flags b = (Some (IoError m), True, sb_readerClosed (sc_body c),
       sb_overflows (sc_body c) @ [m], sb_aborts (sc_body c))"
    with loop(2) flush(1) show ?thesis
      by (auto simp: stream_ok_def flags_def contents_Nil simp flip: flush(2))
  qed
  with loop False show ?thesis by (simp add: stream_append_def)
qed

lemma stream_read_ok:
  assumes "weighted_ok W whole taken" "budget_ok whole taken bud" "stream_ok c" "stream_holds c \<le> reserved taken bud"
    "n = 0 \<or> sb_chunks (sc_body c) \<noteq> [] \<or> sb_readerClosed (sc_body c) \<or> sb_writerClosed (sc_body c)"
  shows "\<exists>data err b bud'. stream_Read W n (sc_body c) bud = Some (Inr ((data, err), b, bud'))
    \<and> stream_ok (c\<lparr>sc_body := b, sc_read := sc_read c @ data\<rparr>)
    \<and> budget_moves whole taken (sb_allocated b - stream_holds c) bud bud'"
proof (cases "n = 0 \<or> sb_chunks (sc_body c) = []")
  case True
  then show ?thesis using assms by (auto simp: stream_Read_def split: list.splits)
next
  case False
  then obtain ch cs where ch: "sb_chunks (sc_body c) = ch # cs" by (auto simp: neq_Nil_conv)
  let ?b = "sc_body c"
  let ?data = "take n (drop (sb_offset ?b) (ch_data ch))"
  have ok: "chunks_ok ?b" and open_ends: "\<not> sb_readerClosed ?b" "sb_overflows ?b = []" and all: "sc_read c @ contents ?b = sc_written c"
    and ends: "ends_ok (flags ?b)"
    using assms(3) ch by (auto simp: stream_ok_def)
  have off: "sb_offset ?b < length (ch_data ch)" using ok ch by (simp add: chunks_ok_def)
  have sum: "sb_allocated ?b = int (ch_cap ch) + (\<Sum>c \<leftarrow> cs. int (ch_cap c))" using ok ch by (simp add: chunks_ok_def)
  have contents: "contents ?b = drop (sb_offset ?b) (ch_data ch) @ concat (map ch_data cs)"
    using ch off by (simp add: contents_def)
  show ?thesis
  proof (cases "sb_offset ?b + length ?data = length (ch_data ch)")
    case True
    have "0 \<le> (\<Sum>c \<leftarrow> cs. int (ch_cap c))" by (auto intro!: sum_list_nonneg)
    then have "int (ch_cap ch) \<le> reserved taken bud" using sum assms(4) by simp
    then obtain bud' where bud': "Budget_Release W bud (int (ch_cap ch)) = Inr bud'"
        "budget_moves whole taken (- int (ch_cap ch)) bud bud'"
      using Budget_Release_held [OF assms(1,2) of_nat_0_le_iff] by blast
    let ?b' = "?b\<lparr>sb_chunks := cs, sb_offset := 0, sb_allocated := sb_allocated ?b - int (ch_cap ch)\<rparr>"
    have whole_chunk: "?data = drop (sb_offset ?b) (ch_data ch)" using True off by simp
    have "stream_Read W n ?b bud = Some (Inr ((?data, None), ?b', bud'))"
      using False ch True bud'(1) by (simp add: stream_Read_def Let_def)
    moreover have "chunks_ok ?b'" using ok ch sum by (auto simp: chunks_ok_def split: list.splits)
    moreover have "?data @ contents ?b' = contents ?b" using contents whole_chunk by (simp add: contents_def)
    ultimately show ?thesis using bud'(2) all open_ends ends
      by (auto simp: stream_ok_def flags_def)
  next
    case part: False
    let ?b' = "?b\<lparr>sb_offset := sb_offset ?b + length ?data\<rparr>"
    have "stream_Read W n ?b bud = Some (Inr ((?data, None), ?b', bud))"
      using False ch part by (simp add: stream_Read_def Let_def)
    moreover have len: "sb_offset ?b + length ?data < length (ch_data ch)" using part off by (auto simp: min_def split: if_splits)
    then have "chunks_ok ?b'" using ok ch by (simp add: chunks_ok_def)
    moreover have "?data @ contents ?b' = contents ?b"
    proof -
      have "contents ?b' = drop (length ?data) (drop (sb_offset ?b) (ch_data ch)) @ concat (map ch_data cs)"
        using ch len by (simp add: contents_def add.commute)
      then show ?thesis unfolding contents using len by (simp add: min_def del: drop_drop)
    qed
    ultimately show ?thesis using assms(2) all open_ends ends
      by (auto simp: stream_ok_def flags_def)
  qed
qed

lemma stream_closeReader_ok:
  assumes "weighted_ok W whole taken" "budget_ok whole taken bud" "stream_ok c" "stream_holds c \<le> reserved taken bud"
  shows "\<exists>b bud'. closeReader W (sc_body c) bud = Inr (b, bud') \<and> stream_ok (c\<lparr>sc_body := b\<rparr>)
    \<and> budget_moves whole taken (sb_allocated b - stream_holds c) bud bud'"
proof -
  let ?b = "(sc_body c)\<lparr>sb_readerClosed := True\<rparr>"
  have alloc: "0 \<le> sb_allocated ?b" "sb_allocated ?b \<le> reserved taken bud"
    using assms(3,4) chunks_allocated by (auto simp: stream_ok_def)
  obtain bud' where bud': "clearBuffer W ?b bud = Inr (?b\<lparr>sb_chunks := [], sb_offset := 0, sb_allocated := 0\<rparr>, bud')"
      "budget_moves whole taken (- sb_allocated ?b) bud bud'"
    using clearBuffer_ok [OF assms(1,2) alloc] .
  have "prefix (sc_read c) (sc_written c)" using assms(3) by (auto simp: stream_ok_def prefix_def)
  with bud' assms(3) show ?thesis
    by (auto simp: closeReader_def stream_ok_def chunks_ok_def flags_def contents_Nil)
qed

lemma stream_closeWriter_ok:
  assumes "stream_ok c"
  shows "stream_ok (c\<lparr>sc_body := stream_closeWriter err (sc_body c)\<rparr>)"
  using assms by (cases err) (auto simp: stream_closeWriter_def stream_ok_def chunks_ok_def flags_def contents_def split: list.splits)

lemmas stream_progress = stream_append_ok stream_read_ok stream_closeReader_ok

interpretation stream: budget_client W whole taken stream_ok fresh_stream stream_holds "stream_step W"
  for W :: "'w weighted" and whole taken
proof
  show "0 \<le> stream_holds c" if "stream_ok c" for c
    using that chunks_allocated by (simp add: stream_ok_def)
  show "stream_ok c \<and> stream_holds c = 0" if "fresh_stream c" for c
    using that by (simp add: fresh_stream_def stream_ok_def newStreamBody_def chunks_ok_def flags_def contents_def)
  show "stream_ok c' \<and> budget_moves whole taken (stream_holds c' - stream_holds c) bud bud'"
    if sem: "weighted_ok W whole taken" and step: "stream_step W c bud c' bud'" and ok: "stream_ok c" "budget_ok whole taken bud" "0 < bg_limit bud" "stream_holds c \<le> reserved taken bud"
    for c bud c' bud'
    using step
  proof cases
    case (step_append data b)
    then show ?thesis using stream_append_ok [OF sem ok(2,3,1,4), of data] by auto
  next
    case (step_read n data err b)
    then have "n = 0 \<or> sb_chunks (sc_body c) \<noteq> [] \<or> sb_readerClosed (sc_body c) \<or> sb_writerClosed (sc_body c)"
      by (auto simp: stream_Read_def split: if_splits)
    then show ?thesis using step_read stream_read_ok [OF sem ok(2,1,4), of n] by auto
  next
    case (step_closeReader b)
    then show ?thesis using stream_closeReader_ok [OF sem ok(2,1,4)] by auto
  next
    case (step_closeWriter err)
    then show ?thesis using ok stream_closeWriter_ok [OF ok(1), of err] by (simp add: stream_closeWriter_def)
  qed
qed



subsection \<open>The tee\<close>

text \<open>
  \<open>teeBody\<close> over a sink given by its \<open>append\<close> and \<open>closeWriter\<close>; its state is \<open>eof\<close> and the sink.
  \<open>tee_reads\<close> is the series of reads that a forwarding proxy makes.
\<close>

definition tee_Read :: "(bytes \<Rightarrow> 's \<Rightarrow> 's returns) \<Rightarrow> (io_error \<Rightarrow> 's \<Rightarrow> 's returns) \<Rightarrow> bytes \<times> io_error option \<Rightarrow> bool \<times> 's
    \<Rightarrow> ((bytes \<times> io_error option) \<times> bool \<times> 's) returns" where
  "tee_Read app close source t =
     bind_returns (if fst source \<noteq> [] then app (fst source) (snd t) else Some (Inr (snd t))) (\<lambda>s.
       case snd source of
         Some EOF \<Rightarrow> bind_returns (close EOF s) (\<lambda>s'. Some (Inr ((fst source, Some EOF), True, s')))
       | Some (IoError e) \<Rightarrow>
           bind_returns (close (IoError e) s) (\<lambda>s'. Some (Inr ((fst source, Some (IoError (wrap ''read body'' e))), fst t, s')))
       | None \<Rightarrow> Some (Inr ((fst source, None), fst t, s)))"

definition closed_early :: io_error where
  "closed_early = IoError (wrap ''body closed before EOF'' ''unexpected EOF'')"

definition tee_Close :: "(io_error \<Rightarrow> 's \<Rightarrow> 's returns) \<Rightarrow> string option \<Rightarrow> bool \<times> 's \<Rightarrow> (string option \<times> 's) returns" where
  "tee_Close close source t =
     bind_returns (if fst t then Some (Inr (snd t)) else close closed_early (snd t))
       (\<lambda>s. Some (Inr (map_option (wrap ''close body'') source, s)))"

fun tee_reads :: "(bytes \<Rightarrow> 's \<Rightarrow> 's returns) \<Rightarrow> (io_error \<Rightarrow> 's \<Rightarrow> 's returns) \<Rightarrow> (bytes \<times> io_error option) list \<Rightarrow> bool \<times> 's
    \<Rightarrow> ((bytes \<times> io_error option) list \<times> bool \<times> 's) returns" where
  "tee_reads app close [] t = Some (Inr ([], t))"
| "tee_reads app close (r # rs) t =
     bind_returns (tee_Read app close r t) (\<lambda>(x, t'). bind_returns (tee_reads app close rs t') (\<lambda>(xs, t''). Some (Inr (x # xs, t''))))"

fun sink_appends :: "(bytes \<Rightarrow> 's \<Rightarrow> 's returns) \<Rightarrow> bytes list \<Rightarrow> 's \<Rightarrow> 's returns" where
  "sink_appends app [] s = Some (Inr s)"
| "sink_appends app (d # ds) s = bind_returns (if d \<noteq> [] then app d s else Some (Inr s)) (sink_appends app ds)"

lemma sink_appends_append:
  "sink_appends app (ds @ es) = (\<lambda>s. bind_returns (sink_appends app ds s) (sink_appends app es))"
  by (induction ds) (rule ext, simp add: bind_returns_assoc)+

text \<open>A read never changes what the proxy sees, beyond naming a failure.\<close>

fun read_error :: "io_error option \<Rightarrow> io_error option" where
  "read_error (Some (IoError e)) = Some (IoError (wrap ''read body'' e))"
| "read_error e = e"

lemma tee_Read_result:
  "tee_Read app close r t = Some (Inr (x, t')) \<Longrightarrow> x = (fst r, read_error (snd r))"
  by (cases "snd r" rule: read_error.cases) (auto simp: tee_Read_def bind_returns_Inr)

lemma tee_reads_results:
  "tee_reads app close rs t = Some (Inr (xs, t')) \<Longrightarrow> xs = map (\<lambda>(d, e). (d, read_error e)) rs"
proof (induction rs arbitrary: t xs t')
  case (Cons r rs)
  then show ?case by (fastforce simp: bind_returns_Inr dest: tee_Read_result split: prod.splits)
qed simp

lemma tee_reads_plain:
  assumes "sink_appends app ds s = Some (Inr s')"
  shows "tee_reads app close (map (\<lambda>d. (d, None)) ds @ rs) (e, s)
    = bind_returns (tee_reads app close rs (e, s')) (\<lambda>(xs, t). Some (Inr (map (\<lambda>d. (d, None)) ds @ xs, t)))"
  using assms
proof (induction ds arbitrary: s)
  case Nil
  then show ?case by (cases "tee_reads app close rs (e, s')") (auto simp: bind_returns_def split: sum.splits)
next
  case (Cons d ds)
  from Cons.prems obtain s1 where s1: "(if d \<noteq> [] then app d s else Some (Inr s)) = Some (Inr s1)"
      "sink_appends app ds s1 = Some (Inr s')"
    by (auto simp: bind_returns_Inr)
  have "tee_Read app close (d, None) (e, s) = Some (Inr ((d, None), e, s1))" using s1(1) by (auto simp: tee_Read_def split: if_splits)
  with Cons.IH [OF s1(2)] show ?case
    by (cases "tee_reads app close rs (e, s')") (auto simp: bind_returns_def split: sum.splits)
qed

locale body_sink =
  fixes app :: "bytes \<Rightarrow> 's \<Rightarrow> 's returns" and close :: "io_error \<Rightarrow> 's \<Rightarrow> 's returns"
  assumes closes: "\<exists>s'. close e s = Some (Inr s')"
    and first_close: "close e s = Some (Inr s') \<Longrightarrow> close e' s' = Some (Inr s')"
begin

text \<open>A body read to its end is in the sink, complete, and closing the tee adds nothing.\<close>

lemma tee_complete:
  assumes "sink_appends app (ds @ [d]) s = Some (Inr s1)" "close EOF s1 = Some (Inr s2)"
  shows "\<exists>xs. tee_reads app close (map (\<lambda>d. (d, None)) ds @ [(d, Some EOF)]) (False, s) = Some (Inr (xs, True, s2))"
    "tee_Close close err (True, s2) = Some (Inr (map_option (wrap ''close body'') err, s2))"
proof -
  obtain s0 where s0: "sink_appends app ds s = Some (Inr s0)" "sink_appends app [d] s0 = Some (Inr s1)"
    using assms(1) unfolding sink_appends_append bind_returns_Inr by blast
  from s0(2) have "tee_Read app close (d, Some EOF) (False, s0) = Some (Inr ((d, Some EOF), True, s2))"
    using assms(2) by (auto simp: tee_Read_def bind_returns_Inr split: if_splits)
  with tee_reads_plain [OF s0(1)]
  show "\<exists>xs. tee_reads app close (map (\<lambda>d. (d, None)) ds @ [(d, Some EOF)]) (False, s) = Some (Inr (xs, True, s2))"
    by simp
  show "tee_Close close err (True, s2) = Some (Inr (map_option (wrap ''close body'') err, s2))"
    by (simp add: tee_Close_def)
qed

text \<open>A body whose read failed keeps that failure: closing the tee afterwards changes nothing.\<close>

lemma tee_failed:
  assumes "sink_appends app ds s = Some (Inr s1)" "close (IoError e) s1 = Some (Inr s2)"
  shows "\<exists>xs. tee_reads app close (map (\<lambda>d. (d, None)) ds @ [([], Some (IoError e))]) (False, s) = Some (Inr (xs, False, s2))"
    "tee_Close close err (False, s2) = Some (Inr (map_option (wrap ''close body'') err, s2))"
proof -
  have "tee_Read app close ([], Some (IoError e)) (False, s1) = Some (Inr (([], Some (IoError (wrap ''read body'' e))), False, s2))"
    using assms(2) by (simp add: tee_Read_def)
  with tee_reads_plain [OF assms(1)]
  show "\<exists>xs. tee_reads app close (map (\<lambda>d. (d, None)) ds @ [([], Some (IoError e))]) (False, s) = Some (Inr (xs, False, s2))"
    by simp
  show "tee_Close close err (False, s2) = Some (Inr (map_option (wrap ''close body'') err, s2))"
    using first_close [OF assms(2)] by (simp add: tee_Close_def)
qed

end

interpretation stream_sink: body_sink "\<lambda>data (b, bud). stream_append W data b bud"
    "\<lambda>err (b, bud). Some (Inr (stream_closeWriter err b, bud))" for W :: "'w weighted"
  by standard (auto simp: stream_closeWriter_def)

subsection \<open>The captured request body\<close>

record captured_body =
  cb_body :: bytes
  cb_overflow :: bool
  cb_err :: "io_error option"

record request_capture =
  cp_limit :: int
  cp_captured :: "captured_body future"
  cp_body :: bytes
  cp_overflow :: bool

definition newRequestCapture :: "int \<Rightarrow> request_capture" where
  "newRequestCapture limit = \<lparr>cp_limit = limit, cp_captured = New_Future, cp_body = [], cp_overflow = False\<rparr>"

definition capture_append :: "bytes \<Rightarrow> request_capture \<Rightarrow> request_capture" where
  "capture_append data c =
     (if Future_Get (cp_captured c) \<noteq> None then c
      else
        let remaining = cp_limit c - int (length (cp_body c)) in
        if int (length data) > remaining
        then c\<lparr>cp_overflow := True, cp_body := cp_body c @ take (nat (max remaining 0)) data\<rparr>
        else c\<lparr>cp_body := cp_body c @ data\<rparr>)"

definition capture_closeWriter :: "io_error \<Rightarrow> request_capture \<Rightarrow> request_capture" where
  "capture_closeWriter err c =
     c\<lparr>cp_captured := snd (Future_Set (cp_captured c)
         \<lparr>cb_body = cp_body c, cb_overflow = cp_overflow c, cb_err = (if err = EOF then None else Some err)\<rparr>)\<rparr>"

fun io_text :: "io_error \<Rightarrow> string" where
  "io_text EOF = ''EOF''"
| "io_text (IoError e) = e"

definition capture_wait :: "request_capture \<Rightarrow> string option \<Rightarrow> bool \<Rightarrow> (bytes \<times> bool) returns" where
  "capture_wait c ctx pick =
     (case Future_Wait (cp_captured c) ctx pick of
        None \<Rightarrow> None
      | Some (Inl e) \<Rightarrow> Some (Inl (wrap ''wait for request body'' e))
      | Some (Inr captured) \<Rightarrow>
          (case cb_err captured of
             Some e \<Rightarrow> Some (Inl (wrap ''request body was not fully read'' (io_text e)))
           | None \<Rightarrow> Some (Inr (cb_body captured, cb_overflow captured))))"

interpretation capture_sink: body_sink "\<lambda>data c. Some (Inr (capture_append data c))" "\<lambda>err c. Some (Inr (capture_closeWriter err c))"
  by standard (auto simp: capture_closeWriter_def Future_Set_def)

text \<open>While nothing is captured, the capture holds the first bytes and knows whether there were more.\<close>

definition capture_ok :: "bytes \<Rightarrow> request_capture \<Rightarrow> bool" where
  "capture_ok seen c \<longleftrightarrow>
     cp_captured c = New_Future \<and> 0 \<le> cp_limit c \<and> cp_body c = take (nat (cp_limit c)) seen
     \<and> (cp_overflow c \<longleftrightarrow> int (length seen) > cp_limit c)"

lemma capture_ok_append:
  assumes "capture_ok seen c"
  shows "capture_ok (seen @ data) (capture_append data c) \<and> cp_limit (capture_append data c) = cp_limit c"
  using assms by (auto simp: capture_ok_def capture_append_def Let_def max_def nat_diff_distrib)

lemma capture_ok_appends:
  assumes "capture_ok seen c"
  shows "\<exists>c'. sink_appends (\<lambda>data c. Some (Inr (capture_append data c))) ds c = Some (Inr c')
    \<and> capture_ok (seen @ concat ds) c' \<and> cp_limit c' = cp_limit c"
  using assms
proof (induction ds arbitrary: seen c)
  case (Cons d ds)
  show ?case
  proof (cases "d = []")
    case False
    note step = capture_ok_append [OF Cons.prems, of d]
    with Cons.IH [of "seen @ d" "capture_append d c"] False show ?thesis by auto
  qed (use Cons in auto)
qed simp

text \<open>
  The egress captures what it forwards: when the upstream has read a whole request body through
  the tee, in whatever portions, it read exactly the client's bytes, and waiting for the capture
  gives the first \<open>limit\<close> of them and whether there were more.
\<close>

theorem capture_exact:
  assumes "0 \<le> limit"
  shows "\<exists>xs c. tee_reads (\<lambda>data c. Some (Inr (capture_append data c))) (\<lambda>err c. Some (Inr (capture_closeWriter err c)))
      (map (\<lambda>d. (d, None)) ds @ [(d, Some EOF)]) (False, newRequestCapture limit) = Some (Inr (xs, True, c))
    \<and> xs = map (\<lambda>d. (d, None)) ds @ [(d, Some EOF)]
    \<and> tee_Close (\<lambda>err c. Some (Inr (capture_closeWriter err c))) None (True, c) = Some (Inr (None, c))
    \<and> capture_wait c None pick = Some (Inr (take (nat limit) (concat ds @ d), int (length (concat ds @ d)) > limit))"
proof -
  let ?app = "\<lambda>data c. Some (Inr (capture_append data c))" and ?close = "\<lambda>err c. Some (Inr (capture_closeWriter err c))"
  have "capture_ok [] (newRequestCapture limit)" using assms by (simp add: capture_ok_def newRequestCapture_def)
  from capture_ok_appends [OF this, of "ds @ [d]"] obtain c where c: "sink_appends ?app (ds @ [d]) (newRequestCapture limit) = Some (Inr c)"
      "capture_ok (concat ds @ d) c" "cp_limit c = limit"
    by (auto simp: newRequestCapture_def)
  let ?c = "capture_closeWriter EOF c"
  from capture_sink.tee_complete [OF c(1) refl] obtain xs where
    xs: "tee_reads ?app ?close (map (\<lambda>d. (d, None)) ds @ [(d, Some EOF)]) (False, newRequestCapture limit) = Some (Inr (xs, True, ?c))"
    "tee_Close ?close None (True, ?c) = Some (Inr (None, ?c))"
    by auto
  have "xs = map (\<lambda>d. (d, None)) ds @ [(d, Some EOF)]" using tee_reads_results [OF xs(1)] by auto
  moreover have "Future_Get (cp_captured ?c)
      = Some \<lparr>cb_body = take (nat limit) (concat ds @ d), cb_overflow = (int (length (concat ds @ d)) > limit), cb_err = None\<rparr>"
    using c(2,3) by (auto simp: capture_closeWriter_def Future_Get_Set capture_ok_def)
  then have "capture_wait ?c None pick = Some (Inr (take (nat limit) (concat ds @ d), int (length (concat ds @ d)) > limit))"
    using c(2) by (simp add: capture_wait_def Future_Wait_ready capture_closeWriter_def capture_ok_def)
  ultimately show ?thesis using xs by blast
qed

subsection \<open>Recorded responses\<close>

record recording =
  rd_started :: time
  rd_finished :: bool
  rd_firstByte :: "time option"
  rd_status :: int
  rd_header :: header
  rd_contentLength :: int
  rd_body :: bytes
  rd_trailer :: header
  rd_err :: "string option"
  rd_overBudget :: bool
  rd_reserved :: int
  rd_released :: bool

definition newRecording :: "time \<Rightarrow> recording" where
  "newRecording now = \<lparr>rd_started = now, rd_finished = False, rd_firstByte = None, rd_status = 0, rd_header = [],
     rd_contentLength = 0, rd_body = [], rd_trailer = [], rd_err = None, rd_overBudget = False, rd_reserved = 0,
     rd_released = False\<rparr>"

record transport_response =
  tr_status :: int
  tr_header :: header
  tr_contentLength :: int
  tr_body :: bytes
  tr_trailer :: header

definition recording_start :: "time \<Rightarrow> transport_response \<Rightarrow> recording \<Rightarrow> recording" where
  "recording_start now response r =
     r\<lparr>rd_firstByte := Some now, rd_status := tr_status response, rd_header := tr_header response,
       rd_contentLength := tr_contentLength response\<rparr>"

definition dropBody :: "'w weighted \<Rightarrow> recording \<Rightarrow> 'w budget \<Rightarrow> (recording \<times> 'w budget) result" where
  "dropBody W r bud =
     (case Budget_Release W bud (rd_reserved r) of
        Inl e \<Rightarrow> Inl e
      | Inr bud' \<Rightarrow> Inr (r\<lparr>rd_reserved := 0, rd_body := []\<rparr>, bud'))"

definition recording_write :: "'w weighted \<Rightarrow> bytes \<Rightarrow> recording \<Rightarrow> 'w budget \<Rightarrow> (recording \<times> 'w budget) result" where
  "recording_write W data r bud =
     (if rd_released r \<or> rd_overBudget r \<or> data = [] then Inr (r, bud)
      else case Reserve W bud (int (length data)) of
        (False, bud') \<Rightarrow> dropBody W (r\<lparr>rd_overBudget := True\<rparr>) bud'
      | (True, bud') \<Rightarrow> Inr (r\<lparr>rd_reserved := rd_reserved r + int (length data), rd_body := rd_body r @ data\<rparr>, bud'))"

definition recording_finish :: "header \<Rightarrow> string option \<Rightarrow> recording \<Rightarrow> recording" where
  "recording_finish trailer err r =
     (if rd_finished r then r else r\<lparr>rd_finished := True, rd_trailer := trailer, rd_err := err\<rparr>)"

definition recording_Release :: "'w weighted \<Rightarrow> recording \<Rightarrow> 'w budget \<Rightarrow> (recording \<times> 'w budget) result" where
  "recording_Release W r bud = dropBody W (r\<lparr>rd_released := True\<rparr>) bud"

definition recording_complete :: "recording \<Rightarrow> 'w budget \<Rightarrow> string option" where
  "recording_complete r bud =
     (if rd_overBudget r then Some (''response exceeds the '' @ show_int (bg_limit bud) @ '' byte recording budget'') else None)"

definition recording_failure :: "recording \<Rightarrow> string option" where
  "recording_failure r = map_option (wrap ''response failed'') (rd_err r)"

definition recording_latency :: "recording \<Rightarrow> duration" where
  "recording_latency r = (case rd_firstByte r of None \<Rightarrow> 0 | Some t \<Rightarrow> t - rd_started r)"

definition recording_response :: "recording \<Rightarrow> transport_response result" where
  "recording_response r =
     (case rd_err r of
        Some e \<Rightarrow> Inl (wrap ''response failed'' e)
      | None \<Rightarrow> Inr \<lparr>tr_status = rd_status r, tr_header = rd_header r, tr_contentLength = 0, tr_body = rd_body r, tr_trailer = rd_trailer r\<rparr>)"

text \<open>
  \<open>RoundTrip\<close> of a recording, its replay; \<open>shut\<close> is the error of closing the request's body. The
  status text and the protocol version, which a reverse proxy does not forward, are left out.
\<close>

definition recording_replay :: "string option \<Rightarrow> recording \<Rightarrow> transport_response result" where
  "recording_replay shut r =
     (case shut of
        Some e \<Rightarrow> Inl (wrap ''close replayed request body'' e)
      | None \<Rightarrow>
          (case rd_err r of
             Some e \<Rightarrow> Inl (wrap ''replay reference failure'' e)
           | None \<Rightarrow> Inr \<lparr>tr_status = rd_status r, tr_header = rd_header r, tr_contentLength = rd_contentLength r,
                tr_body = rd_body r, tr_trailer = rd_trailer r\<rparr>))"

text \<open>
  \<open>RoundTrip\<close> of the recording transport, given what the next transport returned: the response and
  whether its body is teed into the recording.
\<close>

definition recordingTransport_RoundTrip :: "time \<Rightarrow> transport_response result \<Rightarrow> recording \<Rightarrow> (bool \<times> transport_response) result \<times> recording" where
  "recordingTransport_RoundTrip now upstream r =
     (case upstream of
        Inl e \<Rightarrow> (Inl e, recording_finish [] (Some e) r)
      | Inr response \<Rightarrow>
          (if tr_status response = 101
           then (Inr (False, response), recording_finish [] (Some ''protocol upgrades cannot be replayed'') r)
           else (Inr (True, response), recording_start now response r)))"

definition recordingSink_closeWriter :: "header \<Rightarrow> io_error \<Rightarrow> recording \<Rightarrow> recording" where
  "recordingSink_closeWriter trailer err r =
     (case err of EOF \<Rightarrow> recording_finish trailer None r | IoError e \<Rightarrow> recording_finish [] (Some e) r)"

definition recordingSink_append :: "'w weighted \<Rightarrow> bytes \<Rightarrow> recording \<times> 'w budget \<Rightarrow> (recording \<times> 'w budget) returns" where
  "recordingSink_append W data s = Some (recording_write W data (fst s) (snd s))"

interpretation recording_sink: body_sink "recordingSink_append W"
    "\<lambda>err (r, bud). Some (Inr (recordingSink_closeWriter trailer err r, bud))" for W :: "'w weighted" and trailer
proof
  fix e e' :: io_error and s s' :: "recording \<times> 'w budget"
  show "\<exists>s'. (case s of (r, bud) \<Rightarrow> Some (Inr (recordingSink_closeWriter trailer e r, bud))) = Some (Inr s')"
    by (cases s) simp
  assume "(case s of (r, bud) \<Rightarrow> Some (Inr (recordingSink_closeWriter trailer e r, bud))) = Some (Inr s')"
  then show "(case s' of (r, bud) \<Rightarrow> Some (Inr (recordingSink_closeWriter trailer e' r, bud))) = Some (Inr s')"
    by (cases s; cases e; cases e') (auto simp: recordingSink_closeWriter_def recording_finish_def)
qed

text \<open>A recording together with the bytes written to it.\<close>

record recording_client =
  rk_recording :: recording
  rk_written :: bytes

definition fresh_recording :: "recording_client \<Rightarrow> bool" where
  "fresh_recording c \<longleftrightarrow> rk_written c = [] \<and> (\<exists>now. rk_recording c = newRecording now)"

inductive recording_step :: "'w weighted \<Rightarrow> recording_client \<Rightarrow> 'w budget \<Rightarrow> recording_client \<Rightarrow> 'w budget \<Rightarrow> bool" for W where
  step_start: "recording_step W c bud (c\<lparr>rk_recording := recording_start now response (rk_recording c)\<rparr>) bud"
| step_write: "recording_write W data (rk_recording c) bud = Inr (r, bud') \<Longrightarrow>
     recording_step W c bud (c\<lparr>rk_recording := r, rk_written := rk_written c @ data\<rparr>) bud'"
| step_finish: "recording_step W c bud (c\<lparr>rk_recording := recording_finish trailer err (rk_recording c)\<rparr>) bud"
| step_release: "recording_Release W (rk_recording c) bud = Inr (r, bud') \<Longrightarrow> recording_step W c bud (c\<lparr>rk_recording := r\<rparr>) bud'"

definition recording_ok :: "recording_client \<Rightarrow> bool" where
  "recording_ok c \<longleftrightarrow>
     rd_reserved (rk_recording c) = int (length (rd_body (rk_recording c)))
     \<and> rd_body (rk_recording c) =
         (if rd_released (rk_recording c) \<or> rd_overBudget (rk_recording c) then [] else rk_written c)"

abbreviation recording_holds :: "recording_client \<Rightarrow> int" where
  "recording_holds c \<equiv> rd_reserved (rk_recording c)"

lemma dropBody_ok:
  assumes "weighted_ok W whole taken" "budget_ok whole taken bud" "0 \<le> rd_reserved r" "rd_reserved r \<le> reserved taken bud"
  obtains bud' where "dropBody W r bud = Inr (r\<lparr>rd_reserved := 0, rd_body := []\<rparr>, bud')"
    "budget_moves whole taken (- rd_reserved r) bud bud'"
proof -
  obtain bud' where "Budget_Release W bud (rd_reserved r) = Inr bud'" "budget_moves whole taken (- rd_reserved r) bud bud'"
    using Budget_Release_held [OF assms] .
  with that show thesis by (simp add: dropBody_def)
qed

lemma recording_write_ok:
  assumes "weighted_ok W whole taken" "budget_ok whole taken bud" "recording_ok c" "recording_holds c \<le> reserved taken bud"
  shows "\<exists>r bud'. recording_write W data (rk_recording c) bud = Inr (r, bud')
    \<and> recording_ok (c\<lparr>rk_recording := r, rk_written := rk_written c @ data\<rparr>)
    \<and> budget_moves whole taken (rd_reserved r - recording_holds c) bud bud'
    \<and> (rd_overBudget r \<longleftrightarrow> rd_overBudget (rk_recording c) \<or> \<not> rd_released (rk_recording c) \<and> data \<noteq> []
         \<and> \<not> reserved taken bud + int (length data) \<le> bg_limit bud)
    \<and> rd_released r = rd_released (rk_recording c) \<and> rd_err r = rd_err (rk_recording c)
    \<and> rd_finished r = rd_finished (rk_recording c)"
proof (cases "rd_released (rk_recording c) \<or> rd_overBudget (rk_recording c) \<or> data = []")
  case True
  then show ?thesis using assms(2,3) by (auto simp: recording_write_def recording_ok_def)
next
  case idle: False
  let ?r = "rk_recording c"
  show ?thesis
  proof (cases "reserved taken bud + int (length data) \<le> bg_limit bud")
    case True
    obtain bud' where "Reserve W bud (int (length data)) = (True, bud')" "budget_moves whole taken (int (length data)) bud bud'"
      using Reserve_fits [OF assms(1,2) of_nat_0_le_iff True] .
    then show ?thesis using idle True assms(3) by (auto simp: recording_write_def recording_ok_def)
  next
    case False
    have full: "Reserve W bud (int (length data)) = (False, bud)" using Reserve_full [OF assms(1,2) _ False] by simp
    obtain bud' where "dropBody W (?r\<lparr>rd_overBudget := True\<rparr>) bud = Inr (?r\<lparr>rd_overBudget := True, rd_reserved := 0, rd_body := []\<rparr>, bud')"
        "budget_moves whole taken (- rd_reserved ?r) bud bud'"
      using dropBody_ok [OF assms(1,2), of "?r\<lparr>rd_overBudget := True\<rparr>"] assms(3,4)
      by (auto simp: recording_ok_def)
    then show ?thesis using idle False full by (auto simp: recording_write_def recording_ok_def)
  qed
qed

lemma recording_release_ok:
  assumes "weighted_ok W whole taken" "budget_ok whole taken bud" "recording_ok c" "recording_holds c \<le> reserved taken bud"
  shows "\<exists>r bud'. recording_Release W (rk_recording c) bud = Inr (r, bud') \<and> recording_ok (c\<lparr>rk_recording := r\<rparr>)
    \<and> budget_moves whole taken (rd_reserved r - recording_holds c) bud bud'"
proof -
  let ?r = "(rk_recording c)\<lparr>rd_released := True\<rparr>"
  have "0 \<le> rd_reserved ?r" "rd_reserved ?r \<le> reserved taken bud" using assms(3,4) by (auto simp: recording_ok_def)
  then obtain bud' where "dropBody W ?r bud = Inr (?r\<lparr>rd_reserved := 0, rd_body := []\<rparr>, bud')"
      "budget_moves whole taken (- rd_reserved ?r) bud bud'"
    using dropBody_ok [OF assms(1,2)] by blast
  then show ?thesis by (auto simp: recording_Release_def recording_ok_def)
qed

interpretation recorder: budget_client W whole taken recording_ok fresh_recording recording_holds "recording_step W"
  for W :: "'w weighted" and whole taken
proof
  show "0 \<le> recording_holds c" if "recording_ok c" for c using that by (simp add: recording_ok_def)
  show "recording_ok c \<and> recording_holds c = 0" if "fresh_recording c" for c
    using that by (auto simp: fresh_recording_def recording_ok_def newRecording_def)
  show "recording_ok c' \<and> budget_moves whole taken (recording_holds c' - recording_holds c) bud bud'"
    if sem: "weighted_ok W whole taken" and step: "recording_step W c bud c' bud'"
      and ok: "recording_ok c" "budget_ok whole taken bud" "0 < bg_limit bud" "recording_holds c \<le> reserved taken bud"
    for c bud c' bud'
    using step
  proof cases
    case (step_start now response)
    then show ?thesis using ok by (simp add: recording_start_def recording_ok_def)
  next
    case (step_write data r)
    then show ?thesis using recording_write_ok [OF sem ok(2,1,4), of data] by auto
  next
    case (step_finish trailer err)
    then show ?thesis using ok by (simp add: recording_finish_def recording_ok_def)
  next
    case (step_release r)
    then show ?thesis using recording_release_ok [OF sem ok(2,1,4)] by auto
  qed
qed

text \<open>
  Recordings that share a budget are exact: in every reachable state each one that was neither
  released nor found over budget replays exactly the bytes that were written to it, the reserved
  bytes are those the recordings hold, within the limit, and recording and releasing never panic.
\<close>

theorem recordings_exact:
  assumes "weighted_ok W whole taken" "0 < n"
    and "reach ([], NewBudget W n) (shared_step fresh_recording (recording_step W)) (cs, bud)"
  shows "reserved taken bud = (\<Sum>c \<leftarrow> cs. int (length (rd_body (rk_recording c)))) \<and> reserved taken bud \<le> n
    \<and> (\<forall>c \<in> set cs.
         (\<forall>response. recording_complete (rk_recording c) bud = None \<longrightarrow> \<not> rd_released (rk_recording c) \<longrightarrow>
            recording_replay None (rk_recording c) = Inr response \<longrightarrow> tr_body response = rk_written c)
         \<and> (\<forall>data. \<exists>r bud'. recording_write W data (rk_recording c) bud = Inr (r, bud'))
         \<and> (\<exists>r bud'. recording_Release W (rk_recording c) bud = Inr (r, bud') \<and> rd_body r = []))"
proof -
  have inv: "shared_inv whole taken n recording_ok recording_holds (cs, bud)"
    using recorder.shared_reach [OF assms(1,3,2)] .
  then have bud: "budget_ok whole taken bud" "bg_limit bud = n" "reserved taken bud = sum_list (map recording_holds cs)"
    and ok: "\<And>c. c \<in> set cs \<Longrightarrow> recording_ok c" by (simp_all add: shared_inv_def)
  have held: "recording_holds c \<le> reserved taken bud" if "c \<in> set cs" for c
    using that recorder.holds_reserved(2) [OF inv] by (auto simp: in_set_conv_nth)
  have "map recording_holds cs = map (\<lambda>c. int (length (rd_body (rk_recording c)))) cs"
    using ok by (simp add: recording_ok_def)
  then have "reserved taken bud = (\<Sum>c \<leftarrow> cs. int (length (rd_body (rk_recording c))))" unfolding bud(3) by (rule arg_cong)
  moreover have "reserved taken bud \<le> n" using bud(1,2) by (simp add: budget_ok_def)
  moreover have "tr_body response = rk_written c"
    if "c \<in> set cs" "recording_complete (rk_recording c) bud = None" "\<not> rd_released (rk_recording c)"
      "recording_replay None (rk_recording c) = Inr response" for c response
    using ok [OF that(1)] that(2-4)
    by (auto simp: recording_ok_def recording_complete_def recording_replay_def split: if_splits option.splits)
  moreover have "\<exists>r bud'. recording_Release W (rk_recording c) bud = Inr (r, bud') \<and> rd_body r = []" if "c \<in> set cs" for c
    using recording_release_ok [OF assms(1) bud(1) ok [OF that] held [OF that]]
    by (auto simp: recording_Release_def dropBody_def split: sum.splits)
  moreover have "\<exists>r bud'. recording_write W data (rk_recording c) bud = Inr (r, bud')" if "c \<in> set cs" for c data
    using recording_write_ok [OF assms(1) bud(1) ok [OF that] held [OF that], of data] by blast
  ultimately show ?thesis by blast
qed

text \<open>
  A recording with a budget of its own: it holds a response body read to its end through the tee
  exactly when the body fits, whatever the portions in which it arrived.
\<close>

lemma recording_appends:
  assumes "weighted_ok W whole taken"
  shows "budget_ok whole taken bud \<Longrightarrow> recording_ok c \<Longrightarrow> reserved taken bud = recording_holds c \<Longrightarrow>
    \<not> rd_released (rk_recording c) \<Longrightarrow> rd_overBudget (rk_recording c) \<longleftrightarrow> int (length (rk_written c)) > bg_limit bud \<Longrightarrow>
    \<exists>r bud'. sink_appends (recordingSink_append W) ds (rk_recording c, bud) = Some (Inr (r, bud'))
      \<and> recording_ok (c\<lparr>rk_recording := r, rk_written := rk_written c @ concat ds\<rparr>)
      \<and> (rd_overBudget r \<longleftrightarrow> int (length (rk_written c @ concat ds)) > bg_limit bud)
      \<and> \<not> rd_released r \<and> rd_err r = rd_err (rk_recording c) \<and> rd_finished r = rd_finished (rk_recording c)"
proof (induction ds arbitrary: c bud)
  case (Cons d ds)
  have held: "recording_holds c \<le> reserved taken bud" using Cons.prems by simp
  obtain r bud' where w: "recording_write W d (rk_recording c) bud = Inr (r, bud')"
      "recording_ok (c\<lparr>rk_recording := r, rk_written := rk_written c @ d\<rparr>)"
      "budget_moves whole taken (rd_reserved r - recording_holds c) bud bud'"
      "rd_overBudget r \<longleftrightarrow> rd_overBudget (rk_recording c) \<or> \<not> rd_released (rk_recording c) \<and> d \<noteq> []
         \<and> \<not> reserved taken bud + int (length d) \<le> bg_limit bud"
      "rd_released r = rd_released (rk_recording c)" "rd_err r = rd_err (rk_recording c)"
      "rd_finished r = rd_finished (rk_recording c)"
    using recording_write_ok [OF assms Cons.prems(1,2) held, of d] by blast
  let ?c = "c\<lparr>rk_recording := r, rk_written := rk_written c @ d\<rparr>"
  have over: "rd_overBudget r \<longleftrightarrow> int (length (rk_written c @ d)) > bg_limit bud"
    using w(4) Cons.prems by (auto simp: recording_ok_def split: if_splits)
  have step: "sink_appends (recordingSink_append W) (d # ds) (rk_recording c, bud) = sink_appends (recordingSink_append W) ds (r, bud')"
    using w(1) by (auto simp: recordingSink_append_def recording_write_def)
  have prems: "budget_ok whole taken bud'" "bg_limit bud' = bg_limit bud" "reserved taken bud' = rd_reserved r"
    using w(3) Cons.prems(3) by (auto simp: budget_moves_def)
  show ?case using Cons.IH [of bud' ?c] w(2,5-7) prems over Cons.prems(4) unfolding step by simp
qed simp

lemma recording_write_head:
  "recording_write W d r bud = Inr (r', bud') \<Longrightarrow>
   rd_status r' = rd_status r \<and> rd_header r' = rd_header r \<and> rd_contentLength r' = rd_contentLength r \<and> bg_limit bud' = bg_limit bud"
  by (auto simp: recording_write_def dropBody_def Reserve_def Budget_Release_def split: if_splits sum.splits prod.splits bool.splits)

lemma recording_appends_head:
  "sink_appends (recordingSink_append W) ds (r, bud) = Some (Inr (r', bud')) \<Longrightarrow>
   rd_status r' = rd_status r \<and> rd_header r' = rd_header r \<and> rd_contentLength r' = rd_contentLength r \<and> bg_limit bud' = bg_limit bud"
proof (induction ds arbitrary: r bud)
  case (Cons d ds)
  show ?case
  proof (cases "d = []")
    case False
    with Cons.prems obtain r1 bud1 where w: "recording_write W d r bud = Inr (r1, bud1)"
      and rest: "sink_appends (recordingSink_append W) ds (r1, bud1) = Some (Inr (r', bud'))"
      by (auto simp: bind_returns_Inr recordingSink_append_def [of W d])
    from Cons.IH [OF rest] recording_write_head [OF w] show ?thesis by simp
  qed (use Cons in auto)
qed simp

text \<open>
  A response is compared and replayed as it was sent: when the reverse proxy has forwarded a
  response body to its end, in whatever portions, the client got exactly the upstream's bytes; if
  they fit the budget of the recording, what is decoded and replayed has the upstream's status, headers,
  body and trailers; if not, the recording is incomplete.
\<close>

theorem recorded_response_exact:
  assumes "weighted_ok W whole taken" "0 \<le> n" "tr_status response \<noteq> 101"
    and "recordingTransport_RoundTrip now (Inr response) (newRecording started) = (Inr (teed, response), r0)"
    and "reads = map (\<lambda>d. (d, None)) ds @ [(d, Some EOF)]" "body = concat ds @ d"
  shows "teed \<and> (\<exists>r bud. tee_reads (recordingSink_append W) (\<lambda>err (r, bud). Some (Inr (recordingSink_closeWriter trailer err r, bud)))
      reads (False, r0, NewBudget W n) = Some (Inr (reads, True, r, bud))
    \<and> (recording_complete r bud = None \<longleftrightarrow> int (length body) \<le> n)
    \<and> (int (length body) \<le> n \<longrightarrow>
         recording_response r = Inr (response\<lparr>tr_body := body, tr_trailer := trailer, tr_contentLength := 0\<rparr>)
         \<and> recording_replay None r = Inr (response\<lparr>tr_body := body, tr_trailer := trailer\<rparr>)))"
proof -
  let ?app = "recordingSink_append W" and ?close = "\<lambda>err (r, bud). Some (Inr (recordingSink_closeWriter trailer err r, bud))"
  let ?c = "\<lparr>rk_recording = r0, rk_written = []\<rparr>"
  have r0: "r0 = recording_start now response (newRecording started)" and teed
    using assms(3,4) by (auto simp: recordingTransport_RoundTrip_def)
  have ok: "recording_ok ?c" "\<not> rd_released r0" "\<not> rd_overBudget r0" "rd_err r0 = None" "rd_reserved r0 = 0" "\<not> rd_finished r0"
    by (simp_all add: r0 recording_ok_def recording_start_def newRecording_def)
  have pre: "reserved taken (NewBudget W n) = recording_holds ?c" "\<not> rd_released (rk_recording ?c)"
    "rd_overBudget (rk_recording ?c) \<longleftrightarrow> int (length (rk_written ?c)) > bg_limit (NewBudget W n)"
    using ok assms(2) reserved_New [OF assms(1), of n] by (simp_all add: NewBudget_def)
  obtain r bud where apps: "sink_appends ?app (ds @ [d]) (r0, NewBudget W n) = Some (Inr (r, bud))"
      "recording_ok (?c\<lparr>rk_recording := r, rk_written := rk_written ?c @ concat (ds @ [d])\<rparr>)"
      "rd_overBudget r \<longleftrightarrow> int (length body) > bg_limit (NewBudget W n)"
      "\<not> rd_released r" "rd_err r = None" "\<not> rd_finished r"
    using recording_appends [OF assms(1) budget_ok_New [OF assms(1,2)] ok(1) pre, of "ds @ [d]"] ok(4,6) assms(6)
    by auto
  note head = recording_appends_head [OF apps(1)]
  let ?r = "recordingSink_closeWriter trailer EOF r"
  obtain xs where xs: "tee_reads ?app ?close reads (False, r0, NewBudget W n) = Some (Inr (xs, True, ?r, bud))"
    using recording_sink.tee_complete(1) [OF apps(1), of trailer "(?r, bud)"] assms(5) by auto
  have "xs = reads" using tee_reads_results [OF xs] assms(5) by simp
  moreover have "recording_complete ?r bud = None \<longleftrightarrow> int (length body) \<le> n"
    using apps(3) by (auto simp: recording_complete_def recordingSink_closeWriter_def recording_finish_def NewBudget_def)
  moreover have "rd_body r = body" if "int (length body) \<le> n"
    using that apps(2-4) assms(6) by (simp add: recording_ok_def NewBudget_def)
  moreover have "rd_status r = tr_status response" "rd_header r = tr_header response" "rd_contentLength r = tr_contentLength response"
    using head by (simp_all add: r0 recording_start_def)
  ultimately show ?thesis using xs apps(5,6) \<open>teed\<close>
    by (auto simp: recording_response_def recording_replay_def recordingSink_closeWriter_def recording_finish_def)
qed

subsection \<open>Witnesses\<close>

text \<open>A counting semaphore, which has the promised behaviour: its capacity and what is taken.\<close>

definition counting :: "(int \<times> int) weighted" where
  "counting = \<lparr>wt_new = (\<lambda>n. (n, 0)),
     wt_try = (\<lambda>(s, c) n. if c + n \<le> s then (True, s, c + n) else (False, s, c)),
     wt_release = (\<lambda>(s, c) n. if n \<le> c then Inr (s, c - n) else Inl ''semaphore: released more than held'')\<rparr>"

lemma counting_ok: "weighted_ok counting fst snd"
  by (auto simp: weighted_ok_def counting_def)

lemma reach_open:
  assumes "fresh c"
  shows "reach ([], bud) (shared_step fresh step) ([c], bud)"
proof (rule reach_step [OF reach_init])
  show "shared_step fresh step ([], bud) ([c], bud)" using shared_open [of fresh c step "[]" bud] assms by simp
qed

lemma reach_turn:
  assumes "reach init (shared_step fresh step) ([c], bud)" "step c bud c' bud'"
  shows "reach init (shared_step fresh step) ([c'], bud')"
  using reach_step [OF assms(1), of "([c'], bud')"] shared_turn [of 0 "[c]" step bud c' bud' fresh] assms(2) by simp

text \<open>A body of two bytes in a budget of four: written, ended and read.\<close>

definition sample_body :: "bytes \<Rightarrow> stream_client" where
  "sample_body seen =
     \<lparr>sc_body = (if seen = [] then newStreamBody\<lparr>sb_chunks := [\<lparr>ch_data = ''ab'', ch_cap = 4\<rparr>], sb_allocated := 4\<rparr>
        else newStreamBody\<lparr>sb_writerClosed := True, sb_writerError := Some EOF\<rparr>),
      sc_written = ''ab'', sc_read = seen\<rparr>"

definition sample_budget :: "int \<Rightarrow> (int \<times> int) budget" where
  "sample_budget used = \<lparr>bg_limit = 4, bg_available = (4, used)\<rparr>"

lemma sample_written:
  "reach ([], NewBudget counting 4) (shared_step fresh_stream (stream_step counting)) ([sample_body []], sample_budget 4)"
proof -
  let ?new = "\<lparr>sc_body = newStreamBody, sc_written = [], sc_read = []\<rparr>"
  have "stream_append counting ''ab'' (sc_body ?new) (NewBudget counting 4) = Some (Inr (sc_body (sample_body []), sample_budget 4))"
    by code_simp
  then have step: "stream_step counting ?new (NewBudget counting 4) (sample_body []) (sample_budget 4)"
    using stream_step.step_append [of counting "''ab''" ?new] by (simp add: sample_body_def newStreamBody_def)
  have "fresh_stream ?new" by (simp add: fresh_stream_def)
  from reach_turn [OF reach_open [of fresh_stream _ _ "stream_step counting", OF this] step] show ?thesis .
qed

lemma sample_read:
  "reach ([], NewBudget counting 4) (shared_step fresh_stream (stream_step counting)) ([sample_body ''ab''], sample_budget 0)"
proof -
  let ?sent = "(sample_body [])\<lparr>sc_body := stream_closeWriter EOF (sc_body (sample_body []))\<rparr>"
  note ended = reach_turn [OF sample_written stream_step.step_closeWriter [of counting _ _ EOF]]
  have "stream_Read counting 5 (sc_body ?sent) (sample_budget 4)
      = Some (Inr ((''ab'', None), sc_body (sample_body ''ab''), sample_budget 0))"
    by code_simp
  then have "stream_step counting ?sent (sample_budget 4) (sample_body ''ab'') (sample_budget 0)"
    using stream_step.step_read [of counting 5 ?sent] by (fastforce simp: sample_body_def)
  from reach_turn [OF ended this] show ?thesis .
qed



end
