(* ===== verification/Route_Matcher.thy ===== *)
theory Route_Matcher
  imports Comparison_Scripts
begin

text \<open>
  \<open>internal/httpserver/route\<close>: the HTTP endpoints and rules that scripts declare, matched with
  \<open>net/http.ServeMux\<close>, and the declarations that \<open>protocol.NewEngine\<close> makes at startup.

  \<^item> The multiplexer is a parameter \<open>M\<close>: registering a handler (which may panic), and the handler that
    serves a request, with the pattern it was registered under and the values of path wildcards.
    \<open>mux_ok\<close> is what its documentation promises. Handlers are numbers, the index of their value.
  \<^item> \<open>split_fields\<close> is \<open>strings.Fields\<close> on ASCII white space; \<open>path_unescape\<close> is \<open>url.PathUnescape\<close>.
\<close>

subsection \<open>Text\<close>

definition is_space :: "char \<Rightarrow> bool" where
  "is_space c \<longleftrightarrow> c = CHR '' '' \<or> (9 \<le> (of_char c :: nat) \<and> (of_char c :: nat) \<le> 13)"

fun fields_from :: "string \<Rightarrow> string \<Rightarrow> string list" where
  "fields_from word [] = (if word = [] then [] else [word])"
| "fields_from word (c # cs) =
     (if is_space c then (if word = [] then fields_from [] cs else word # fields_from [] cs)
      else fields_from (word @ [c]) cs)"

definition split_fields :: "string \<Rightarrow> string list" where
  "split_fields s = fields_from [] s"

fun split_on :: "char \<Rightarrow> string \<Rightarrow> string list" where
  "split_on sep [] = [[]]"
| "split_on sep (c # cs) =
     (if c = sep then [] # split_on sep cs
      else case split_on sep cs of [] \<Rightarrow> [[c]] | s # ss \<Rightarrow> (c # s) # ss)"

definition hex_value :: "char \<Rightarrow> nat option" where
  "hex_value c =
     (let n = (of_char c :: nat) in
      if 48 \<le> n \<and> n \<le> 57 then Some (n - 48)
      else if 97 \<le> n \<and> n \<le> 102 then Some (n - 87)
      else if 65 \<le> n \<and> n \<le> 70 then Some (n - 55)
      else None)"

fun path_unescape :: "string \<Rightarrow> string result" where
  "path_unescape [] = Inr []"
| "path_unescape (c # cs) =
     (if c = CHR ''%'' then
        (case cs of
           a # b # rest \<Rightarrow>
             (case (hex_value a, hex_value b) of
                (Some x, Some y) \<Rightarrow> bind_result (path_unescape rest) (\<lambda>s. Inr (char_of (16 * x + y) # s))
              | _ \<Rightarrow> Inl ''invalid URL escape'')
         | _ \<Rightarrow> Inl ''invalid URL escape'')
      else bind_result (path_unescape cs) (\<lambda>s. Inr (c # s)))"

subsection \<open>The map of patterns\<close>

record 'm serve_mux =
  mx_new :: 'm
  mx_handle :: "'m \<Rightarrow> string \<Rightarrow> nat \<Rightarrow> 'm result"
  mx_serve :: "'m \<Rightarrow> string \<Rightarrow> string \<Rightarrow> string \<Rightarrow> string \<Rightarrow> (nat \<times> string \<times> (string \<Rightarrow> string)) option"

text \<open>A request is only ever served by a handler that was registered, under its own pattern.\<close>

definition mux_ok :: "'m serve_mux \<Rightarrow> ('m \<Rightarrow> (string \<times> nat) set) \<Rightarrow> bool" where
  "mux_ok M handlers \<longleftrightarrow>
     handlers (mx_new M) = {}
     \<and> (\<forall>m pattern k m'. mx_handle M m pattern k = Inr m' \<longrightarrow> handlers m' = insert (pattern, k) (handlers m))
     \<and> (\<forall>m method host path raw k pattern values.
          mx_serve M m method host path raw = Some (k, pattern, values) \<longrightarrow> (pattern, k) \<in> handlers m)"

record 't value_handler =
  vh_value :: 't
  vh_wildcards :: "string list"

record ('m, 't) route_map =
  rm_mux :: 'm
  rm_handlers :: "'t value_handler list"

definition New_Map :: "'m serve_mux \<Rightarrow> ('m, 't) route_map" where
  "New_Map M = \<lparr>rm_mux = mx_new M, rm_handlers = []\<rparr>"

definition wildcard_name :: "string \<Rightarrow> string option" where
  "wildcard_name segment =
     (if segment \<noteq> [] \<and> hd segment = CHR ''{'' \<and> tl segment \<noteq> [] \<and> last segment = CHR ''}'' then
        (let inner = butlast (tl segment) in
         if inner = ''$'' then None
         else Some (if length inner \<ge> 3 \<and> drop (length inner - 3) inner = ''...''
                    then take (length inner - 3) inner else inner))
      else None)"

text \<open>Indexing the fields of a pattern that has none panics.\<close>

definition Wildcards :: "string \<Rightarrow> string list result" where
  "Wildcards pattern =
     (if split_fields pattern = [] then Inl ''runtime error: index out of range [-1]''
      else
        let target = last (split_fields pattern);
            path = (if CHR ''/'' \<in> set target then tl (dropWhile (\<lambda>c. c \<noteq> CHR ''/'') target) else target)
        in Inr (List.map_filter wildcard_name (split_on (CHR ''/'') path)))"

definition Map_add :: "'m serve_mux \<Rightarrow> ('m, 't) route_map \<Rightarrow> string \<Rightarrow> 't \<Rightarrow> ('m, 't) route_map result" where
  "Map_add M m pattern v =
     bind_result (Wildcards pattern) (\<lambda>wildcards.
     case mx_handle M (rm_mux m) pattern (length (rm_handlers m)) of
       Inl panicked \<Rightarrow> Inl (''invalid route pattern: '' @ panicked)
     | Inr mux \<Rightarrow> Inr (m\<lparr>rm_mux := mux, rm_handlers := rm_handlers m @ [\<lparr>vh_value = v, vh_wildcards = wildcards\<rparr>]\<rparr>))"

definition Map_Add :: "'m serve_mux \<Rightarrow> ('m, 't) route_map \<Rightarrow> string \<Rightarrow> 't \<Rightarrow> ('m, 't) route_map result" where
  "Map_Add M m pattern v =
     (if length (split_fields pattern) \<noteq> 2
      then Inl (''route pattern '' @ go_quote pattern @ '' must have the form \"<METHOD> [<host>]/<path>\"'')
      else Map_add M m pattern v)"

text \<open>
  What the handler of a pattern leaves in the match writer, and whether it counts. A redirect or an
  error response of the multiplexer leaves no pattern. \<open>mw_value\<close> is \<open>None\<close> for the zero value.
\<close>

record 't match_writer =
  mw_value :: "'t option"
  mw_wildcards :: "(string \<times> string) list"
  mw_pattern :: string

definition newMatchWriter :: "'t match_writer" where
  "newMatchWriter = \<lparr>mw_value = None, mw_wildcards = [], mw_pattern = []\<rparr>"

definition writer_record :: "'t \<Rightarrow> string list \<Rightarrow> string \<Rightarrow> (string \<Rightarrow> string) \<Rightarrow> 't match_writer \<Rightarrow> 't match_writer" where
  "writer_record v wildcards pattern pathValue w =
     w\<lparr>mw_value := Some v, mw_pattern := pattern, mw_wildcards := map (\<lambda>n. (n, pathValue n)) wildcards\<rparr>"

definition handler_ServeHTTP :: "'t value_handler \<Rightarrow> string \<Rightarrow> (string \<Rightarrow> string) \<Rightarrow> 't match_writer \<Rightarrow> 't match_writer" where
  "handler_ServeHTTP h pattern pathValue w = writer_record (vh_value h) (vh_wildcards h) pattern pathValue w"

definition writer_matched :: "string \<Rightarrow> 't match_writer \<Rightarrow> ('t \<times> (string \<times> string) list) option" where
  "writer_matched requestMethod w =
     (let names = split_fields (mw_pattern w) in
      if length names = 0 \<or> (length names = 2 \<and> names ! 0 \<noteq> requestMethod) then None
      else map_option (\<lambda>v. (v, mw_wildcards w)) (mw_value w))"

definition Map_Match :: "'m serve_mux \<Rightarrow> ('m, 't) route_map \<Rightarrow> string \<Rightarrow> string \<Rightarrow> string \<Rightarrow> ('t \<times> (string \<times> string) list) option" where
  "Map_Match M m requestMethod requestHost requestPath =
     (case path_unescape requestPath of
        Inl _ \<Rightarrow> None
      | Inr path \<Rightarrow>
          writer_matched requestMethod
            (case mx_serve M (rm_mux m) requestMethod requestHost path requestPath of
               None \<Rightarrow> newMatchWriter
             | Some (k, pattern, pathValue) \<Rightarrow>
                 (if k < length (rm_handlers m) then handler_ServeHTTP (rm_handlers m ! k) pattern pathValue newMatchWriter
                  else newMatchWriter)))"

type_synonym 'm route_pattern = "('m, unit) route_map"

definition NewPattern :: "'m serve_mux \<Rightarrow> string \<Rightarrow> 'm route_pattern result" where
  "NewPattern M pattern =
     (if length (split_fields pattern) \<noteq> 1 \<and> length (split_fields pattern) \<noteq> 2
      then Inl (''route pattern '' @ go_quote pattern @ '' must have the form \"[<METHOD> ][<host>]/<path>\"'')
      else Map_add M (New_Map M) pattern ())"

definition Pattern_Match :: "'m serve_mux \<Rightarrow> 'm route_pattern \<Rightarrow> string \<Rightarrow> string \<Rightarrow> string \<Rightarrow> bool" where
  "Pattern_Match M p requestMethod requestHost requestPath \<longleftrightarrow> Map_Match M p requestMethod requestHost requestPath \<noteq> None"

subsection \<open>The matcher\<close>

datatype script_declaration = DeclarationRequest string type_ref | DeclarationRule rule

record request_endpoint =
  re_pattern :: string
  re_type :: type_ref

record 'm declared_rule =
  dr_rule :: rule
  dr_pattern :: "'m route_pattern option"

record 'm matcher =
  mt_requests :: "('m, request_endpoint) route_map"
  mt_declared :: "request_endpoint list"
  mt_rules :: "'m declared_rule list"

definition NewMatcher :: "'m serve_mux \<Rightarrow> 'm matcher" where
  "NewMatcher M = \<lparr>mt_requests = New_Map M, mt_declared = [], mt_rules = []\<rparr>"

fun Declare :: "'m serve_mux \<Rightarrow> 'm matcher \<Rightarrow> script_declaration \<Rightarrow> 'm matcher result" where
  "Declare M m (DeclarationRequest pattern name) =
     (let request = \<lparr>re_pattern = pattern, re_type = name\<rparr> in
      bind_result (Map_Add M (mt_requests m) pattern request) (\<lambda>requests.
      Inr (m\<lparr>mt_requests := requests, mt_declared := mt_declared m @ [request]\<rparr>)))"
| "Declare M m (DeclarationRule r) =
     (case ru_request r of
        RequestPattern pattern \<Rightarrow>
          bind_result (NewPattern M pattern) (\<lambda>p. Inr (m\<lparr>mt_rules := mt_rules m @ [\<lparr>dr_rule = r, dr_pattern = Some p\<rparr>]\<rparr>))
      | RequestScript \<Rightarrow> Inr (m\<lparr>mt_rules := mt_rules m @ [\<lparr>dr_rule = r, dr_pattern = None\<rparr>]\<rparr>))"

definition Matcher_Request :: "'m serve_mux \<Rightarrow> 'm matcher \<Rightarrow> string \<Rightarrow> string \<Rightarrow> string
    \<Rightarrow> (request_endpoint \<times> (string \<times> string) list) option" where
  "Matcher_Request M m requestMethod requestHost requestPath = Map_Match M (mt_requests m) requestMethod requestHost requestPath"

fun responses_loop :: "'m serve_mux \<Rightarrow> string \<Rightarrow> string \<Rightarrow> header \<Rightarrow> 'm declared_rule list \<Rightarrow> rule list \<Rightarrow> rule list \<times> string option" where
  "responses_loop M requestMethod requestPath h [] rules = (rules, None)"
| "responses_loop M requestMethod requestPath h (d # ds) rules =
     (if (case dr_pattern d of Some p \<Rightarrow> \<not> Pattern_Match M p requestMethod [] requestPath | None \<Rightarrow> False)
         \<or> \<not> SelectsRequestHeaders (dr_rule d) h
      then responses_loop M requestMethod requestPath h ds rules
      else
        let rules' = rules @ [dr_rule d] in
        if dr_pattern d = None \<or> \<not> SelectsEveryResponse (dr_rule d)
        then responses_loop M requestMethod requestPath h ds rules'
        else if ru_action (dr_rule d) = ActionIgnore \<and> length rules' = 1
        then ([], Some (''rule '' @ Rule_String (dr_rule d) @ '' ignores the request''))
        else (rules', None))"

definition Responses :: "'m serve_mux \<Rightarrow> 'm matcher \<Rightarrow> string \<Rightarrow> string \<Rightarrow> header \<Rightarrow> rule list \<times> string option" where
  "Responses M m requestMethod requestPath h = responses_loop M requestMethod requestPath h (mt_rules m) []"

subsection \<open>Declaring everything at startup\<close>

definition describeDeclaration :: "script_declaration \<Rightarrow> string" where
  "describeDeclaration d =
     (case d of
        DeclarationRequest pattern _ \<Rightarrow> ''egress endpoint '' @ go_quote pattern
      | DeclarationRule r \<Rightarrow> ''ingress rule '' @ Rule_String r)"

type_synonym 'm matchers = "protocol \<rightharpoonup> 'm matcher"

definition declare_with :: "'m serve_mux \<Rightarrow> 'm matchers \<Rightarrow> protocol \<Rightarrow> script_declaration \<Rightarrow> 'm matchers result" where
  "declare_with M matchers protocol d =
     (case matchers protocol of
        None \<Rightarrow> Inl (describeDeclaration d @ '' names unregistered protocol '' @ go_quote protocol)
      | Some m \<Rightarrow>
          (case Declare M m d of
             Inl e \<Rightarrow> Inl (wrap (''declare '' @ describeDeclaration d) e)
           | Inr m' \<Rightarrow> Inr (matchers(protocol \<mapsto> m'))))"

fun declare_all :: "'m serve_mux \<Rightarrow> 'm matchers \<Rightarrow> (protocol \<times> script_declaration) list \<Rightarrow> 'm matchers result" where
  "declare_all M matchers [] = Inr matchers"
| "declare_all M matchers ((protocol, d) # ds) =
     bind_result (declare_with M matchers protocol d) (\<lambda>matchers'. declare_all M matchers' ds)"

definition engine_declarations :: "scripts \<Rightarrow> (protocol \<times> script_declaration) list" where
  "engine_declarations s =
     map (\<lambda>e. (ep_protocol e, DeclarationRequest (ep_pattern e) (ep_type e))) (Scripts_Endpoints (st_program s))
     @ map (\<lambda>r. (ru_protocol r, DeclarationRule r)) (pg_rules (st_program s))"

definition NewEngine_declare :: "'m serve_mux \<Rightarrow> 'm matchers \<Rightarrow> scripts \<Rightarrow> 'm matchers result" where
  "NewEngine_declare M matchers s = declare_all M matchers (engine_declarations s)"

subsection \<open>Only declared endpoints match\<close>

text \<open>The handlers of a map are those of its multiplexer, in the order of the calls.\<close>

definition map_ok :: "('m \<Rightarrow> (string \<times> nat) set) \<Rightarrow> ('m, 't) route_map \<Rightarrow> (string \<times> 't) list \<Rightarrow> bool" where
  "map_ok handlers m added \<longleftrightarrow>
     map vh_value (rm_handlers m) = map snd added
     \<and> handlers (rm_mux m) = {(fst (added ! k), k) | k. k < length added}"

lemma map_ok_New: "mux_ok M handlers \<Longrightarrow> map_ok handlers (New_Map M) []"
  by (simp add: map_ok_def New_Map_def mux_ok_def)

lemma map_ok_length: "map_ok handlers m added \<Longrightarrow> length (rm_handlers m) = length added"
  by (auto simp: map_ok_def dest: map_eq_imp_length_eq)

lemma map_ok_value: "map_ok handlers m added \<Longrightarrow> k < length added \<Longrightarrow> vh_value (rm_handlers m ! k) = snd (added ! k)"
  using map_ok_length [of handlers m added] nth_map [of k "rm_handlers m" vh_value] nth_map [of k added snd]
  by (simp add: map_ok_def)

lemma map_ok_add:
  assumes "mux_ok M handlers" "map_ok handlers m added" "Map_add M m pattern v = Inr m'"
  shows "map_ok handlers m' (added @ [(pattern, v)])"
proof -
  have len: "length (rm_handlers m) = length added" using map_ok_length [OF assms(2)] .
  obtain mux wildcards where mux: "mx_handle M (rm_mux m) pattern (length added) = Inr mux"
      "m' = m\<lparr>rm_mux := mux, rm_handlers := rm_handlers m @ [\<lparr>vh_value = v, vh_wildcards = wildcards\<rparr>]\<rparr>"
    using assms(3) len by (cases "mx_handle M (rm_mux m) pattern (length added)") (auto simp: Map_add_def)
  have "handlers mux = insert (pattern, length added) (handlers (rm_mux m))"
    using assms(1) mux(1) unfolding mux_ok_def by blast
  then show ?thesis using assms(2) mux(2) unfolding map_ok_def
    by (auto simp: nth_append less_Suc_eq)
qed

lemma Map_Match_added:
  assumes "mux_ok M handlers" "map_ok handlers m added" "Map_Match M m method host path = Some (v, wildcards)"
  shows "\<exists>pattern. (pattern, v) \<in> set added \<and> split_fields pattern \<noteq> []
    \<and> (length (split_fields pattern) = 2 \<longrightarrow> split_fields pattern ! 0 = method)"
proof -
  from assms(3) obtain p k pattern vals where serve: "mx_serve M (rm_mux m) method host p path = Some (k, pattern, vals)"
      "split_fields pattern \<noteq> []" "length (split_fields pattern) = 2 \<longrightarrow> split_fields pattern ! 0 = method"
      "k < length (rm_handlers m)" "v = vh_value (rm_handlers m ! k)"
    by (auto simp: Map_Match_def writer_matched_def handler_ServeHTTP_def writer_record_def newMatchWriter_def Let_def
        split_fields_def split: sum.splits option.splits if_splits)
  have "(pattern, k) \<in> handlers (rm_mux m)" using assms(1) serve(1) unfolding mux_ok_def by blast
  then have k: "k < length added" "pattern = fst (added ! k)" using assms(2) by (auto simp: map_ok_def)
  then have "(pattern, v) = added ! k" using map_ok_value [OF assms(2) k(1)] serve(5) by (simp add: prod_eq_iff)
  with k(1) serve(2,3) show ?thesis by (metis nth_mem)
qed

fun declare_fold :: "'m serve_mux \<Rightarrow> 'm matcher \<Rightarrow> script_declaration list \<Rightarrow> 'm matcher result" where
  "declare_fold M m [] = Inr m"
| "declare_fold M m (d # ds) = bind_result (Declare M m d) (\<lambda>m'. declare_fold M m' ds)"

definition requests_of :: "script_declaration list \<Rightarrow> request_endpoint list" where
  "requests_of ds = List.map_filter (\<lambda>d. case d of DeclarationRequest p t \<Rightarrow> Some \<lparr>re_pattern = p, re_type = t\<rparr> | _ \<Rightarrow> None) ds"

definition rules_of :: "script_declaration list \<Rightarrow> rule list" where
  "rules_of ds = List.map_filter (\<lambda>d. case d of DeclarationRule r \<Rightarrow> Some r | _ \<Rightarrow> None) ds"

text \<open>A declared pattern is compiled from the rule's own, and its map has that pattern alone.\<close>

definition rule_ok :: "'m serve_mux \<Rightarrow> 'm declared_rule \<Rightarrow> bool" where
  "rule_ok M d \<longleftrightarrow>
     (case ru_request (dr_rule d) of
        RequestPattern pattern \<Rightarrow> \<exists>p. dr_pattern d = Some p \<and> NewPattern M pattern = Inr p
      | RequestScript \<Rightarrow> dr_pattern d = None)"

definition matcher_ok :: "'m serve_mux \<Rightarrow> ('m \<Rightarrow> (string \<times> nat) set) \<Rightarrow> 'm matcher \<Rightarrow> bool" where
  "matcher_ok M handlers m \<longleftrightarrow>
     map_ok handlers (mt_requests m) (map (\<lambda>r. (re_pattern r, r)) (mt_declared m))
     \<and> (\<forall>r \<in> set (mt_declared m). length (split_fields (re_pattern r)) = 2)
     \<and> (\<forall>d \<in> set (mt_rules m). rule_ok M d)"

lemma matcher_ok_Declare:
  assumes "mux_ok M handlers" "matcher_ok M handlers m" "Declare M m d = Inr m'"
  shows "matcher_ok M handlers m' \<and> mt_declared m' = mt_declared m @ requests_of [d]
    \<and> map dr_rule (mt_rules m') = map dr_rule (mt_rules m) @ rules_of [d]"
proof (cases d)
  case (DeclarationRequest pattern name)
  let ?r = "\<lparr>re_pattern = pattern, re_type = name\<rparr>"
  from assms(3) DeclarationRequest obtain requests where r: "length (split_fields pattern) = 2"
      "Map_add M (mt_requests m) pattern ?r = Inr requests"
      "m' = m\<lparr>mt_requests := requests, mt_declared := mt_declared m @ [?r]\<rparr>"
    by (auto simp: Let_def Map_Add_def split: if_splits)
  have "map_ok handlers requests (map (\<lambda>r. (re_pattern r, r)) (mt_declared m) @ [(pattern, ?r)])"
    using map_ok_add [OF assms(1) _ r(2)] assms(2) by (simp add: matcher_ok_def)
  then show ?thesis using r assms(2) DeclarationRequest
    by (simp add: matcher_ok_def requests_of_def rules_of_def List.map_filter_simps)
next
  case (DeclarationRule r)
  then show ?thesis using assms(2,3)
    by (cases "ru_request r") (auto simp: matcher_ok_def rule_ok_def requests_of_def rules_of_def List.map_filter_simps)
qed

lemma requests_of_Cons: "requests_of (d # ds) = requests_of [d] @ requests_of ds"
  by (cases d) (simp_all add: requests_of_def List.map_filter_simps)

lemma rules_of_Cons: "rules_of (d # ds) = rules_of [d] @ rules_of ds"
  by (cases d) (simp_all add: rules_of_def List.map_filter_simps)

lemma matcher_ok_fold:
  assumes "mux_ok M handlers" "matcher_ok M handlers m" "declare_fold M m ds = Inr m'"
  shows "matcher_ok M handlers m' \<and> mt_declared m' = mt_declared m @ requests_of ds
    \<and> map dr_rule (mt_rules m') = map dr_rule (mt_rules m) @ rules_of ds"
  using assms(2,3)
proof (induction ds arbitrary: m)
  case Nil
  then show ?case by (simp add: requests_of_def rules_of_def List.map_filter_simps)
next
  case (Cons d ds)
  from Cons.prems(2) obtain m1 where m1: "Declare M m d = Inr m1" "declare_fold M m1 ds = Inr m'" by auto
  from matcher_ok_Declare [OF assms(1) Cons.prems(1) m1(1)] Cons.IH [OF _ m1(2)]
  show ?case unfolding requests_of_Cons [of d ds] rules_of_Cons [of d ds] by auto
qed

lemma matcher_ok_New: "mux_ok M handlers \<Longrightarrow> matcher_ok M handlers (NewMatcher M)"
  by (simp add: matcher_ok_def NewMatcher_def map_ok_New)

text \<open>With the HTTP matcher registered alone, as ingress and egress do, startup folds over all declarations.\<close>

lemma declare_all_http:
  "declare_all M [ProtocolHTTP \<mapsto> m] ds = Inr ms \<Longrightarrow>
   \<exists>m'. ms = [ProtocolHTTP \<mapsto> m'] \<and> declare_fold M m (map snd ds) = Inr m' \<and> (\<forall>d \<in> set ds. fst d = ProtocolHTTP)"
proof (induction ds arbitrary: m)
  case (Cons d ds)
  obtain protocol decl where d: "d = (protocol, decl)" by (cases d)
  from Cons.prems obtain ms1 where ms1: "declare_with M [ProtocolHTTP \<mapsto> m] protocol decl = Inr ms1" "declare_all M ms1 ds = Inr ms"
    unfolding d declare_all.simps bind_result_Inr by blast
  then obtain m1 where "protocol = ProtocolHTTP" "Declare M m decl = Inr m1" "ms1 = [ProtocolHTTP \<mapsto> m1]"
    by (auto simp: declare_with_def split: option.splits sum.splits if_splits)
  with Cons.IH ms1(2) d show ?case by fastforce
qed simp

lemma engine_rules: "rules_of (map snd (engine_declarations s)) = pg_rules (st_program s)"
  by (simp add: engine_declarations_def rules_of_def List.map_filter_def o_def)

lemma engine_requests:
  "requests_of (map snd (engine_declarations s))
   = map (\<lambda>e. \<lparr>re_pattern = ep_pattern e, re_type = ep_type e\<rparr>) (Scripts_Endpoints (st_program s))"
  by (simp add: engine_declarations_def requests_of_def List.map_filter_def o_def)

lemma startup_matcher:
  assumes "mux_ok M handlers" "NewEngine_declare M [ProtocolHTTP \<mapsto> NewMatcher M] s = Inr ms" "ms ProtocolHTTP = Some m"
  shows "matcher_ok M handlers m" "map dr_rule (mt_rules m) = pg_rules (st_program s)"
    "mt_declared m = map (\<lambda>e. \<lparr>re_pattern = ep_pattern e, re_type = ep_type e\<rparr>) (Scripts_Endpoints (st_program s))"
proof -
  have fold: "declare_fold M (NewMatcher M) (map snd (engine_declarations s)) = Inr m"
    using declare_all_http [OF assms(2) [unfolded NewEngine_declare_def]] assms(3) by auto
  from matcher_ok_fold [OF assms(1) matcher_ok_New [OF assms(1)] fold] engine_rules [of s] engine_requests [of s]
  show "matcher_ok M handlers m" "map dr_rule (mt_rules m) = pg_rules (st_program s)"
    "mt_declared m = map (\<lambda>e. \<lparr>re_pattern = ep_pattern e, re_type = ep_type e\<rparr>) (Scripts_Endpoints (st_program s))"
    by (simp_all add: NewMatcher_def)
qed

subsection \<open>Which rules may select a response\<close>

text \<open>The declared rules whose request pattern matches, in order: a request script decides later.\<close>

definition pattern_matches :: "'m serve_mux \<Rightarrow> string \<Rightarrow> string \<Rightarrow> 'm declared_rule \<Rightarrow> bool" where
  "pattern_matches M method path d \<longleftrightarrow>
     (case dr_pattern d of Some p \<Rightarrow> Pattern_Match M p method [] path | None \<Rightarrow> True)"

lemma select_rule_append:
  "select_rule p created (xs @ ys) request response shared =
     (case select_rule p created xs request response shared of
        (Inr None, shared') \<Rightarrow> select_rule p created ys request response shared'
      | r \<Rightarrow> r)"
  by (induction xs arbitrary: shared) (auto split: prod.splits sum.splits option.splits bool.splits)

lemma SelectsRequestHeaders_iff: "SelectsRequestHeaders r h \<longleftrightarrow> static_headers (ru_request_headers r) (joinedHeader h)"
proof -
  have sel: "HeaderValue_Selects v x \<longleftrightarrow> x = Some v" for v x
    by (auto simp: HeaderValue_Selects_def split: option.splits)
  have "\<not> list_ex (\<lambda>s. case s of HeaderValue n v \<Rightarrow> joinedHeader h n \<noteq> Some v | HeaderScript _ \<Rightarrow> False) hs
      \<longleftrightarrow> static_headers hs (joinedHeader h)" for hs
  proof (induction hs)
    case (Cons a hs)
    then show ?case
      by (cases a) (auto simp: static_headers_def)
  qed (simp add: static_headers_def)
  then show ?thesis unfolding SelectsRequestHeaders_def sel .
qed

lemma dropped_rule:
  assumes "script_free r" "\<not> SelectsRequestHeaders r (hq_header request)"
  shows "selects p created r request response shared = (Inr False, shared)"
proof -
  have "Request_HeaderValue request = joinedHeader (hq_header request)" by (simp add: fun_eq_iff Request_HeaderValue_def)
  then have "\<not> static_selects r request response"
    using assms(2) by (simp add: static_selects_def SelectsRequestHeaders_iff)
  then show ?thesis using selects_static [OF assms(1), of p created request response shared] by simp
qed

lemma select_rule_dropped:
  assumes "selects p created r request response = (\<lambda>shared. (Inr False, shared))"
  shows "select_rule p created (xs @ r # ys) request response shared = select_rule p created (xs @ ys) request response shared"
  unfolding select_rule_append by (auto simp: assms split: prod.splits sum.splits option.splits)

lemma select_rule_decided:
  assumes "selects p created r request response = (\<lambda>shared. (Inr True, shared))"
  shows "select_rule p created (xs @ r # ys) request response shared = select_rule p created (xs @ [r]) request response shared"
  unfolding select_rule_append by (auto simp: assms split: prod.splits sum.splits option.splits)

lemma responses_loop_selects:
  assumes "\<forall>d \<in> set ds. rule_ok M d"
    and "\<forall>d \<in> set ds. pattern_matches M method path d \<longrightarrow> \<not> SelectsRequestHeaders (dr_rule d) (hq_header request) \<longrightarrow> script_free (dr_rule d)"
  shows "(case responses_loop M method path (hq_header request) ds rules of
      (rules', None) \<Rightarrow>
        select_rule p created (rules @ map dr_rule (filter (pattern_matches M method path) ds)) request response shared
          = select_rule p created rules' request response shared
    | (rules', Some _) \<Rightarrow> \<exists>r. ru_action r = ActionIgnore \<and>
        select_rule p created (rules @ map dr_rule (filter (pattern_matches M method path) ds)) request response shared = (Inr (Some r), shared))"
  using assms
proof (induction ds arbitrary: rules)
  case (Cons d ds)
  let ?r = "dr_rule d" and ?rest = "map dr_rule (filter (pattern_matches M method path) ds)"
  have tail: "\<forall>d \<in> set ds. rule_ok M d" "\<forall>d \<in> set ds. pattern_matches M method path d \<longrightarrow>
      \<not> SelectsRequestHeaders (dr_rule d) (hq_header request) \<longrightarrow> script_free (dr_rule d)"
    using Cons.prems by auto
  note IH = Cons.IH [OF tail]
  consider (other) "\<not> pattern_matches M method path d"
    | (headers) "pattern_matches M method path d" "\<not> SelectsRequestHeaders ?r (hq_header request)"
    | (maybe) "pattern_matches M method path d" "SelectsRequestHeaders ?r (hq_header request)"
        "dr_pattern d = None \<or> \<not> SelectsEveryResponse ?r"
    | (every) "pattern_matches M method path d" "SelectsRequestHeaders ?r (hq_header request)"
        "dr_pattern d \<noteq> None" "SelectsEveryResponse ?r"
    by blast
  then show ?case
  proof cases
    case other
    then have "responses_loop M method path (hq_header request) (d # ds) rules = responses_loop M method path (hq_header request) ds rules"
      by (auto simp: pattern_matches_def split: option.splits)
    then show ?thesis using IH [of rules] other by (simp split: prod.splits option.splits)
  next
    case headers
    then have "selects p created ?r request response = (\<lambda>shared. (Inr False, shared))"
      using dropped_rule Cons.prems(2) by (auto simp: fun_eq_iff)
    note dropped = select_rule_dropped [OF this, of rules ?rest shared]
    have "responses_loop M method path (hq_header request) (d # ds) rules = responses_loop M method path (hq_header request) ds rules"
      using headers by simp
    then show ?thesis using IH [of rules] dropped headers(1) by (simp split: prod.splits option.splits)
  next
    case maybe
    then have "responses_loop M method path (hq_header request) (d # ds) rules
        = responses_loop M method path (hq_header request) ds (rules @ [?r])"
      by (auto simp: pattern_matches_def Let_def split: option.splits)
    then show ?thesis using IH [of "rules @ [?r]"] maybe(1) by (simp split: prod.splits option.splits)
  next
    case every
    have "ru_request ?r \<noteq> RequestScript" using every(3) Cons.prems(1) by (auto simp: rule_ok_def)
    then have sel: "selects p created ?r request response = (\<lambda>shared. (Inr True, shared))"
      using SelectsEveryResponse_sound [OF every(4,2)] by (auto simp: fun_eq_iff)
    note decided = select_rule_decided [OF this, of rules ?rest shared]
    have loop: "responses_loop M method path (hq_header request) (d # ds) rules
        = (if ru_action ?r = ActionIgnore \<and> rules = [] then ([], Some (''rule '' @ Rule_String ?r @ '' ignores the request''))
           else (rules @ [?r], None))"
      using every by (auto simp: pattern_matches_def Let_def split: option.splits)
    show ?thesis
    proof (cases "ru_action ?r = ActionIgnore \<and> rules = []")
      case True
      then show ?thesis unfolding loop using every(1) sel by auto
    next
      case False
      then have "responses_loop M method path (hq_header request) (d # ds) rules = (rules @ [?r], None)" using loop by auto
      then show ?thesis using every(1) decided by (simp split: prod.splits option.splits)
    qed
  qed
qed simp


text \<open>
  A dependency request is decoded as a declared endpoint only: whatever was declared, a match is
  one of the declared endpoints, and its pattern names the request's own method, so a \<open>HEAD\<close>
  request never matches a \<open>GET\<close> pattern.
\<close>

theorem Request_declared:
  assumes "mux_ok M handlers" "NewEngine_declare M [ProtocolHTTP \<mapsto> NewMatcher M] s = Inr ms" "ms ProtocolHTTP = Some m"
    and "Matcher_Request M m method host path = Some (endpoint, wildcards)"
  shows "(\<exists>e \<in> set (Scripts_Endpoints (st_program s)). re_pattern endpoint = ep_pattern e \<and> re_type endpoint = ep_type e)
    \<and> (\<exists>target. split_fields (re_pattern endpoint) = [method, target])"
proof -
  note ok = startup_matcher [OF assms(1-3)]
  obtain pattern where p: "(pattern, endpoint) \<in> set (map (\<lambda>r. (re_pattern r, r)) (mt_declared m))"
      "length (split_fields pattern) = 2 \<longrightarrow> split_fields pattern ! 0 = method"
    using Map_Match_added [OF assms(1) _ assms(4) [unfolded Matcher_Request_def], of "map (\<lambda>r. (re_pattern r, r)) (mt_declared m)"] ok(1)
    unfolding matcher_ok_def by blast
  then have e: "endpoint \<in> set (mt_declared m)" "pattern = re_pattern endpoint" "length (split_fields pattern) = 2"
    using ok(1) by (auto simp: matcher_ok_def)
  then have "split_fields pattern = [method, split_fields pattern ! 1]"
    using p(2) by (cases "split_fields pattern" rule: list.exhaust; cases "tl (split_fields pattern)") auto
  then show ?thesis using e(1,2) ok(3) by auto
qed

subsection \<open>Witnesses\<close>

text \<open>A multiplexer whose patterns match the path they name, in the order of registration.\<close>

definition plain_mux :: "(string \<times> nat) list serve_mux" where
  "plain_mux = \<lparr>mx_new = [], mx_handle = (\<lambda>m p k. Inr (m @ [(p, k)])),
     mx_serve = (\<lambda>m method host path raw.
       map_option (\<lambda>(p, k). (k, p, \<lambda>_. [])) (find (\<lambda>(p, k). last (split_fields p) = raw) m))\<rparr>"

lemma plain_mux_ok: "mux_ok plain_mux set"
  by (auto simp: mux_ok_def plain_mux_def find_Some_iff in_set_conv_nth)

definition sample_scripts :: scripts where
  "sample_scripts = empty_scripts\<lparr>st_program := empty_program\<lparr>pg_rules := [missing_rule, any_rule],
     pg_endpoints := [\<lparr>ep_direction = Egress, ep_protocol = ProtocolHTTP, ep_pattern = ''GET /x'', ep_type = ''T''\<rparr>]\<rparr>\<rparr>"

definition sample_matcher :: "(string \<times> nat) list matcher" where
  "sample_matcher = (case NewEngine_declare plain_mux [ProtocolHTTP \<mapsto> NewMatcher plain_mux] sample_scripts of
     Inr ms \<Rightarrow> the (ms ProtocolHTTP) | Inl _ \<Rightarrow> NewMatcher plain_mux)"

lemma sample_startup:
  obtains ms where "NewEngine_declare plain_mux [ProtocolHTTP \<mapsto> NewMatcher plain_mux] sample_scripts = Inr ms"
    "ms ProtocolHTTP = Some sample_matcher"
proof -
  have "\<not> is_err (NewEngine_declare plain_mux [ProtocolHTTP \<mapsto> NewMatcher plain_mux] sample_scripts)" by code_simp
  then obtain ms where ms: "NewEngine_declare plain_mux [ProtocolHTTP \<mapsto> NewMatcher plain_mux] sample_scripts = Inr ms"
    by (cases "NewEngine_declare plain_mux [ProtocolHTTP \<mapsto> NewMatcher plain_mux] sample_scripts") auto
  moreover obtain m where "ms ProtocolHTTP = Some m"
    using declare_all_http [OF ms [unfolded NewEngine_declare_def]] by auto
  ultimately show thesis using that by (simp add: sample_matcher_def)
qed


end
