(* ===== verification/Message_Decoder.thy ===== *)
theory Message_Decoder
  imports Ingress_Pairs Route_Matcher Body_Stream
begin

text \<open>
  \<open>internal/httpserver/message\<close> and \<open>codec\<close>: decoding HTTP requests and responses into the messages
  that the engine compares.

  \<^item> What rests on other libraries is the record \<open>libs\<close>: protobuf descriptors and ProtoJSON, gzip, JSON
    text (an error has its text and, for a syntax error, an offset), media types and floating-point text. A protobuf message is its tree of nested messages,
    each with its unknown bytes.
  \<^item> A JSON object is an ordered association list, so \<open>slices.Sorted(maps.Keys(m))\<close> is its key order.
    Binding mutates nested maps in place; a failed binding ends the request, so the model returns the
    updated object or the error.
  \<^item> \<open>parse_query\<close> is \<open>url.ParseQuery\<close>, \<open>utf8_valid\<close> is \<open>utf8.Valid\<close>, and \<open>atoi\<close> is \<open>strconv.Atoi\<close>.
\<close>

subsection \<open>Libraries\<close>

datatype gzip_error = GzipOpen string | GzipRead string | GzipClose string

datatype pb_message = PbMessage (pb_unknown: bytes) (pb_fields: "pb_field list")
  and pb_field = PbScalar | PbNested pb_message | PbList "pb_message list" | PbMap "pb_message list"

record libs =
  lb_media_type :: "string \<Rightarrow> string result"
  lb_gunzip :: "bytes \<Rightarrow> int \<Rightarrow> gzip_error + bytes"
  lb_unmarshal :: "bytes \<Rightarrow> (string \<times> int option) + json"
  lb_marshal :: "json \<Rightarrow> bytes result"
  lb_float :: "string \<Rightarrow> rat option result"
  lb_message :: "type_ref \<Rightarrow> unit result"
  lb_method :: "string \<Rightarrow> (bool \<times> bool) result"
  lb_protojson_unmarshal :: "type_ref \<Rightarrow> bytes \<Rightarrow> pb_message option"
  lb_proto_unmarshal :: "type_ref \<Rightarrow> bytes \<Rightarrow> pb_message result"
  lb_protojson_marshal :: "pb_message \<Rightarrow> bytes result"

definition header_get :: "header \<Rightarrow> string \<Rightarrow> string" where
  "header_get h name = (case header_values h name of [] \<Rightarrow> [] | v # _ \<Rightarrow> v)"

fun query_unescape :: "string \<Rightarrow> string result" where
  "query_unescape [] = Inr []"
| "query_unescape (c # cs) =
     (if c = CHR ''%'' then
        (case cs of
           a # b # rest \<Rightarrow>
             (case (hex_value a, hex_value b) of
                (Some x, Some y) \<Rightarrow> bind_result (query_unescape rest) (\<lambda>s. Inr (char_of (16 * x + y) # s))
              | _ \<Rightarrow> Inl ''invalid URL escape'')
         | _ \<Rightarrow> Inl ''invalid URL escape'')
      else bind_result (query_unescape cs) (\<lambda>s. Inr ((if c = CHR ''+'' then CHR '' '' else c) # s)))"

definition cut :: "char \<Rightarrow> string \<Rightarrow> string \<times> string" where
  "cut sep s = (takeWhile (\<lambda>c. c \<noteq> sep) s, tl (dropWhile (\<lambda>c. c \<noteq> sep) s))"

text \<open>Any malformed pair makes the whole query an error, whose text the caller drops.\<close>

fun query_pairs :: "string list \<Rightarrow> (string \<times> string list) list \<Rightarrow> (string \<times> string list) list result" where
  "query_pairs [] m = Inr m"
| "query_pairs (p # ps) m =
     (if CHR '';'' \<in> set p then Inl ''invalid semicolon separator in query''
      else if p = [] then query_pairs ps m
      else
        bind_result (query_unescape (fst (cut (CHR ''='') p))) (\<lambda>key.
        bind_result (query_unescape (snd (cut (CHR ''='') p))) (\<lambda>v.
        query_pairs ps (map_put key ((case map_of m key of None \<Rightarrow> [] | Some vs \<Rightarrow> vs) @ [v]) m))))"

definition parse_query :: "string \<Rightarrow> (string \<times> string list) list result" where
  "parse_query query = query_pairs (split_on (CHR ''&'') query) []"

definition continuation :: "char \<Rightarrow> bool" where
  "continuation c \<longleftrightarrow> 128 \<le> (of_char c :: nat) \<and> (of_char c :: nat) \<le> 191"

definition byte_in :: "char \<Rightarrow> nat \<Rightarrow> nat \<Rightarrow> bool" where
  "byte_in c lo hi \<longleftrightarrow> lo \<le> (of_char c :: nat) \<and> (of_char c :: nat) \<le> hi"

fun utf8_valid :: "bytes \<Rightarrow> bool" where
  "utf8_valid [] = True"
| "utf8_valid (a # s) =
     (if byte_in a 0 127 then utf8_valid s
      else if byte_in a 194 223 then (case s of b # r \<Rightarrow> continuation b \<and> utf8_valid r | _ \<Rightarrow> False)
      else if byte_in a 224 239 then
        (case s of b # c # r \<Rightarrow>
           byte_in b (if byte_in a 224 224 then 160 else 128) (if byte_in a 237 237 then 159 else 191)
           \<and> continuation c \<and> utf8_valid r
         | _ \<Rightarrow> False)
      else if byte_in a 240 244 then
        (case s of b # c # d # r \<Rightarrow>
           byte_in b (if byte_in a 240 240 then 144 else 128) (if byte_in a 244 244 then 143 else 191)
           \<and> continuation c \<and> continuation d \<and> utf8_valid r
         | _ \<Rightarrow> False)
      else False)"

subsection \<open>Errors without values\<close>

fun jsonError :: "string \<times> int option \<Rightarrow> string" where
  "jsonError (text, Some offset) = ''invalid JSON at offset '' @ show_int offset"
| "jsonError (text, None) = ''invalid JSON''"

definition numberError :: "string \<Rightarrow> string \<Rightarrow> string" where
  "numberError func cause = func @ '': '' @ cause"

text \<open>\<open>strconv.Atoi\<close>, with 64-bit integers: an optional sign and digits.\<close>

definition atoi :: "string \<Rightarrow> int result" where
  "atoi s =
     (let digits = (if s \<noteq> [] \<and> (hd s = CHR ''+'' \<or> hd s = CHR ''-'') then tl s else s);
          n = foldl (\<lambda>n c. 10 * n + int (undigit c)) 0 digits;
          v = (if s \<noteq> [] \<and> hd s = CHR ''-'' then - n else n)
      in if digits = [] \<or> \<not> list_all is_digit digits then Inl ''invalid syntax''
         else if v < - (2 ^ 63) \<or> v \<ge> 2 ^ 63 then Inl ''value out of range''
         else Inr v)"

subsection \<open>Binding HTTP parameters\<close>

fun resolve_parts :: "schema \<Rightarrow> stype \<Rightarrow> string list \<Rightarrow> field list result" where
  "resolve_parts loaded current [] = Inr []"
| "resolve_parts loaded current (part # parts) =
     (case Type_Field current part of
        None \<Rightarrow> Inl (''type '' @ go_quote (ty_name current) @ '' has no field '' @ go_quote part)
      | Some f \<Rightarrow>
          (if parts = [] then Inr [f]
           else if sv_kind (fl_value f) \<noteq> KindObject then Inl (''field '' @ go_quote part @ '' is not a singular object'')
           else
             bind_result (Schema_Type loaded (sv_type (fl_value f))) (\<lambda>nested.
             bind_result (resolve_parts loaded nested parts) (\<lambda>path. Inr (f # path)))))"

definition scalar_kind :: "kind \<Rightarrow> bool" where
  "scalar_kind k \<longleftrightarrow> k = KindString \<or> k = KindNumber \<or> k = KindBoolean \<or> k = KindEnum"

definition resolveBinding :: "schema \<Rightarrow> stype \<Rightarrow> string \<Rightarrow> bool \<Rightarrow> field list result" where
  "resolveBinding loaded root_type name repeatable =
     bind_result (resolve_parts loaded root_type (split_on (CHR ''.'') name)) (\<lambda>path.
     let v = fl_value (last path) in
     if sv_kind v = KindList then
       (if \<not> repeatable then Inl (''field '' @ go_quote name @ '' is repeated'')
        else case sv_element v of
          None \<Rightarrow> Inl (''field '' @ go_quote name @ '' has no element type'')
        | Some element \<Rightarrow>
            if scalar_kind (sv_kind element) then Inr path else Inl (''field '' @ go_quote name @ '' is not a scalar''))
     else if scalar_kind (sv_kind v) then Inr path
     else Inl (''field '' @ go_quote name @ '' is not a scalar''))"

definition parse_bool :: "string \<Rightarrow> bool option" where
  "parse_bool s =
     (if s \<in> set [''1'', ''t'', ''T'', ''TRUE'', ''true'', ''True''] then Some True
      else if s \<in> set [''0'', ''f'', ''F'', ''FALSE'', ''false'', ''False''] then Some False
      else None)"

definition parseScalar :: "libs \<Rightarrow> svalue \<Rightarrow> string \<Rightarrow> json result" where
  "parseScalar L v raw =
     (case sv_kind v of
        KindString \<Rightarrow> Inr (JString raw)
      | KindNumber \<Rightarrow>
          (if raw \<in> set (sv_literals v) then Inr (JString raw)
           else case lb_float L raw of
             Inl cause \<Rightarrow> Inl (wrap ''parse number'' (numberError ''ParseFloat'' cause))
           | Inr None \<Rightarrow> Inl ''number must be finite''
           | Inr (Some n) \<Rightarrow> Inr (JNumber n))
      | KindBoolean \<Rightarrow>
          (case parse_bool raw of
             None \<Rightarrow> Inl (wrap ''parse boolean'' (numberError ''ParseBool'' ''invalid syntax''))
           | Some b \<Rightarrow> Inr (JBool b))
      | KindEnum \<Rightarrow> if raw \<in> set (sv_literals v) then Inr (JString raw) else Inl ''value is not a declared enum literal''
      | _ \<Rightarrow> Inl (''type '' @ Value_String v @ '' cannot be bound from text''))"

fun parse_list :: "libs \<Rightarrow> string \<Rightarrow> svalue \<Rightarrow> string list \<Rightarrow> json list result" where
  "parse_list L name element [] = Inr []"
| "parse_list L name element (raw # raws) =
     (case parseScalar L element raw of
        Inl e \<Rightarrow> Inl (wrap (''parse field '' @ go_quote name) e)
      | Inr v \<Rightarrow> bind_result (parse_list L name element raws) (\<lambda>vs. Inr (v # vs)))"

definition field_value :: "libs \<Rightarrow> string \<Rightarrow> string list \<Rightarrow> field \<Rightarrow> json result" where
  "field_value L name raws f =
     (if sv_kind (fl_value f) \<noteq> KindList then
        (case raws of
           [raw] \<Rightarrow>
             (case parseScalar L (fl_value f) raw of
                Inl e \<Rightarrow> Inl (wrap (''parse field '' @ go_quote name) e)
              | Inr v \<Rightarrow> Inr v)
         | _ \<Rightarrow> Inl (''field '' @ go_quote name @ '' is not repeated''))
      else case sv_element (fl_value f) of
        None \<Rightarrow> Inl (''field '' @ go_quote name @ '' has no element type'')
      | Some element \<Rightarrow> bind_result (parse_list L name element raws) (\<lambda>vs. Inr (JList vs)))"

text \<open>The walk through the parents of the field, which adds the objects that are missing.\<close>

fun bind_at :: "libs \<Rightarrow> string \<Rightarrow> string list \<Rightarrow> field list \<Rightarrow> (string \<times> json) list \<Rightarrow> (string \<times> json) list result" where
  "bind_at L name raws [] m = Inl ''runtime error: index out of range [-1]''"
| "bind_at L name raws [f] m =
     (if map_of m (fl_name f) \<noteq> None then Inl (''field '' @ go_quote name @ '' is already bound'')
      else bind_result (field_value L name raws f) (\<lambda>v. Inr (map_put (fl_name f) v m)))"
| "bind_at L name raws (parent # f # fs) m =
     (case (case map_of m (fl_name parent) of None \<Rightarrow> JObject [] | Some v \<Rightarrow> v) of
        JObject inner \<Rightarrow>
          bind_result (bind_at L name raws (f # fs) inner) (\<lambda>inner'. Inr (map_put (fl_name parent) (JObject inner') m))
      | _ \<Rightarrow> Inl (''field '' @ go_quote (fl_name parent) @ '' is not an object''))"

definition bindField :: "libs \<Rightarrow> schema \<Rightarrow> stype \<Rightarrow> (string \<times> json) list \<Rightarrow> string \<Rightarrow> string list \<Rightarrow> bool
    \<Rightarrow> (string \<times> json) list result" where
  "bindField L loaded root_type m name raws repeatable =
     bind_result (resolveBinding loaded root_type name repeatable) (\<lambda>path. bind_at L name raws path m)"

fun bind_all :: "libs \<Rightarrow> schema \<Rightarrow> stype \<Rightarrow> string \<Rightarrow> bool \<Rightarrow> (string \<times> string list) list \<Rightarrow> (string \<times> json) list
    \<Rightarrow> (string \<times> json) list result" where
  "bind_all L loaded root_type what repeatable [] m = Inr m"
| "bind_all L loaded root_type what repeatable ((name, raws) # ps) m =
     (case bindField L loaded root_type m name raws repeatable of
        Inl e \<Rightarrow> Inl (wrap (''bind '' @ what @ '' '' @ go_quote name) e)
      | Inr m' \<Rightarrow> bind_all L loaded root_type what repeatable ps m')"

definition sorted_wildcards :: "(string \<times> string) list \<Rightarrow> (string \<times> string list) list" where
  "sorted_wildcards ws = fold (\<lambda>(n, v). map_put n [v]) ws []"

record request =
  mr_method :: string
  mr_host :: string
  mr_path :: string
  mr_rawQuery :: string
  mr_header :: header
  mr_body :: bytes
  mr_overflow :: bool

definition bindHTTPParameters :: "libs \<Rightarrow> schema \<Rightarrow> stype \<Rightarrow> (string \<times> json) list \<Rightarrow> request \<Rightarrow> (string \<times> string) list
    \<Rightarrow> (string \<times> json) list result" where
  "bindHTTPParameters L loaded root_type m request wildcards =
     (if mr_method request = ''GET'' \<and> mr_body request \<noteq> [] then Inl ''GET request has a body''
      else
        bind_result (bind_all L loaded root_type ''path wildcard'' False (sorted_wildcards wildcards) m) (\<lambda>m1.
        case parse_query (mr_rawQuery request) of
          Inl _ \<Rightarrow> Inl ''query is not valid URL encoding''
        | Inr query \<Rightarrow> bind_all L loaded root_type ''query parameter'' True query m1))"

subsection \<open>The wire codec\<close>

datatype wire_format = ConnectJSON | GRPC | Protobuf

fun contains_unknown :: "pb_message \<Rightarrow> bool" and field_unknown :: "pb_field \<Rightarrow> bool" where
  "contains_unknown (PbMessage unknown fs) \<longleftrightarrow> unknown \<noteq> [] \<or> list_ex field_unknown fs"
| "field_unknown PbScalar \<longleftrightarrow> False"
| "field_unknown (PbNested m) \<longleftrightarrow> contains_unknown m"
| "field_unknown (PbList ms) \<longleftrightarrow> list_ex contains_unknown ms"
| "field_unknown (PbMap ms) \<longleftrightarrow> list_ex contains_unknown ms"

definition Streaming :: "libs \<Rightarrow> string \<Rightarrow> bool" where
  "Streaming L name = (case lb_method L name of Inr (client, server) \<Rightarrow> client \<or> server | Inl _ \<Rightarrow> False)"

definition uint32_be :: "bytes \<Rightarrow> nat" where
  "uint32_be b = foldl (\<lambda>n c. 256 * n + (of_char c :: nat)) 0 b"

fun gzip_failure :: "string \<Rightarrow> gzip_error \<Rightarrow> string" where
  "gzip_failure what (GzipOpen e) = wrap ''open gzip body'' e"
| "gzip_failure what (GzipRead e) = wrap (''decompress '' @ what @ '' body'') e"
| "gzip_failure what (GzipClose e) = wrap ''close gzip body'' e"

definition grpcPayload :: "libs \<Rightarrow> header \<Rightarrow> bytes \<Rightarrow> int \<Rightarrow> bytes result" where
  "grpcPayload L h body maxBodyBytes =
     (if length body < 5 then Inl ''missing gRPC message frame''
      else if int (uint32_be (take 4 (drop 1 body))) \<noteq> int (length body) - 5 then Inl ''gRPC body must contain exactly one message''
      else
        let payload = drop 5 body; flag = (of_char (body ! 0) :: nat) in
        if flag = 0 then Inr payload
        else if flag = 1 then
          (if header_get h ''Grpc-Encoding'' \<noteq> ''gzip'' then Inl ''unsupported gRPC compression''
           else case lb_gunzip L payload (maxBodyBytes + 1) of
             Inl e \<Rightarrow> Inl (gzip_failure ''gRPC'' e)
           | Inr decompressed \<Rightarrow>
               if int (length decompressed) > maxBodyBytes then Inl ''decompressed gRPC body exceeds the size limit''
               else Inr decompressed)
        else Inl ''invalid gRPC compression flag'')"

definition payloadValue :: "libs \<Rightarrow> pb_message \<Rightarrow> int \<Rightarrow> json result" where
  "payloadValue L message maxBodyBytes =
     (case lb_protojson_marshal L message of
        Inl e \<Rightarrow> Inl (wrap ''encode ProtoJSON'' e)
      | Inr data \<Rightarrow>
          (if int (length data) > maxBodyBytes then Inl ''decoded payload exceeds the comparison size limit''
           else case lb_unmarshal L data of
             Inl e \<Rightarrow> Inl (wrap ''decode ProtoJSON value'' (fst e))
           | Inr v \<Rightarrow> Inr v))"

definition unmarshal_proto :: "libs \<Rightarrow> type_ref \<Rightarrow> bytes \<Rightarrow> pb_message result" where
  "unmarshal_proto L name payload =
     (case lb_proto_unmarshal L name payload of
        Inl e \<Rightarrow> Inl (wrap ''decode protobuf'' e)
      | Inr message \<Rightarrow> if contains_unknown message then Inl ''protobuf payload contains unknown fields'' else Inr message)"

definition Codec_Decode :: "libs \<Rightarrow> type_ref \<Rightarrow> wire_format \<Rightarrow> header \<Rightarrow> bytes \<Rightarrow> int \<Rightarrow> json result" where
  "Codec_Decode L name format h body maxBodyBytes =
     (case lb_message L name of
        Inl e \<Rightarrow> Inl (wrap ''resolve wire type'' e)
      | Inr _ \<Rightarrow>
          bind_result
            (case format of
               ConnectJSON \<Rightarrow>
                 (case lb_protojson_unmarshal L name body of
                    None \<Rightarrow> Inl (''invalid ProtoJSON for '' @ name)
                  | Some message \<Rightarrow> Inr message)
             | GRPC \<Rightarrow>
                 (case grpcPayload L h body maxBodyBytes of
                    Inl e \<Rightarrow> Inl (wrap ''read gRPC frame'' e)
                  | Inr payload \<Rightarrow> unmarshal_proto L name payload)
             | Protobuf \<Rightarrow> unmarshal_proto L name body)
            (\<lambda>message. payloadValue L message maxBodyBytes))"

subsection \<open>The decoder\<close>

datatype wire = wireNone | wireConnectJSON | wireGRPC | wireHTTPJSON | wireProtobuf

definition requestWire :: "libs \<Rightarrow> string \<Rightarrow> wire result" where
  "requestWire L contentType =
     (case lb_media_type L contentType of
        Inl e \<Rightarrow> Inl (''request content type is not supported: '' @ e)
      | Inr mediaType \<Rightarrow>
          (if mediaType = ''application/json'' then Inr wireConnectJSON
           else if mediaType = ''application/grpc'' \<or> mediaType = ''application/grpc+proto'' then Inr wireGRPC
           else if mediaType = ''application/x-protobuf'' \<or> mediaType = ''application/protobuf'' then Inr wireProtobuf
           else Inl (''request protocol is not supported: '' @ go_quote mediaType)))"

definition has_media_type :: "libs \<Rightarrow> header \<Rightarrow> string list \<Rightarrow> bool" where
  "has_media_type L h types =
     (case lb_media_type L (header_get h ''Content-Type'') of Inl _ \<Rightarrow> False | Inr mediaType \<Rightarrow> mediaType \<in> set types)"

definition hasJSONMediaType :: "libs \<Rightarrow> header \<Rightarrow> bool" where
  "hasJSONMediaType L h = has_media_type L h [''application/json'']"

definition hasGRPCMediaType :: "libs \<Rightarrow> header \<Rightarrow> bool" where
  "hasGRPCMediaType L h = has_media_type L h [''application/grpc'', ''application/grpc+proto'']"

definition hasProtobufMediaType :: "libs \<Rightarrow> header \<Rightarrow> bool" where
  "hasProtobufMediaType L h = has_media_type L h [''application/x-protobuf'', ''application/protobuf'']"

definition trim_space :: "string \<Rightarrow> string" where
  "trim_space s = rev (dropWhile is_space (rev (dropWhile is_space s)))"

definition decompressHTTPBody :: "libs \<Rightarrow> header \<Rightarrow> bytes \<Rightarrow> int \<Rightarrow> bytes result" where
  "decompressHTTPBody L h body maxBodyBytes =
     (let encoding = map lower_char (trim_space (header_get h ''Content-Encoding'')) in
      if encoding = [] \<or> encoding = ''identity'' then Inr body
      else if encoding = ''gzip'' \<or> encoding = ''x-gzip'' then
        (case lb_gunzip L body (maxBodyBytes + 1) of
           Inl e \<Rightarrow> Inl (gzip_failure ''gzip'' e)
         | Inr decompressed \<Rightarrow>
             if int (length decompressed) > maxBodyBytes then Inl ''decompressed body exceeds the size limit''
             else Inr decompressed)
      else Inl (''unsupported Content-Encoding: '' @ go_quote encoding))"

record 'm decoder =
  dc_schema :: schema
  dc_routes :: "'m matcher"
  dc_maxBodyBytes :: int

fun check_wildcards :: "schema \<Rightarrow> stype \<Rightarrow> string \<Rightarrow> string list \<Rightarrow> unit result" where
  "check_wildcards loaded root_type pat [] = Inr ()"
| "check_wildcards loaded root_type pat (n # ns) =
     (case resolveBinding loaded root_type n False of
        Inl e \<Rightarrow> Inl (wrap (''bind endpoint '' @ go_quote pat @ '' wildcard '' @ go_quote n) e)
      | Inr _ \<Rightarrow> check_wildcards loaded root_type pat ns)"

fun check_requests :: "schema \<Rightarrow> request_endpoint list \<Rightarrow> unit result" where
  "check_requests loaded [] = Inr ()"
| "check_requests loaded (d # ds) =
     (case Schema_Type loaded (re_type d) of
        Inl e \<Rightarrow> Inl (wrap (''resolve endpoint '' @ go_quote (re_pattern d)) e)
      | Inr root_type \<Rightarrow>
          bind_result (Wildcards (re_pattern d)) (\<lambda>ws.
          bind_result (check_wildcards loaded root_type (re_pattern d) ws) (\<lambda>_. check_requests loaded ds)))"

text \<open>\<open>New\<close>; \<open>wire\<close> is what constructing the codec from the descriptors gives.\<close>

definition New_Decoder :: "schema \<Rightarrow> unit result \<Rightarrow> 'm matcher \<Rightarrow> int \<Rightarrow> 'm decoder result" where
  "New_Decoder loaded wire routes maxBodyBytes =
     (case wire of
        Inl e \<Rightarrow> Inl (wrap ''configure wire decoding'' e)
      | Inr _ \<Rightarrow>
          bind_result (check_requests loaded (mt_declared routes)) (\<lambda>_.
          Inr \<lparr>dc_schema = loaded, dc_routes = routes, dc_maxBodyBytes = maxBodyBytes\<rparr>))"

definition decodePayload :: "libs \<Rightarrow> 'm decoder \<Rightarrow> stype \<Rightarrow> wire \<Rightarrow> header \<Rightarrow> bytes \<Rightarrow> json result" where
  "decodePayload L d root_type selected h body =
     (if selected = wireHTTPJSON then
        (if body = [] then Inr (JObject [])
         else if \<not> hasJSONMediaType L h then Inl (''body is not JSON: '' @ go_quote (header_get h ''Content-Type''))
         else
           bind_result (decompressHTTPBody L h body (dc_maxBodyBytes d)) (\<lambda>decompressed.
           case lb_unmarshal L decompressed of
             Inl e \<Rightarrow> Inl (wrap ''decode JSON'' (jsonError e))
           | Inr payload \<Rightarrow> Inr payload))
      else
        case (case selected of wireConnectJSON \<Rightarrow> Some ConnectJSON | wireGRPC \<Rightarrow> Some GRPC | wireProtobuf \<Rightarrow> Some Protobuf | _ \<Rightarrow> None) of
          None \<Rightarrow> Inl ''unknown wire protocol: 0''
        | Some format \<Rightarrow>
            (case Codec_Decode L (ty_name root_type) format h body (dc_maxBodyBytes d) of
               Inl e \<Rightarrow> Inl (wrap ''decode wire payload'' e)
             | Inr payload \<Rightarrow> Inr payload))"

definition decodeResponse :: "libs \<Rightarrow> 'm decoder \<Rightarrow> stype \<Rightarrow> wire \<Rightarrow> header \<Rightarrow> bytes \<Rightarrow> json result" where
  "decodeResponse L d root_type selected h body =
     bind_result (decodePayload L d root_type selected h body) (\<lambda>payload.
     case Validate (dc_schema d) (ty_name root_type) payload of
       Some e \<Rightarrow> Inl (wrap ''validate response'' e)
     | None \<Rightarrow> Inr payload)"

definition bound_payload :: "libs \<Rightarrow> 'm decoder \<Rightarrow> stype \<Rightarrow> wire \<Rightarrow> request \<Rightarrow> (string \<times> string) list \<Rightarrow> json \<Rightarrow> json result" where
  "bound_payload L d input selected request wildcards payload =
     (if selected = wireHTTPJSON then
        (case payload of
           JObject m \<Rightarrow> bind_result (bindHTTPParameters L (dc_schema d) input m request wildcards) (\<lambda>m'. Inr (JObject m'))
         | _ \<Rightarrow> Inl ''HTTP request body must be an object'')
      else Inr payload)"

definition decodeRequest :: "libs \<Rightarrow> 'm decoder \<Rightarrow> stype \<Rightarrow> wire \<Rightarrow> request \<Rightarrow> (string \<times> string) list \<Rightarrow> json result" where
  "decodeRequest L d input selected request wildcards =
     bind_result (decodePayload L d input selected (mr_header request) (mr_body request)) (\<lambda>payload.
     bind_result (bound_payload L d input selected request wildcards payload) (\<lambda>bound.
     case Validate (dc_schema d) (ty_name input) bound of
       Some e \<Rightarrow> Inl (wrap ''validate request'' e)
     | None \<Rightarrow>
         (case lb_marshal L bound of
            Inl e \<Rightarrow> Inl (wrap ''encode bound request'' e)
          | Inr encoded \<Rightarrow>
              if int (length encoded) > dc_maxBodyBytes d then Inl ''decoded payload exceeds the comparison size limit''
              else Inr bound)))"

definition trim_slashes :: "string \<Rightarrow> string" where
  "trim_slashes s = rev (dropWhile (\<lambda>c. c = CHR ''/'') (rev (dropWhile (\<lambda>c. c = CHR ''/'') s)))"

definition rpcMethod :: "string \<Rightarrow> string option" where
  "rpcMethod path =
     (let parts = split_on (CHR ''/'') (trim_slashes path) in
      if length parts < 2 then None
      else Some (parts ! (length parts - 2) @ ''.'' @ parts ! (length parts - 1)))"

definition streamingMethod :: "libs \<Rightarrow> string \<Rightarrow> string option" where
  "streamingMethod L path = (case rpcMethod path of Some name \<Rightarrow> if Streaming L name then Some name else None | None \<Rightarrow> None)"

definition conventionalMethod :: "libs \<Rightarrow> 'm decoder \<Rightarrow> string \<Rightarrow> operation result" where
  "conventionalMethod L d path =
     (case rpcMethod path of
        None \<Rightarrow> Inl (''RPC path does not identify a method: '' @ go_quote path)
      | Some name \<Rightarrow>
          (if Streaming L name then Inl (''streaming RPC comparison is not supported: '' @ name)
           else case Schema_Operation (dc_schema d) name of
             Inl e \<Rightarrow> Inl (wrap ''RPC method is absent from the comparison schema'' e)
           | Inr op \<Rightarrow> Inr op))"

text \<open>The end of \<open>Request\<close>, once the type and the wire are known.\<close>

definition request_message :: "libs \<Rightarrow> 'm decoder \<Rightarrow> type_ref \<Rightarrow> wire \<Rightarrow> request \<Rightarrow> (string \<times> string) list \<Rightarrow> message result" where
  "request_message L d name selected request wildcards =
     (case Schema_Type (dc_schema d) name of
        Inl e \<Rightarrow> Inl (wrap ''endpoint type is unusable'' e)
      | Inr root_type \<Rightarrow>
          (case decodeRequest L d root_type selected request wildcards of
             Inl e \<Rightarrow> Inl (wrap (''decode request as '' @ ty_name root_type) e)
           | Inr payload \<Rightarrow> Inr \<lparr>ms_type = Some (ty_name root_type), ms_value = payload\<rparr>))"

definition Decoder_Request :: "'m serve_mux \<Rightarrow> libs \<Rightarrow> 'm decoder \<Rightarrow> request \<Rightarrow> message result" where
  "Decoder_Request M L d request =
     (if mr_overflow request then Inl ''request exceeds the comparison size limit''
      else
        let declared = Matcher_Request M (dc_routes d) (mr_method request) (mr_host request) (mr_path request);
            wire = requestWire L (header_get (mr_header request) ''Content-Type'');
            selected = (if declared \<noteq> None \<and> wire \<noteq> Inr wireGRPC \<and> wire \<noteq> Inr wireProtobuf then Inr wireHTTPJSON else wire)
        in
        bind_result selected (\<lambda>w.
        bind_result
          (case declared of
             Some (endpoint, _) \<Rightarrow> Inr (re_type endpoint)
           | None \<Rightarrow> bind_result (conventionalMethod L d (mr_path request)) (\<lambda>op. Inr (op_request op)))
          (\<lambda>name. request_message L d name w request (case declared of Some (_, ws) \<Rightarrow> ws | None \<Rightarrow> []))))"

subsection \<open>Decoding responses\<close>

record decoding =
  dg_root :: "stype option"
  dg_selected :: wire
  dg_requestMethod :: string
  dg_text :: bool
  dg_failure :: "string option"
  dg_ignored :: "string option"

definition newDecoding :: "stype \<Rightarrow> wire \<Rightarrow> string \<Rightarrow> decoding" where
  "newDecoding root_type selected requestMethod =
     \<lparr>dg_root = Some root_type, dg_selected = selected, dg_requestMethod = requestMethod, dg_text = False,
      dg_failure = None, dg_ignored = None\<rparr>"

definition textDecoding :: "string \<Rightarrow> decoding" where
  "textDecoding requestMethod =
     \<lparr>dg_root = None, dg_selected = wireNone, dg_requestMethod = requestMethod, dg_text = True, dg_failure = None, dg_ignored = None\<rparr>"

definition failedDecoding :: "string \<Rightarrow> decoding" where
  "failedDecoding e =
     \<lparr>dg_root = None, dg_selected = wireNone, dg_requestMethod = [], dg_text = False, dg_failure = Some e, dg_ignored = None\<rparr>"

definition ignoredDecoding :: "string \<Rightarrow> decoding" where
  "ignoredDecoding reason =
     \<lparr>dg_root = None, dg_selected = wireNone, dg_requestMethod = [], dg_text = False, dg_failure = None, dg_ignored = Some reason\<rparr>"

definition newContent :: "string option \<Rightarrow> message option result \<Rightarrow> content" where
  "newContent status decoded =
     (case decoded of
        Inl e \<Rightarrow> \<lparr>ct_status = status, ct_message = None, ct_failure = Some e, ct_ignored = None, ct_rule = None\<rparr>
      | Inr message \<Rightarrow> \<lparr>ct_status = status, ct_message = message, ct_failure = None, ct_ignored = None, ct_rule = None\<rparr>)"

definition bodyless :: "decoding \<Rightarrow> transport_response \<Rightarrow> bool" where
  "bodyless p response \<longleftrightarrow> dg_requestMethod p = ''HEAD'' \<or> tr_status response = 204 \<or> tr_status response = 304"

definition decodeText :: "libs \<Rightarrow> 'm decoder \<Rightarrow> decoding \<Rightarrow> transport_response \<Rightarrow> message option result" where
  "decodeText L d p response =
     (if bodyless p response \<and> tr_body response = [] then Inr None
      else
        bind_result (decompressHTTPBody L (tr_header response) (tr_body response) (dc_maxBodyBytes d)) (\<lambda>body.
        if \<not> utf8_valid body then Inl ''Text body is not UTF-8''
        else Inr (Some \<lparr>ms_type = None, ms_value = JString body\<rparr>)))"

definition decodeTyped :: "libs \<Rightarrow> 'm decoder \<Rightarrow> decoding \<Rightarrow> transport_response \<Rightarrow> message option result" where
  "decodeTyped L d p response =
     (case dg_root p of
        None \<Rightarrow> Inl ''runtime error: nil type''
      | Some root_type \<Rightarrow>
          (case decodeResponse L d root_type (dg_selected p) (tr_header response) (tr_body response) of
             Inl e \<Rightarrow> Inl (wrap (''decode response as '' @ ty_name root_type) e)
           | Inr payload \<Rightarrow> Inr (Some \<lparr>ms_type = Some (ty_name root_type), ms_value = payload\<rparr>)))"

definition connectErrorPayload :: "libs \<Rightarrow> bytes \<Rightarrow> json result" where
  "connectErrorPayload L body =
     (case lb_unmarshal L (if trim_space body = [] then ''null'' else body) of
        Inl e \<Rightarrow> Inl (wrap ''decode Connect error JSON'' (jsonError e))
      | Inr payload \<Rightarrow> Inr payload)"

definition decodeConnect :: "libs \<Rightarrow> 'm decoder \<Rightarrow> decoding \<Rightarrow> transport_response \<Rightarrow> message option result" where
  "decodeConnect L d p response =
     (if \<not> hasJSONMediaType L (tr_header response)
      then Inl (''Connect response is not JSON: '' @ go_quote (header_get (tr_header response) ''Content-Type''))
      else if tr_status response \<noteq> 200 then
        (case connectErrorPayload L (tr_body response) of
           Inl e \<Rightarrow> Inl (wrap ''Connect error response contains malformed JSON'' e)
         | Inr payload \<Rightarrow> Inr (Some \<lparr>ms_type = None, ms_value = payload\<rparr>))
      else decodeTyped L d p response)"

definition decodeHTTPJSON :: "libs \<Rightarrow> 'm decoder \<Rightarrow> decoding \<Rightarrow> transport_response \<Rightarrow> message option result" where
  "decodeHTTPJSON L d p response =
     (if bodyless p response \<and> tr_body response = [] then Inr None else decodeTyped L d p response)"

definition decodeProtobuf :: "libs \<Rightarrow> 'm decoder \<Rightarrow> decoding \<Rightarrow> transport_response \<Rightarrow> message option result" where
  "decodeProtobuf L d p response =
     (if tr_status response \<noteq> 200 then Inr None
      else if \<not> hasProtobufMediaType L (tr_header response)
      then Inl (''protobuf response has an invalid content type: '' @ go_quote (header_get (tr_header response) ''Content-Type''))
      else decodeTyped L d p response)"

definition grpcStatus :: "transport_response \<Rightarrow> int result" where
  "grpcStatus response =
     (let fromHeader = header_get (tr_header response) ''Grpc-Status'';
          v = (if fromHeader = [] then header_get (tr_trailer response) ''Grpc-Status'' else fromHeader)
      in case atoi v of
           Inl cause \<Rightarrow> Inl (wrap ''parse gRPC status'' (numberError ''Atoi'' cause))
         | Inr status \<Rightarrow> if status < 0 then Inl (''gRPC status is negative: '' @ show_int status) else Inr status)"

definition decodeGRPC :: "libs \<Rightarrow> 'm decoder \<Rightarrow> decoding \<Rightarrow> transport_response \<Rightarrow> content" where
  "decodeGRPC L d p response =
     (if tr_status response \<noteq> 200
      then newContent (Some (show_int (tr_status response))) (Inl (''gRPC response has HTTP status '' @ show_int (tr_status response)))
      else if \<not> hasGRPCMediaType L (tr_header response)
      then newContent None (Inl (''gRPC response has an invalid content type: '' @ go_quote (header_get (tr_header response) ''Content-Type'')))
      else case grpcStatus response of
        Inl e \<Rightarrow> newContent None (Inl (wrap ''response has no valid gRPC status'' e))
      | Inr code \<Rightarrow>
          newContent (Some (''grpc-status '' @ show_int code)) (if code \<noteq> 0 then Inr None else decodeTyped L d p response))"

definition decode :: "libs \<Rightarrow> 'm decoder \<Rightarrow> decoding \<Rightarrow> transport_response \<Rightarrow> content" where
  "decode L d p response =
     (let status = Some (show_int (tr_status response)) in
      case dg_ignored p of
        Some reason \<Rightarrow> \<lparr>ct_status = status, ct_message = None, ct_failure = None, ct_ignored = Some reason, ct_rule = None\<rparr>
      | None \<Rightarrow>
          (case dg_failure p of
             Some failure \<Rightarrow> \<lparr>ct_status = status, ct_message = None, ct_failure = Some failure, ct_ignored = None, ct_rule = None\<rparr>
           | None \<Rightarrow>
               (if dg_text p then newContent status (decodeText L d p response)
                else case dg_selected p of
                  wireGRPC \<Rightarrow> decodeGRPC L d p response
                | wireConnectJSON \<Rightarrow> newContent status (decodeConnect L d p response)
                | wireHTTPJSON \<Rightarrow> newContent status (decodeHTTPJSON L d p response)
                | wireProtobuf \<Rightarrow> newContent status (decodeProtobuf L d p response)
                | wireNone \<Rightarrow> newContent status (Inl ''unknown wire protocol: 0''))))"

subsection \<open>Plans for the responses to a request\<close>

record response_plan =
  rp_request :: http_request
  rp_rules :: "rule list"
  rp_requested :: wire
  rp_unruled :: decoding

definition excludedRequestPath :: "string \<Rightarrow> bool" where
  "excludedRequestPath path \<longleftrightarrow> take 5 (trim_slashes path) = ''grpc.''"

definition connectGet :: "string \<Rightarrow> string \<Rightarrow> bool" where
  "connectGet method rawQuery =
     (case parse_query rawQuery of
        Inl _ \<Rightarrow> False
      | Inr query \<Rightarrow> method = ''GET'' \<and> (case map_of query ''encoding'' of Some (v # _) \<Rightarrow> v = ''json'' | _ \<Rightarrow> False))"

definition typed_decoding :: "'m decoder \<Rightarrow> type_ref \<Rightarrow> wire \<Rightarrow> string \<Rightarrow> decoding" where
  "typed_decoding d name selected method =
     (case Schema_Type (dc_schema d) name of
        Inl e \<Rightarrow> failedDecoding (wrap ''endpoint type is unusable'' e)
      | Inr root_type \<Rightarrow> newDecoding root_type selected method)"

definition unruled :: "libs \<Rightarrow> 'm decoder \<Rightarrow> string \<Rightarrow> string \<Rightarrow> string \<Rightarrow> header \<Rightarrow> decoding" where
  "unruled L d method path rawQuery h =
     (let contentType = header_get h ''Content-Type'';
          selected = (case requestWire L contentType of
             Inl e \<Rightarrow> if contentType = [] \<and> connectGet method rawQuery then Inr wireConnectJSON else Inl e
           | Inr w \<Rightarrow> Inr w)
      in case selected of
           Inl e \<Rightarrow> ignoredDecoding e
         | Inr w \<Rightarrow>
             (case streamingMethod L path of
                Some op \<Rightarrow> ignoredDecoding (''streaming RPC comparison is not supported: '' @ op)
              | None \<Rightarrow>
                  (case conventionalMethod L d path of
                     Inl e \<Rightarrow> failedDecoding e
                   | Inr op \<Rightarrow> typed_decoding d (op_response op) w method)))"

definition matched :: "'m decoder \<Rightarrow> type_ref option \<Rightarrow> wire \<Rightarrow> string \<Rightarrow> decoding" where
  "matched d name requested method =
     (case name of
        None \<Rightarrow> textDecoding method
      | Some n \<Rightarrow> typed_decoding d n (if requested \<noteq> wireGRPC \<and> requested \<noteq> wireProtobuf then wireHTTPJSON else requested) method)"

definition Decoder_Responses :: "'m serve_mux \<Rightarrow> libs \<Rightarrow> 'm decoder \<Rightarrow> string \<Rightarrow> string \<Rightarrow> string \<Rightarrow> header \<Rightarrow> response_plan" where
  "Decoder_Responses M L d method path rawQuery h =
     (let request = \<lparr>hq_method = method, hq_path = path, hq_header = h\<rparr>;
          ignoring = (\<lambda>reason. \<lparr>rp_request = request, rp_rules = [], rp_requested = wireNone, rp_unruled = ignoredDecoding reason\<rparr>)
      in
      if excludedRequestPath path then ignoring ''gRPC namespace is excluded from response comparison''
      else case Responses M (dc_routes d) method path h of
        (rules, Some reason) \<Rightarrow> ignoring reason
      | (rules, None) \<Rightarrow>
          \<lparr>rp_request = request, rp_rules = rules,
           rp_requested = (case requestWire L (header_get h ''Content-Type'') of Inl _ \<Rightarrow> wireHTTPJSON | Inr w \<Rightarrow> w),
           rp_unruled = unruled L d method path rawQuery h\<rparr>)"

definition Plan_Ignored :: "response_plan \<Rightarrow> string option" where
  "Plan_Ignored p = (if rp_rules p \<noteq> [] then None else dg_ignored (rp_unruled p))"

definition Plan_Decode :: "libs \<Rightarrow> 'm decoder \<Rightarrow> scripts \<Rightarrow> 'js created \<Rightarrow> response_plan \<Rightarrow> transport_response \<Rightarrow> content" where
  "Plan_Decode L d s created p response =
     (if rp_rules p = [] then decode L d (rp_unruled p) response
      else
        let status = Some (show_int (tr_status response)) in
        case SelectRule s created (rp_rules p) (rp_request p) \<lparr>hs_status = tr_status response, hs_header = tr_header response\<rparr> of
          Inl e \<Rightarrow> \<lparr>ct_status = status, ct_message = None, ct_failure = Some (wrap ''select rule'' e), ct_ignored = None, ct_rule = None\<rparr>
        | Inr None \<Rightarrow> decode L d (rp_unruled p) response
        | Inr (Some r) \<Rightarrow>
            (case ru_action r of
               ActionIgnore \<Rightarrow>
                 \<lparr>ct_status = status, ct_message = None, ct_failure = None,
                  ct_ignored = Some (''rule '' @ Rule_String r @ '' ignores the response''), ct_rule = None\<rparr>
             | ActionMatch name normalises \<Rightarrow>
                 (decode L d (matched d name (rp_requested p) (hq_method (rp_request p))) response)\<lparr>ct_rule := Some r\<rparr>))"

subsection \<open>Decoded messages conform to the schema\<close>

abbreviation conforms :: "schema \<Rightarrow> type_ref \<Rightarrow> json \<Rightarrow> bool" where
  "conforms loaded name v \<equiv> instance_of loaded (Value KindObject [] None name) v"

lemma Validate_conforms: "Validate loaded name v = None \<longleftrightarrow> conforms loaded name v"
  by (simp add: Validate_def validate_correct)

lemma decodeRequest_conforms:
  "decodeRequest L d input selected request wildcards = Inr v \<Longrightarrow>
   conforms (dc_schema d) (ty_name input) v
   \<and> (\<exists>encoded. lb_marshal L v = Inr encoded \<and> int (length encoded) \<le> dc_maxBodyBytes d)"
  by (auto simp: decodeRequest_def Validate_conforms split: option.splits sum.splits if_splits)

lemma decodeResponse_conforms:
  "decodeResponse L d root_type selected h body = Inr v \<Longrightarrow> conforms (dc_schema d) (ty_name root_type) v"
  by (auto simp: decodeResponse_def Validate_conforms split: option.splits)

definition message_ok :: "schema \<Rightarrow> message \<Rightarrow> bool" where
  "message_ok loaded m \<longleftrightarrow> (case ms_type m of Some name \<Rightarrow> conforms loaded name (ms_value m) | None \<Rightarrow> True)"

lemma decodeTyped_ok: "decodeTyped L d p response = Inr (Some m) \<Longrightarrow> message_ok (dc_schema d) m"
  by (auto simp: decodeTyped_def message_ok_def dest: decodeResponse_conforms split: option.splits sum.splits)

lemma newContent_ok:
  "ct_message (newContent status r) = Some m \<longleftrightarrow> r = Inr (Some m)"
  by (auto simp: newContent_def split: sum.splits)

lemma decode_ok:
  assumes "ct_message (decode L d p response) = Some m"
  shows "message_ok (dc_schema d) m"
proof -
  have connect: "decodeConnect L d p response = Inr (Some m) \<Longrightarrow> message_ok (dc_schema d) m"
    by (auto simp: decodeConnect_def message_ok_def [of _ "\<lparr>ms_type = None, ms_value = _\<rparr>"] decodeTyped_ok split: if_splits sum.splits)
  have others: "decodeText L d p response = Inr (Some m) \<Longrightarrow> message_ok (dc_schema d) m"
    "decodeHTTPJSON L d p response = Inr (Some m) \<Longrightarrow> message_ok (dc_schema d) m"
    "decodeProtobuf L d p response = Inr (Some m) \<Longrightarrow> message_ok (dc_schema d) m"
    by (auto simp: decodeText_def message_ok_def [of _ "\<lparr>ms_type = None, ms_value = _\<rparr>"] decodeHTTPJSON_def decodeProtobuf_def decodeTyped_ok
        split: if_splits)
  have grpc: "ct_message (decodeGRPC L d p response) = Some m \<Longrightarrow> message_ok (dc_schema d) m"
    by (auto simp: decodeGRPC_def newContent_ok decodeTyped_ok split: if_splits sum.splits)
  show ?thesis
  proof (cases "dg_ignored p = None \<and> dg_failure p = None")
    case True
    then show ?thesis using assms connect others grpc
      by (cases "dg_selected p") (auto simp: decode_def Let_def newContent_ok split: if_splits)
  next
    case False
    then show ?thesis using assms by (auto simp: decode_def Let_def split: option.splits)
  qed
qed


subsection \<open>Binding never overwrites\<close>

text \<open>A payload extends another when it keeps all its values and only adds members to objects.\<close>

inductive extends :: "json \<Rightarrow> json \<Rightarrow> bool" where
  extends_refl: "extends v v"
| extends_object: "(\<And>k v. map_of m k = Some v \<Longrightarrow> \<exists>v'. map_of m' k = Some v' \<and> extends v v') \<Longrightarrow>
    extends (JObject m) (JObject m')"

lemma extends_trans: "extends a b \<Longrightarrow> extends b c \<Longrightarrow> extends a c"
proof (induction arbitrary: c rule: extends.induct)
  case (extends_object m m')
  note outer = extends_object.IH
  from extends_object.prems show ?case
  proof cases
    case extends_refl
    have "extends (JObject m) (JObject m')" by (rule extends.extends_object) (use outer in blast)
    with extends_refl show ?thesis by simp
  next
    case (extends_object m'')
    have "extends (JObject m) (JObject m'')"
      by (rule extends.extends_object) (use outer extends_object(2) in metis)
    with extends_object show ?thesis by simp
  qed
qed

fun is_object :: "json \<Rightarrow> bool" where
  "is_object (JObject m) = True"
| "is_object v = False"

abbreviation field_path :: "field list \<Rightarrow> document_path" where
  "field_path path \<equiv> map (\<lambda>f. FieldPart (fl_name f)) path"

lemma extends_leaf: "extends a b \<Longrightarrow> \<not> is_object a \<Longrightarrow> b = a"
  by (induction rule: extends.induct) auto

lemma extends_path:
  "extends a b \<Longrightarrow> path_value a (map FieldPart ns) = Some v \<Longrightarrow> \<exists>w. path_value b (map FieldPart ns) = Some w \<and> extends v w"
proof (induction ns arbitrary: a b)
  case (Cons n ns)
  from Cons.prems(2) obtain m x where a: "a = JObject m" "map_of m n = Some x" "path_value x (map FieldPart ns) = Some v"
    by (cases a) (auto split: option.splits)
  from Cons.prems(1) a(1) obtain m' where b: "b = JObject m'"
    "\<And>k v. map_of m k = Some v \<Longrightarrow> \<exists>v'. map_of m' k = Some v' \<and> extends v v'"
    by (cases rule: extends.cases) (auto intro: extends_refl)
  obtain y where "map_of m' n = Some y" "extends x y" using b(2) [OF a(2)] by blast
  with Cons.IH a(3) b(1) show ?case by simp
qed simp

lemma field_value_leaf: "field_value L name raws f = Inr v \<Longrightarrow> \<not> is_object v"
proof -
  have "parseScalar L e raw = Inr x \<Longrightarrow> \<not> is_object x" for e raw x
    by (auto simp: parseScalar_def split: kind.splits if_splits sum.splits option.splits)
  then show "field_value L name raws f = Inr v \<Longrightarrow> \<not> is_object v"
    by (auto simp: field_value_def split: if_splits list.splits sum.splits option.splits)
qed

lemma field_value_ok: "field_value L name raws f = Inr v \<Longrightarrow> json_ok v"
proof -
  have scalar: "parseScalar L e raw = Inr x \<Longrightarrow> json_ok x" for e raw x
    by (auto simp: parseScalar_def split: kind.splits if_splits sum.splits option.splits)
  have "parse_list L name e raws = Inr xs \<Longrightarrow> list_all json_ok xs" for e raws xs
    by (induction raws arbitrary: xs) (auto split: sum.splits dest: scalar)
  then show "field_value L name raws f = Inr v \<Longrightarrow> json_ok v"
    by (auto simp: field_value_def split: if_splits list.splits sum.splits option.splits dest: scalar)
qed

lemma bind_at_ok:
  assumes "bind_at L name raws path m = Inr m'" "json_ok (JObject m)"
  shows "json_ok (JObject m') \<and> extends (JObject m) (JObject m') \<and> path \<noteq> []
    \<and> (\<exists>v. field_value L name raws (last path) = Inr v \<and> path_value (JObject m') (field_path path) = Some v)
    \<and> path_value (JObject m) (field_path path) = None"
  using assms
proof (induction L name raws path m arbitrary: m' rule: bind_at.induct)
  case (2 L name raws f m)
  then obtain v where v: "map_of m (fl_name f) = None" "field_value L name raws f = Inr v" "m' = map_put (fl_name f) v m"
    by (auto split: if_splits)
  have "json_ok (JObject m')" using json_ok_put [OF 2(2) field_value_ok [OF v(2)]] v(3) by simp
  moreover have "extends (JObject m) (JObject m')"
    using v(1,3) 2(2) by (auto intro!: extends_object extends_refl)
  ultimately show ?case using v 2(2) by simp
next
  case (3 L name raws parent f fs m)
  let ?old = "case map_of m (fl_name parent) of None \<Rightarrow> JObject [] | Some v \<Rightarrow> v"
  from 3(2) obtain inner inner' where inner: "?old = JObject inner" "bind_at L name raws (f # fs) inner = Inr inner'"
      "m' = map_put (fl_name parent) (JObject inner') m"
    by (cases ?old) auto
  have ordered: "ordered_map m" using 3(3) by simp
  have "json_ok (JObject inner)"
    using inner(1) 3(3) by (auto split: option.splits dest: json_ok_member)
  note IH = 3(1) [OF inner(1,2) this]
  have "json_ok (JObject m')" using json_ok_put [OF 3(3)] IH inner(3) by blast
  moreover have "extends (JObject m) (JObject m')"
  proof (rule extends_object)
    fix k v assume k: "map_of m k = Some v"
    show "\<exists>v'. map_of m' k = Some v' \<and> extends v v'"
      using IH k inner(1) ordered unfolding inner(3) by (auto intro: extends_refl split: option.splits)
  qed
  moreover have "path_value (JObject m) (field_path (parent # f # fs)) = None"
    using IH inner(1) by (auto split: option.splits)
  moreover have "path_value (JObject m') (field_path (parent # f # fs)) = path_value (JObject inner') (field_path (f # fs))"
    using inner(3) ordered by simp
  ultimately show ?case using IH by (simp del: path_value.simps)
qed simp

text \<open>One parameter bound to its field.\<close>

definition bound_to :: "libs \<Rightarrow> schema \<Rightarrow> stype \<Rightarrow> bool \<Rightarrow> json \<Rightarrow> json \<Rightarrow> string \<times> string list \<Rightarrow> bool" where
  "bound_to L loaded root_type repeatable old new p \<longleftrightarrow>
     (\<exists>path v. resolveBinding loaded root_type (fst p) repeatable = Inr path
        \<and> field_value L (fst p) (snd p) (last path) = Inr v
        \<and> path_value old (field_path path) = None \<and> path_value new (field_path path) = Some v)"

lemma bound_to_extends:
  assumes "bound_to L loaded root_type repeatable b a p" "extends a a'"
  shows "bound_to L loaded root_type repeatable b a' p"
proof -
  from assms(1) obtain path v where v: "resolveBinding loaded root_type (fst p) repeatable = Inr path"
      "field_value L (fst p) (snd p) (last path) = Inr v" "path_value b (field_path path) = None"
      "path_value a (field_path path) = Some v"
    by (auto simp: bound_to_def)
  have "\<exists>w. path_value a' (field_path path) = Some w \<and> extends v w"
    using extends_path [OF assms(2), of "map fl_name path" v] v(4) by (simp add: o_def)
  then have "path_value a' (field_path path) = Some v"
    using extends_leaf field_value_leaf [OF v(2)] by metis
  with v show ?thesis by (auto simp: bound_to_def)
qed

lemma bound_to_before:
  assumes "bound_to L loaded root_type repeatable b a p" "extends b' b"
  shows "bound_to L loaded root_type repeatable b' a p"
proof -
  from assms(1) obtain path v where v: "resolveBinding loaded root_type (fst p) repeatable = Inr path"
      "field_value L (fst p) (snd p) (last path) = Inr v" "path_value b (field_path path) = None"
      "path_value a (field_path path) = Some v"
    by (auto simp: bound_to_def)
  have "path_value b' (field_path path) = None"
  proof (rule ccontr)
    assume "path_value b' (field_path path) \<noteq> None"
    then obtain w where "path_value b' (map FieldPart (map fl_name path)) = Some w" by (auto simp: o_def)
    from extends_path [OF assms(2) this] v(3) show False by (simp add: o_def)
  qed
  with v show ?thesis by (auto simp: bound_to_def)
qed

lemma bind_all_ok:
  "bind_all L loaded root_type what repeatable ps m = Inr m' \<Longrightarrow> json_ok (JObject m) \<Longrightarrow>
   json_ok (JObject m') \<and> extends (JObject m) (JObject m')
   \<and> (\<forall>p \<in> set ps. bound_to L loaded root_type repeatable (JObject m) (JObject m') p)"
proof (induction ps arbitrary: m)
  case (Cons p ps)
  obtain name raws where p: "p = (name, raws)" by (cases p)
  from Cons.prems(1) obtain m1 where m1: "bindField L loaded root_type m name raws repeatable = Inr m1"
      "bind_all L loaded root_type what repeatable ps m1 = Inr m'"
    unfolding p by (auto split: sum.splits)
  then obtain path where path: "resolveBinding loaded root_type name repeatable = Inr path" "bind_at L name raws path m = Inr m1"
    by (auto simp: bindField_def)
  note first = bind_at_ok [OF path(2) Cons.prems(2)]
  then have IH: "json_ok (JObject m')" "extends (JObject m1) (JObject m')"
      "\<forall>p \<in> set ps. bound_to L loaded root_type repeatable (JObject m1) (JObject m') p"
    using Cons.IH [OF m1(2)] by auto
  have "bound_to L loaded root_type repeatable (JObject m) (JObject m1) p"
    using first path(1) p unfolding bound_to_def by auto
  then have "bound_to L loaded root_type repeatable (JObject m) (JObject m') p" using bound_to_extends IH(2) by blast
  moreover have "\<forall>p \<in> set ps. bound_to L loaded root_type repeatable (JObject m) (JObject m') p"
    using IH(3) first bound_to_before by blast
  ultimately show ?case using first IH extends_trans by auto
qed (simp add: extends_refl)

lemma sorted_wildcards_set:
  "distinct (map fst ws) \<Longrightarrow> (n, v) \<in> set ws \<Longrightarrow> (n, [v]) \<in> set (sorted_wildcards ws)"
proof -
  have put: "ordered_map m \<Longrightarrow> map_of (fold (\<lambda>(n, v). map_put n [v]) ws m) k
      = (case map_of (rev ws) k of Some v \<Rightarrow> Some [v] | None \<Rightarrow> map_of m k) \<and> ordered_map (fold (\<lambda>(n, v). map_put n [v]) ws m)"
    for ws m and k :: string
    by (induction ws arbitrary: m) (auto simp: map_add_def split: option.splits)
  assume "distinct (map fst ws)" "(n, v) \<in> set ws"
  then have "map_of (rev ws) n = Some v" by (simp add: map_of_is_SomeI rev_map flip: rev_map)
  then show "(n, [v]) \<in> set (sorted_wildcards ws)"
    using put [of "[]" ws n] by (auto simp: sorted_wildcards_def intro: map_of_SomeD)
qed

text \<open>
  C39. Binding never overwrites: when the path and query parameters of a request are bound, every
  value of the body is kept, only objects gain members, and each parameter is the value of its field,
  which nothing had bound before.
\<close>

theorem bindings_exact:
  assumes "bindHTTPParameters L loaded root_type m request wildcards = Inr m'" "json_ok (JObject m)"
    "distinct (map fst wildcards)"
  shows "extends (JObject m) (JObject m')
    \<and> (\<forall>(n, v) \<in> set wildcards. bound_to L loaded root_type False (JObject m) (JObject m') (n, [v]))
    \<and> (\<exists>query. parse_query (mr_rawQuery request) = Inr query
         \<and> (\<forall>p \<in> set query. bound_to L loaded root_type True (JObject m) (JObject m') p))"
proof -
  from assms(1) obtain m1 query where steps:
      "bind_all L loaded root_type ''path wildcard'' False (sorted_wildcards wildcards) m = Inr m1"
      "parse_query (mr_rawQuery request) = Inr query"
      "bind_all L loaded root_type ''query parameter'' True query m1 = Inr m'"
    by (cases "parse_query (mr_rawQuery request)") (auto simp: bindHTTPParameters_def split: if_splits)
  note a = bind_all_ok [OF steps(1) assms(2)]
  then have b: "extends (JObject m1) (JObject m')" "\<forall>p \<in> set query. bound_to L loaded root_type True (JObject m1) (JObject m') p"
    using bind_all_ok [OF steps(3)] by auto
  have "bound_to L loaded root_type False (JObject m) (JObject m') (n, [v])" if "(n, v) \<in> set wildcards" for n v
    using a sorted_wildcards_set [OF assms(3) that] bound_to_extends [OF _ b(1)] by blast
  moreover have "extends (JObject m) (JObject m')" using a b(1) extends_trans by blast
  moreover have "\<forall>p \<in> set query. bound_to L loaded root_type True (JObject m) (JObject m') p"
    using a b(2) bound_to_before by blast
  ultimately show ?thesis using steps(2) by blast
qed

subsection \<open>gRPC frames\<close>

definition uint32_bytes :: "nat \<Rightarrow> bytes" where
  "uint32_bytes n = [char_of (n div 16777216), char_of (n div 65536), char_of (n div 256), char_of n]"

definition grpc_frame :: "bytes \<Rightarrow> bytes" where
  "grpc_frame payload = char_of (0 :: nat) # uint32_bytes (length payload) @ payload"

lemma digits_256:
  fixes w x y z :: nat
  assumes "w < 256" "x < 256" "y < 256" "z < 256"
  defines "n \<equiv> 16777216 * w + 65536 * x + 256 * y + z"
  shows "n div 16777216 = w" "n div 65536 = x + 256 * w" "n div 256 = y + 256 * (x + 256 * w)" "n < 4294967296"
proof -
  show "n div 16777216 = w" unfolding n_def by (rule div_nat_eqI) (use assms(1-4) in auto)
  show "n div 65536 = x + 256 * w" unfolding n_def by (rule div_nat_eqI) (use assms(1-4) in auto)
  show "n div 256 = y + 256 * (x + 256 * w)" unfolding n_def by (rule div_nat_eqI) (use assms(1-4) in auto)
  show "n < 4294967296" unfolding n_def using assms(1-4) by linarith
qed

lemma uint32_be_digits:
  assumes "length b = 4"
  obtains w x y z where "b = [w, x, y, z]"
    "uint32_be b = 16777216 * of_char w + 65536 * of_char x + 256 * of_char y + of_char z"
proof -
  from assms obtain w x y z where "b = [w, x, y, z]"
    by (auto simp: numeral_eq_Suc length_Suc_conv)
  then show thesis using that by (simp add: uint32_be_def)
qed

lemmas bytes_256 = digits_256 [OF nat_of_char_less_256 nat_of_char_less_256 nat_of_char_less_256 nat_of_char_less_256]

lemma uint32_bound: "length b = 4 \<Longrightarrow> uint32_be b < 2 ^ 32"
  by (erule uint32_be_digits) (simp add: bytes_256(4))

lemma char_of_add_256: "char_of (of_char c + 256 * k :: nat) = c"
proof -
  have "(of_char c + 256 * k) mod 256 = (of_char c :: nat)" by simp
  then show ?thesis by (metis char_of_mod_256 char_of_char)
qed

lemma uint32_roundtrip:
  assumes "length b = 4"
  shows "uint32_bytes (uint32_be b) = b"
proof -
  obtain w x y z where b: "b = [w, x, y, z]"
    and n: "uint32_be b = 16777216 * of_char w + 65536 * of_char x + 256 * of_char y + of_char z"
    using uint32_be_digits [OF assms] .
  note d = bytes_256 [of w x y z, folded n]
  have low: "uint32_be b = of_char z + 256 * (of_char y + 256 * (of_char x + 256 * of_char w))" using n by simp
  have last: "char_of (uint32_be b) = z" by (subst low) (rule char_of_add_256)
  show ?thesis unfolding uint32_bytes_def d(1-3) last by (simp only: char_of_add_256 char_of_char b)
qed

lemma uint32_value:
  assumes "n < 2 ^ 32"
  shows "uint32_be (uint32_bytes n) = n"
proof -
  have h: "n div 256 div 256 = n div 65536" "n div 65536 div 256 = n div 16777216" "n div 16777216 < 256"
    using assms by (simp_all add: div_mult2_eq [symmetric] less_mult_imp_div_less)
  have "n div 65536 = 256 * (n div 16777216) + n div 65536 mod 256"
    using div_mult_mod_eq [of "n div 65536" 256] unfolding h(2) by linarith
  moreover have "n div 256 = 256 * (n div 65536) + n div 256 mod 256"
    using div_mult_mod_eq [of "n div 256" 256] unfolding h(1) by linarith
  moreover have "n = 256 * (n div 256) + n mod 256" by simp
  ultimately have "n = 16777216 * (n div 16777216) + 65536 * (n div 65536 mod 256) + 256 * (n div 256 mod 256) + n mod 256"
    by linarith
  moreover have "n div 16777216 mod 256 = n div 16777216" using h(3) by simp
  ultimately show ?thesis by (simp add: uint32_be_def uint32_bytes_def of_char_of)
qed

text \<open>
  The codec reads exactly one gRPC frame: an uncompressed body gives a payload if and only if it
  is the frame of that payload, and a decompressed payload never exceeds the size limit.
\<close>

theorem grpc_frame_exact:
  "(body \<noteq> [] \<and> hd body = char_of (0 :: nat) \<longrightarrow>
      (grpcPayload L h body maxBodyBytes = Inr payload \<longleftrightarrow> body = grpc_frame payload \<and> length payload < 2 ^ 32))
   \<and> (body \<noteq> [] \<and> hd body \<noteq> char_of (0 :: nat) \<and> grpcPayload L h body maxBodyBytes = Inr payload \<longrightarrow>
        int (length payload) \<le> maxBodyBytes)"
proof (intro conjI impI)
  assume zero: "body \<noteq> [] \<and> hd body = char_of (0 :: nat)"
  show "grpcPayload L h body maxBodyBytes = Inr payload \<longleftrightarrow> body = grpc_frame payload \<and> length payload < 2 ^ 32"
  proof
    assume r: "grpcPayload L h body maxBodyBytes = Inr payload"
    then have len: "5 \<le> length body" "uint32_be (take 4 (drop 1 body)) = length body - 5"
      by (auto simp: grpcPayload_def split: if_splits)
    have flag: "(of_char (body ! 0) :: nat) = 0" using zero by (cases body) auto
    have payload: "payload = drop 5 body" using r len flag by (auto simp: grpcPayload_def Let_def split: if_splits)
    have "take 4 (drop 1 body) = uint32_bytes (length payload)"
      using uint32_roundtrip [of "take 4 (drop 1 body)"] len payload by simp
    moreover have "body = hd body # take 4 (drop 1 body) @ drop 5 body"
      using zero by (cases body) (auto simp: numeral_eq_Suc append_take_drop_id [symmetric] simp del: append_take_drop_id)
    ultimately have frame: "body = grpc_frame payload" using zero payload by (simp add: grpc_frame_def)
    have "length payload = uint32_be (take 4 (drop 1 body))" using len payload by simp
    then show "body = grpc_frame payload \<and> length payload < 2 ^ 32"
      using frame len(1) uint32_bound [of "take 4 (drop 1 body)"] by simp
  next
    assume "body = grpc_frame payload \<and> length payload < 2 ^ 32"
    then show "grpcPayload L h body maxBodyBytes = Inr payload"
      using uint32_value [of "length payload"] by (simp add: grpc_frame_def grpcPayload_def uint32_bytes_def Let_def)
  qed
next
  assume r: "body \<noteq> [] \<and> hd body \<noteq> char_of (0 :: nat) \<and> grpcPayload L h body maxBodyBytes = Inr payload"
  then have "(of_char (body ! 0) :: nat) \<noteq> 0" by (metis char_of_char hd_conv_nth)
  with r show "int (length payload) \<le> maxBodyBytes"
    by (auto simp: grpcPayload_def Let_def split: if_splits sum.splits)
qed

subsection \<open>What is never compared\<close>

text \<open>A declared rule applies to a request when its pattern and its header values do.\<close>

definition applicable :: "'m serve_mux \<Rightarrow> string \<Rightarrow> string \<Rightarrow> header \<Rightarrow> 'm declared_rule \<Rightarrow> bool" where
  "applicable M method path h d \<longleftrightarrow> pattern_matches M method path d \<and> SelectsRequestHeaders (dr_rule d) h"

definition ignores_request :: "'m declared_rule \<Rightarrow> bool" where
  "ignores_request d \<longleftrightarrow> dr_pattern d \<noteq> None \<and> SelectsEveryResponse (dr_rule d) \<and> ru_action (dr_rule d) = ActionIgnore"

lemma responses_loop_started:
  "rules \<noteq> [] \<Longrightarrow> snd (responses_loop M method path h ds rules) = None \<and> fst (responses_loop M method path h ds rules) \<noteq> []"
  by (induction ds arbitrary: rules) (auto simp: Let_def)

lemma responses_loop_first:
  "case find (applicable M method path h) ds of
     None \<Rightarrow> responses_loop M method path h ds [] = ([], None)
   | Some d \<Rightarrow> if ignores_request d then snd (responses_loop M method path h ds []) \<noteq> None
              else snd (responses_loop M method path h ds []) = None \<and> fst (responses_loop M method path h ds []) \<noteq> []"
proof (induction ds)
  case (Cons d ds)
  show ?case
  proof (cases "applicable M method path h d")
    case True
    then have "\<not> ((case dr_pattern d of Some p \<Rightarrow> \<not> Pattern_Match M p method [] path | None \<Rightarrow> False)
        \<or> \<not> SelectsRequestHeaders (dr_rule d) h)"
      by (auto simp: applicable_def pattern_matches_def split: option.splits)
    then show ?thesis using True responses_loop_started [of "[dr_rule d]" M "method" path h ds]
      by (auto simp: ignores_request_def Let_def)
  next
    case False
    then have "responses_loop M method path h (d # ds) [] = responses_loop M method path h ds []"
      by (auto simp: applicable_def pattern_matches_def split: option.splits)
    with Cons False show ?thesis by (auto simp del: responses_loop.simps split: option.splits if_splits)
  qed
qed simp

text \<open>
  Exactly these requests are never compared, whatever their responses: the gRPC namespace, those
  whose first applicable rule ignores every response, and, when no rule applies, streaming methods
  and content types that are no supported wire.
\<close>

theorem never_compared_exact:
  "Plan_Ignored (Decoder_Responses M L d method path rawQuery h) \<noteq> None \<longleftrightarrow>
     excludedRequestPath path
     \<or> (case find (applicable M method path h) (mt_rules (dc_routes d)) of
          Some r \<Rightarrow> ignores_request r
        | None \<Rightarrow>
            is_err (requestWire L (header_get h ''Content-Type'')) \<and> \<not> (header_get h ''Content-Type'' = [] \<and> connectGet method rawQuery)
            \<or> streamingMethod L path \<noteq> None)"
proof (cases "excludedRequestPath path")
  case True
  then show ?thesis by (simp add: Decoder_Responses_def Plan_Ignored_def ignoredDecoding_def Let_def)
next
  case False
  let ?first = "find (applicable M method path h) (mt_rules (dc_routes d))"
  obtain rules ignored where resp: "Responses M (dc_routes d) method path h = (rules, ignored)" by (cases "Responses M (dc_routes d) method path h")
  have unruled: "dg_ignored (unruled L d method path rawQuery h) \<noteq> None \<longleftrightarrow>
      is_err (requestWire L (header_get h ''Content-Type'')) \<and> \<not> (header_get h ''Content-Type'' = [] \<and> connectGet method rawQuery)
      \<or> streamingMethod L path \<noteq> None"
    by (cases "requestWire L (header_get h ''Content-Type'')")
      (auto simp: unruled_def Let_def ignoredDecoding_def failedDecoding_def newDecoding_def typed_decoding_def split: option.splits sum.splits)
  note first = responses_loop_first [of M "method" path h "mt_rules (dc_routes d)", folded Responses_def, unfolded resp]
  show ?thesis
  proof (cases ?first)
    case None
    then have "rules = []" "ignored = None" using first by auto
    then show ?thesis using False None resp unruled by (simp add: Decoder_Responses_def Plan_Ignored_def Let_def)
  next
    case (Some r)
    then show ?thesis using False first resp
      by (cases ignored) (auto simp: Decoder_Responses_def Plan_Ignored_def ignoredDecoding_def Let_def split: if_splits)
  qed
qed

subsection \<open>Witnesses\<close>

text \<open>Libraries that know JSON requests without bodies and no protobuf.\<close>

definition sample_libs :: libs where
  "sample_libs =
     \<lparr>lb_media_type = (\<lambda>s. Inr s), lb_gunzip = (\<lambda>b n. Inl (GzipOpen ''gzip: invalid header'')),
      lb_unmarshal = (\<lambda>b. Inl (''unexpected end of JSON input'', Some 0)), lb_marshal = (\<lambda>v. Inr ''{}''),
      lb_float = (\<lambda>s. Inl ''invalid syntax''), lb_message = (\<lambda>t. Inl ''not found''), lb_method = (\<lambda>n. Inl ''not found''),
      lb_protojson_unmarshal = (\<lambda>t b. None), lb_proto_unmarshal = (\<lambda>t b. Inl ''unknown type''),
      lb_protojson_marshal = (\<lambda>m. Inl ''unknown type'')\<rparr>"

definition sample_type :: stype where
  "sample_type = \<lparr>ty_name = ''T'', ty_fields = [\<lparr>fl_name = ''x'', fl_optional = False, fl_value = Value KindString [] None []\<rparr>]\<rparr>"

definition sample_schema :: schema where
  "sample_schema = \<lparr>sc_types = [(''T'', sample_type)], sc_operations = []\<rparr>"

definition sample_decoder :: "(string \<times> nat) list decoder" where
  "sample_decoder = \<lparr>dc_schema = sample_schema, dc_routes = sample_matcher, dc_maxBodyBytes = 100\<rparr>"

definition sample_request :: request where
  "sample_request = \<lparr>mr_method = ''GET'', mr_host = ''h'', mr_path = ''/x'', mr_rawQuery = ''x=1'', mr_header = [],
     mr_body = [], mr_overflow = False\<rparr>"


theorem bindings_exact_witness:
  "bound_to sample_libs sample_schema sample_type False (JObject []) (JObject [(''x'', JString ''1'')]) (''x'', [''1''])"
proof -
  have "bindHTTPParameters sample_libs sample_schema sample_type [] (sample_request\<lparr>mr_rawQuery := []\<rparr>) [(''x'', ''1'')]
      = Inr [(''x'', JString ''1'')]" by code_simp
  from bindings_exact [OF this] show ?thesis by simp
qed

end
