(* ===== verification/Net_Address.thy ===== *)
theory Net_Address
  imports Spectre_Prelude "HOL-Library.Word"
begin

text \<open>
  \<open>internal/netaddr/netaddr.go\<close>: listen and backend addresses, and the checks that keep proxied
  traffic from looping back.

  The parser of URLs, the parser and printer of IP addresses and the resolver of service names are
  parameters (\<open>net_libs\<close>); an IP address is its bits, so mapping and classifying addresses compute.
  Splitting and joining hosts and ports is the text work that Go's \<open>net\<close> and \<open>net/url\<close> document.
  Opening and dialling sockets is left to the operating system.
\<close>

subsection \<open>Addresses\<close>

datatype ip = V4 "32 word" | V6 "128 word" string

text \<open>\<open>netip.Addr\<close>: an IPv4 address in IPv6 form is unmapped to IPv4; a zone belongs to IPv6 only.\<close>

definition mapped_prefix :: "128 word" where
  "mapped_prefix = 0xFFFF00000000"

fun ip_Unmap :: "ip \<Rightarrow> ip" where
  "ip_Unmap (V4 a) = V4 a"
| "ip_Unmap (V6 a zone) = (if drop_bit 32 a = drop_bit 32 mapped_prefix then V4 (ucast a) else V6 a zone)"

fun ip_IsLoopback :: "ip \<Rightarrow> bool" where
  "ip_IsLoopback (V4 a) \<longleftrightarrow> drop_bit 24 a = 127"
| "ip_IsLoopback (V6 a zone) \<longleftrightarrow>
     (if drop_bit 32 a = drop_bit 32 mapped_prefix then drop_bit 24 (ucast a :: 32 word) = 127 else a = 1)"

fun ip_IsUnspecified :: "ip \<Rightarrow> bool" where
  "ip_IsUnspecified (V4 a) \<longleftrightarrow> a = 0"
| "ip_IsUnspecified (V6 a zone) \<longleftrightarrow> a = 0 \<and> zone = []"

record url =
  ul_scheme :: string
  ul_host :: string
  ul_user :: bool
  ul_path :: string
  ul_query :: bool
  ul_fragment :: bool

record net_libs =
  nl_parse_url :: "string \<Rightarrow> url result"
  nl_parse_addr :: "string \<Rightarrow> ip option"
  nl_show_addr :: "ip \<Rightarrow> string"
  nl_lookup_port :: "string \<Rightarrow> int option"

subsection \<open>Hosts and ports\<close>

definition ascii_lower :: "char \<Rightarrow> char" where
  "ascii_lower c = (let n = (of_char c :: nat) in if 65 \<le> n \<and> n \<le> 90 then char_of (n + 32) else c)"

definition ToLower :: "string \<Rightarrow> string" where
  "ToLower s = map ascii_lower s"

definition EqualFold :: "string \<Rightarrow> string \<Rightarrow> bool" where
  "EqualFold s t \<longleftrightarrow> ToLower s = ToLower t"

definition CutPrefix :: "string \<Rightarrow> string \<Rightarrow> string option" where
  "CutPrefix s p = (if take (length p) s = p then Some (drop (length p) s) else None)"

text \<open>The text before and after the last colon.\<close>

definition last_colon :: "string \<Rightarrow> (string \<times> string) option" where
  "last_colon s =
     (if CHR '':'' \<in> set s
      then Some (rev (tl (dropWhile (\<lambda>c. c \<noteq> CHR '':'') (rev s))), rev (takeWhile (\<lambda>c. c \<noteq> CHR '':'') (rev s)))
      else None)"

definition bracketed :: "string \<Rightarrow> bool" where
  "bracketed s \<longleftrightarrow> length s \<ge> 2 \<and> hd s = CHR ''['' \<and> last s = CHR '']''"

text \<open>\<open>URL.Hostname\<close> and \<open>URL.Port\<close>.\<close>

definition url_split :: "string \<Rightarrow> string \<times> string" where
  "url_split hostPort =
     (let (host, port) = (case last_colon hostPort of
            Some (h, p) \<Rightarrow> if list_all is_digit p then (h, p) else (hostPort, [])
          | None \<Rightarrow> (hostPort, []))
      in (if bracketed host then butlast (tl host) else host, port))"

definition url_Hostname :: "url \<Rightarrow> string" where
  "url_Hostname u = fst (url_split (ul_host u))"

definition url_Port :: "url \<Rightarrow> string" where
  "url_Port u = snd (url_split (ul_host u))"

text \<open>\<open>net.SplitHostPort\<close>, whose errors every caller here only tests for.\<close>

definition SplitHostPort :: "string \<Rightarrow> (string \<times> string) option" where
  "SplitHostPort hostport =
     (case last_colon hostport of
        None \<Rightarrow> None
      | Some (before_colon, port) \<Rightarrow>
          (if hd hostport = CHR ''['' then
             (if CHR '']'' \<notin> set hostport then None
              else
                let host = takeWhile (\<lambda>c. c \<noteq> CHR '']'') (tl hostport) in
                if before_colon \<noteq> CHR ''['' # host @ [CHR '']''] then None
                else if CHR ''['' \<in> set (tl hostport) \<or> CHR '']'' \<in> set port then None
                else Some (host, port))
           else if CHR '':'' \<in> set before_colon \<or> CHR ''['' \<in> set hostport \<or> CHR '']'' \<in> set hostport then None
           else Some (before_colon, port)))"

definition JoinHostPort :: "string \<Rightarrow> string \<Rightarrow> string" where
  "JoinHostPort host port =
     (if CHR '':'' \<in> set host then ''['' @ host @ '']:'' @ port else host @ '':'' @ port)"

text \<open>\<open>strconv.ParseUint\<close> with base 10 and 16 bits.\<close>

definition parse_uint16 :: "string \<Rightarrow> int option" where
  "parse_uint16 s =
     (let n = foldl (\<lambda>a c. 10 * a + int (undigit c)) 0 s in
      if s = [] \<or> \<not> list_all is_digit s \<or> n > 65535 then None else Some n)"

subsection \<open>Endpoints\<close>

datatype network = networkTCP | networkUnix

record net_endpoint =
  en_network :: network
  en_address :: string
  en_url :: "url option"
  en_h2c :: bool
  en_port :: int

definition newEndpoint :: "network \<Rightarrow> string \<Rightarrow> url option \<Rightarrow> bool \<Rightarrow> int \<Rightarrow> net_endpoint" where
  "newEndpoint network address target h2c port =
     \<lparr>en_network = network, en_address = address, en_url = target, en_h2c = h2c, en_port = port\<rparr>"

definition ParseListen :: "string \<Rightarrow> net_endpoint" where
  "ParseListen v =
     (case CutPrefix v ''unix:'' of
        Some socket \<Rightarrow> newEndpoint networkUnix socket None False 0
      | None \<Rightarrow> newEndpoint networkTCP v None False 0)"

definition splitUnixScheme :: "string \<Rightarrow> (string \<times> string) option" where
  "splitUnixScheme v =
     (case CutPrefix v ''http+unix:'' of
        Some socket \<Rightarrow> Some (''http'', socket)
      | None \<Rightarrow> map_option (Pair ''h2c'') (CutPrefix v ''h2c+unix:''))"

definition parseUnixBackend :: "string \<Rightarrow> string \<Rightarrow> string \<Rightarrow> net_endpoint result" where
  "parseUnixBackend scheme socket v =
     (if CutPrefix socket ''/'' = None \<and> CutPrefix socket ''@'' = None
      then Inl (''unix backend socket must be an absolute path or an abstract name beginning with @: '' @ go_quote v)
      else
        let target = \<lparr>ul_scheme = ''http'', ul_host = ''localhost'', ul_user = False, ul_path = [], ul_query = False, ul_fragment = False\<rparr>
        in Inr (newEndpoint networkUnix socket (Some target) (scheme = ''h2c'') 0))"

definition backendPort :: "url \<Rightarrow> string \<Rightarrow> int result" where
  "backendPort parsed v =
     (if url_Port parsed = [] then
        (if ul_host parsed \<noteq> [] \<and> last (ul_host parsed) = CHR '':'' then Inl (''backend URL has an invalid port: '' @ go_quote v)
         else if ul_scheme parsed = ''https'' then Inr 443 else Inr 80)
      else case parse_uint16 (url_Port parsed) of
        None \<Rightarrow> Inl (''backend URL has an invalid port: '' @ go_quote v)
      | Some n \<Rightarrow> if n = 0 then Inl (''backend URL has an invalid port: '' @ go_quote v) else Inr n)"

definition ParseBackend :: "net_libs \<Rightarrow> string \<Rightarrow> net_endpoint result" where
  "ParseBackend N v =
     (case splitUnixScheme v of
        Some (scheme, socket) \<Rightarrow> parseUnixBackend scheme socket v
      | None \<Rightarrow>
          (case nl_parse_url N v of
             Inl err \<Rightarrow> Inl (wrap ''parse backend URL'' err)
           | Inr parsed \<Rightarrow>
               (let h2c = (ul_scheme parsed = ''h2c'') in
                if (ul_scheme parsed \<noteq> ''http'' \<and> ul_scheme parsed \<noteq> ''https'' \<and> \<not> h2c) \<or> ul_host parsed = []
                then Inl (''backend URL must be an absolute HTTP, HTTPS, or h2c URL: '' @ go_quote v)
                else if ul_user parsed \<or> ul_fragment parsed \<or> ul_query parsed
                then Inl (''backend URL cannot contain user information, a query, or a fragment: '' @ go_quote v)
                else if ul_path parsed \<noteq> [] \<and> ul_path parsed \<noteq> ''/''
                then Inl (''backend URL cannot contain a path: '' @ go_quote v)
                else
                  let parsed' = parsed\<lparr>ul_path := [], ul_scheme := (if h2c then ''http'' else ul_scheme parsed)\<rparr>
                  in bind_result (backendPort parsed' v) (\<lambda>port.
                       Inr (newEndpoint networkTCP (ul_host parsed') (Some parsed') h2c port)))))"

definition IsUnix :: "net_endpoint \<Rightarrow> bool" where
  "IsUnix e \<longleftrightarrow> en_network e = networkUnix"

definition Socket :: "net_endpoint \<Rightarrow> string" where
  "Socket e = (if IsUnix e then en_address e else [])"

definition loopback_host :: "net_libs \<Rightarrow> string \<Rightarrow> bool" where
  "loopback_host N host = (case nl_parse_addr N host of Some a \<Rightarrow> ip_IsLoopback (ip_Unmap a) | None \<Rightarrow> False)"

definition IsLoopback :: "net_libs \<Rightarrow> net_endpoint \<Rightarrow> bool" where
  "IsLoopback N e =
     (case en_url e of
        Some target \<Rightarrow> loopback_host N (url_Hostname target)
      | None \<Rightarrow>
          (case en_network e of
             networkUnix \<Rightarrow> False
           | networkTCP \<Rightarrow> (case SplitHostPort (en_address e) of None \<Rightarrow> False | Some (host, _) \<Rightarrow> loopback_host N host)))"

definition canonical_host :: "net_libs \<Rightarrow> url \<Rightarrow> string" where
  "canonical_host N target =
     (let host = ToLower (url_Hostname target) in
      case nl_parse_addr N host of Some a \<Rightarrow> nl_show_addr N (ip_Unmap a) | None \<Rightarrow> host)"

definition identity :: "net_libs \<Rightarrow> net_endpoint \<Rightarrow> string option" where
  "identity N e =
     (case en_url e of
        None \<Rightarrow> None
      | Some target \<Rightarrow>
          Some (if IsUnix e then ''unix://'' @ Socket e
                else ToLower (ul_scheme target) @ ''://'' @ JoinHostPort (canonical_host N target) (show_int (en_port e))))"

definition SameDestination :: "net_libs \<Rightarrow> net_endpoint \<Rightarrow> net_endpoint \<Rightarrow> bool" where
  "SameDestination N e other \<longleftrightarrow> identity N e \<noteq> None \<and> identity N other \<noteq> None \<and> identity N e = identity N other"

text \<open>The port of a listener: a number, a service name, or 0 when it is neither.\<close>

definition listener_port :: "net_libs \<Rightarrow> string \<Rightarrow> int" where
  "listener_port N port =
     (case parse_uint16 port of
        Some n \<Rightarrow> n
      | None \<Rightarrow> (case nl_lookup_port N port of Some n \<Rightarrow> if 0 \<le> n \<and> n \<le> 65535 then n else 0 | None \<Rightarrow> 0))"

definition host_targets :: "net_libs \<Rightarrow> string \<Rightarrow> string \<Rightarrow> bool" where
  "host_targets N targetHost host =
     (let target = nl_parse_addr N targetHost; targetIsLocalhost = EqualFold targetHost ''localhost'' in
      if target = None \<and> \<not> targetIsLocalhost then False
      else if host = [] then True
      else case nl_parse_addr N host of
        None \<Rightarrow> EqualFold host ''localhost''
          \<and> (targetIsLocalhost \<or> (case target of Some a \<Rightarrow> ip_IsLoopback (ip_Unmap a) | None \<Rightarrow> False))
      | Some listenAddress \<Rightarrow>
          (if targetIsLocalhost then ip_IsUnspecified listenAddress \<or> ip_IsLoopback (ip_Unmap listenAddress)
           else ip_IsUnspecified listenAddress \<or> Some (ip_Unmap listenAddress) = map_option ip_Unmap target))"

definition TargetsListener :: "net_libs \<Rightarrow> net_endpoint \<Rightarrow> net_endpoint \<Rightarrow> bool" where
  "TargetsListener N e listener =
     (case en_url e of
        None \<Rightarrow> False
      | Some targetURL \<Rightarrow>
          (if IsUnix listener \<or> IsUnix e then IsUnix listener \<and> IsUnix e \<and> Socket e = en_address listener
           else case SplitHostPort (en_address listener) of
             None \<Rightarrow> False
           | Some (host, port) \<Rightarrow>
               listener_port N port = en_port e \<and> host_targets N (url_Hostname targetURL) host))"

subsection \<open>What the parser accepts\<close>

definition backend_ok :: "net_endpoint \<Rightarrow> bool" where
  "backend_ok e \<longleftrightarrow>
     (\<exists>u. en_url e = Some u \<and> (ul_scheme u = ''http'' \<or> ul_scheme u = ''https'') \<and> ul_path u = [] \<and> \<not> ul_user u
        \<and> (case en_network e of
             networkUnix \<Rightarrow> en_address e \<noteq> [] \<and> (hd (en_address e) = CHR ''/'' \<or> hd (en_address e) = CHR ''@'')
           | networkTCP \<Rightarrow> en_address e = ul_host u \<and> ul_host u \<noteq> [] \<and> 0 < en_port e \<and> en_port e \<le> 65535))"

lemma CutPrefix_char: "CutPrefix s [c] = None \<longleftrightarrow> s = [] \<or> hd s \<noteq> c"
  by (cases s) (auto simp: CutPrefix_def)

lemma foldl_digits_nonneg: "0 \<le> a \<Longrightarrow> (0 :: int) \<le> foldl (\<lambda>a c. 10 * a + int (undigit c)) a s"
  by (induction s arbitrary: a) auto

lemma parse_uint16_range: "parse_uint16 s = Some n \<Longrightarrow> 0 \<le> n \<and> n \<le> 65535"
  using foldl_digits_nonneg [of 0 s] by (auto simp: parse_uint16_def Let_def split: if_splits)

lemma backendPort_range: "backendPort u v = Inr n \<Longrightarrow> 0 < n \<and> n \<le> 65535"
  by (auto simp: backendPort_def less_le split: if_splits option.splits dest: parse_uint16_range)

text \<open>Every backend that parses has a usable port or socket, an HTTP scheme, and nothing else in its URL.\<close>

lemma ParseBackend_ok:
  assumes "ParseBackend N v = Inr e"
  shows "backend_ok e"
proof (cases "splitUnixScheme v")
  case None
  with assms show ?thesis
    by (auto simp: ParseBackend_def Let_def newEndpoint_def backend_ok_def dest!: backendPort_range split: sum.splits if_splits)
next
  case (Some p)
  obtain scheme socket where "p = (scheme, socket)" by (cases p)
  with Some assms show ?thesis
    by (auto simp: ParseBackend_def parseUnixBackend_def Let_def newEndpoint_def backend_ok_def CutPrefix_char split: if_splits)
qed

subsection \<open>Destinations\<close>

text \<open>The text of an address is read back as that address.\<close>

definition addr_ok :: "net_libs \<Rightarrow> bool" where
  "addr_ok N \<longleftrightarrow> (\<forall>a. nl_parse_addr N (nl_show_addr N a) = Some a)"

text \<open>Two host names denote one host: as addresses when both are, and otherwise by name.\<close>

definition same_host :: "net_libs \<Rightarrow> url \<Rightarrow> url \<Rightarrow> bool" where
  "same_host N u u' \<longleftrightarrow>
     (case (nl_parse_addr N (ToLower (url_Hostname u)), nl_parse_addr N (ToLower (url_Hostname u'))) of
        (Some a, Some b) \<Rightarrow> ip_Unmap a = ip_Unmap b
      | (None, None) \<Rightarrow> ToLower (url_Hostname u) = ToLower (url_Hostname u')
      | _ \<Rightarrow> False)"

lemma canonical_host_iff: "addr_ok N \<Longrightarrow> canonical_host N u = canonical_host N u' \<longleftrightarrow> same_host N u u'"
proof -
  let ?h = "ToLower (url_Hostname u)" and ?h' = "ToLower (url_Hostname u')"
  assume "addr_ok N"
  then have read: "nl_parse_addr N (nl_show_addr N a) = Some a" for a by (simp add: addr_ok_def)
  then have "nl_show_addr N a = nl_show_addr N b \<longleftrightarrow> a = b" for a b by (metis option.inject)
  moreover have "nl_parse_addr N h = None \<Longrightarrow> nl_show_addr N a \<noteq> h \<and> h \<noteq> nl_show_addr N a" for h a using read by auto
  ultimately show ?thesis
    by (cases "nl_parse_addr N ?h"; cases "nl_parse_addr N ?h'") (simp_all add: canonical_host_def same_host_def Let_def)
qed

lemma split_last_colon:
  assumes "a @ CHR '':'' # p = b @ CHR '':'' # q" "CHR '':'' \<notin> set p" "CHR '':'' \<notin> set q"
  shows "a = b \<and> p = q"
  using assms by (induction a arbitrary: b) (auto simp: Cons_eq_append_conv append_eq_Cons_conv)

lemma JoinHostPort_inject:
  assumes "JoinHostPort h p = JoinHostPort h' p'" "CHR '':'' \<notin> set p" "CHR '':'' \<notin> set p'"
  shows "h = h' \<and> p = p'"
proof -
  have "(if CHR '':'' \<in> set h then ''['' @ h @ '']'' else h) @ CHR '':'' # p
      = (if CHR '':'' \<in> set h' then ''['' @ h' @ '']'' else h') @ CHR '':'' # p'"
    using assms(1) by (auto simp: JoinHostPort_def split: if_splits)
  from split_last_colon [OF this assms(2,3)]
  show ?thesis by (auto split: if_splits)
qed

lemma show_int_no_colon: "0 \<le> n \<Longrightarrow> CHR '':'' \<notin> set (show_int n)"
  by (auto simp: show_int_def is_digit_def less_eq_char_def dest!: show_nat_digits)

lemma show_int_nonneg_inject: "0 \<le> n \<Longrightarrow> 0 \<le> m \<Longrightarrow> show_int n = show_int m \<longleftrightarrow> n = m"
  by (auto simp: show_int_def)

lemma identity_tcp:
  assumes "backend_ok e" "backend_ok e'" "\<not> IsUnix e" "\<not> IsUnix e'" "en_url e = Some u" "en_url e' = Some u'"
  shows "identity N e = identity N e' \<longleftrightarrow>
    ul_scheme u = ul_scheme u' \<and> canonical_host N u = canonical_host N u' \<and> en_port e = en_port e'"
proof -
  have port: "0 \<le> en_port e" "0 \<le> en_port e'" and
    scheme: "ul_scheme u = ''http'' \<or> ul_scheme u = ''https''" "ul_scheme u' = ''http'' \<or> ul_scheme u' = ''https''"
    using assms by (auto simp: backend_ok_def IsUnix_def split: network.splits)
  have lower: "ToLower ''http'' = ''http''" "ToLower ''https'' = ''https''" by (simp_all add: ToLower_def ascii_lower_def Let_def)
  have join: "JoinHostPort (canonical_host N u) (show_int (en_port e)) = JoinHostPort (canonical_host N u') (show_int (en_port e'))
      \<longleftrightarrow> canonical_host N u = canonical_host N u' \<and> en_port e = en_port e'"
    using JoinHostPort_inject [OF _ show_int_no_colon [OF port(1)] show_int_no_colon [OF port(2)]]
      show_int_nonneg_inject [OF port] by metis
  show ?thesis using assms(3-6) scheme join by (auto simp: identity_def lower)
qed

text \<open>
  Two backends count as the same destination exactly when both reach one socket, or both reach
  one port of one host over one scheme, where h2c counts as HTTP and the forms of an IP address
  count as that address: the text that stands for a destination confuses no two of them.
\<close>

theorem SameDestination_exact:
  assumes "addr_ok N" "ParseBackend N v = Inr e" "ParseBackend N v' = Inr e'" "en_url e = Some u" "en_url e' = Some u'"
  shows "SameDestination N e e' \<longleftrightarrow>
    (if IsUnix e \<or> IsUnix e' then IsUnix e \<and> IsUnix e' \<and> en_address e = en_address e'
     else ul_scheme u = ul_scheme u' \<and> same_host N u u' \<and> en_port e = en_port e')"
proof -
  note ok = ParseBackend_ok [OF assms(2)] ParseBackend_ok [OF assms(3)]
  have ids: "identity N e \<noteq> None" "identity N e' \<noteq> None" using assms(4,5) by (simp_all add: identity_def)
  have scheme: "ul_scheme u = ''http'' \<or> ul_scheme u = ''https''" "ul_scheme u' = ''http'' \<or> ul_scheme u' = ''https''"
    using ok assms(4,5) by (auto simp: backend_ok_def)
  have lower: "ToLower ''http'' = ''http''" "ToLower ''https'' = ''https''" by (simp_all add: ToLower_def ascii_lower_def Let_def)
  show ?thesis
  proof (cases "IsUnix e \<or> IsUnix e'")
    case True
    then show ?thesis using ids scheme assms(4,5) by (auto simp: SameDestination_def identity_def lower Socket_def)
  next
    case False
    then show ?thesis using ids identity_tcp [OF ok _ _ assms(4,5), of N] canonical_host_iff [OF assms(1)]
      by (simp add: SameDestination_def)
  qed
qed

subsection \<open>Loops\<close>

text \<open>
  The addresses that a listener accepts on and that a backend reaches: no host or an unspecified
  address is every address of the system, \<open>localhost\<close> is every loopback address, and the two forms of
  an IPv4 address are one address.
\<close>

definition accepts_on :: "net_libs \<Rightarrow> string \<Rightarrow> ip set" where
  "accepts_on N host =
     (if host = [] then UNIV
      else case nl_parse_addr N host of
        Some a \<Rightarrow> if ip_IsUnspecified a then UNIV else {b. ip_Unmap b = ip_Unmap a}
      | None \<Rightarrow> if EqualFold host ''localhost'' then {b. ip_IsLoopback (ip_Unmap b)} else {})"

definition reaches :: "net_libs \<Rightarrow> string \<Rightarrow> ip set" where
  "reaches N host =
     (if EqualFold host ''localhost'' then {b. ip_IsLoopback (ip_Unmap b)}
      else case nl_parse_addr N host of Some a \<Rightarrow> {b. ip_Unmap b = ip_Unmap a} | None \<Rightarrow> {})"

lemma loopback_exists: "\<exists>b. ip_IsLoopback (ip_Unmap b)"
  by (rule exI [of _ "V4 0x7F000000"]) simp

lemma host_targets_iff: "host_targets N targetHost host \<longleftrightarrow> accepts_on N host \<inter> reaches N targetHost \<noteq> {}"
  using loopback_exists
  by (auto simp: host_targets_def accepts_on_def reaches_def Let_def split: option.splits)


text \<open>
  A backend with an unspecified address dials the local system, so it reaches a loopback listener
  on its port; the check does not see this loop.
\<close>

lemma unspecified_backend_loops:
  assumes "nl_parse_addr N ''0.0.0.0'' = Some (V4 0)" "nl_parse_addr N ''127.0.0.1'' = Some (V4 0x7F000001)"
    and "en_url e = Some u" "ul_host u = ''0.0.0.0:50050''"
  shows "\<not> TargetsListener N e (ParseListen ''127.0.0.1:50050'')"
proof -
  have "SplitHostPort ''127.0.0.1:50050'' = Some (''127.0.0.1'', ''50050'')" by code_simp
  moreover have "url_Hostname u = ''0.0.0.0''" unfolding url_Hostname_def assms(4) by code_simp
  moreover have "CutPrefix ''127.0.0.1:50050'' ''unix:'' = None" by code_simp
  moreover have "\<not> EqualFold ''0.0.0.0'' ''localhost''" by code_simp
  ultimately show ?thesis using assms
    by (auto simp: TargetsListener_def ParseListen_def newEndpoint_def IsUnix_def host_targets_def Let_def)
qed

subsection \<open>Witnesses\<close>

text \<open>Libraries that know the URLs of one host, and write an address as its bits in decimal.\<close>

definition plain_url :: "string \<Rightarrow> string \<Rightarrow> url" where
  "plain_url scheme host = \<lparr>ul_scheme = scheme, ul_host = host, ul_user = False, ul_path = [], ul_query = False, ul_fragment = False\<rparr>"

fun bits_text :: "ip \<Rightarrow> string" where
  "bits_text (V4 a) = CHR ''4'' # show_nat (unat a)"
| "bits_text (V6 a zone) = CHR ''6'' # show_nat (unat a) @ CHR ''%'' # zone"

fun read_bits :: "string \<Rightarrow> ip option" where
  "read_bits [] = None"
| "read_bits (c # s) =
     (let n = foldl (\<lambda>a c. 10 * a + undigit c) 0 (takeWhile is_digit s) in
      if c = CHR ''4'' then Some (V4 (of_nat n))
      else if c = CHR ''6'' then Some (V6 (of_nat n) (tl (dropWhile is_digit s)))
      else None)"

definition sample_net :: net_libs where
  "sample_net =
     \<lparr>nl_parse_url = (\<lambda>v. if v = ''http://api:80'' then Inr (plain_url ''http'' ''api:80'')
        else if v = ''h2c://API'' then Inr (plain_url ''h2c'' ''API'') else Inl ''unknown''),
      nl_parse_addr = read_bits, nl_show_addr = bits_text, nl_lookup_port = (\<lambda>_. None)\<rparr>"

lemma addr_ok_sample: "addr_ok sample_net"
proof -
  have all: "\<forall>c \<in> set (show_nat n). is_digit c" for n using show_nat_digits by blast
  have "\<not> is_digit CHR ''%''" by code_simp
  with all have digits: "takeWhile is_digit (show_nat n @ CHR ''%'' # z) = show_nat n"
    "dropWhile is_digit (show_nat n @ CHR ''%'' # z) = CHR ''%'' # z"
    "takeWhile is_digit (show_nat n) = show_nat n" for n z
    by (simp_all add: takeWhile_eq_all_conv)
  have "read_bits (bits_text a) = Some a" for a
    by (cases a) (simp_all add: Let_def digits show_nat_value)
  then show ?thesis by (simp add: addr_ok_def sample_net_def)
qed


end
