(* ===== verification/Http_Ingress.thy ===== *)
theory Http_Ingress
  imports Message_Decoder Candidate_Admission Migration_State Net_Address
begin

text \<open>
  \<open>internal/httpserver/ingress.go\<close>, \<open>point.go\<close>, \<open>config.go\<close>, \<open>ingress_config.go\<close> and \<open>support.go\<close>:
  the ingress proxy. It forwards each request to the reference, mirrors the permitted ones to the
  candidate, and drives the protocol engine of \<open>Ingress_Pairs\<close> and the admission of
  \<open>Candidate_Admission\<close>.

  A request handler and the goroutine that mirrors its request are in phases, with the critical
  sections of their calls between them; \<open>http_step\<close> interleaves those sections for all requests.
  The reasons that the engine passes to its quarantiner reach the candidates in the same step. The
  address of a candidate run is the number of its handler. What a backend answers, when a context
  ends, fresh identifiers and the clock are chosen by the environment. Log records are left out.
\<close>

subsection \<open>Configuration\<close>

text \<open>\<open>requirePositive\<close>: the first limit that is not positive.\<close>

fun requirePositive :: "(string \<times> int) list \<Rightarrow> unit result" where
  "requirePositive [] = Inr ()"
| "requirePositive ((name, v) # limits) = (if v \<le> 0 then Inl (name @ '' must be positive'') else requirePositive limits)"

record server_config =
  sc_readHeaderTimeout :: duration
  sc_idleTimeout :: duration
  sc_shutdownTimeout :: duration
  sc_maxInFlightRequests :: int
  sc_maxConnections :: int
  sc_maxHeaderBytes :: int
  sc_comparisonMaxBodyBytes :: int
  sc_candidates :: int

definition Config_Validate :: "server_config \<Rightarrow> unit result" where
  "Config_Validate c =
     bind_result (requirePositive [(''read header timeout'', sc_readHeaderTimeout c), (''idle timeout'', sc_idleTimeout c),
       (''shutdown timeout'', sc_shutdownTimeout c)]) (\<lambda>_.
     bind_result (requirePositive [(''maximum in-flight requests'', sc_maxInFlightRequests c), (''maximum connections'', sc_maxConnections c),
       (''maximum header size'', sc_maxHeaderBytes c), (''comparison maximum body size'', sc_comparisonMaxBodyBytes c)]) (\<lambda>_.
     CandidatesConfig_Validate (sc_candidates c)))"

record ingress_config =
  ic_listen :: string
  ic_reference :: string
  ic_candidate :: string
  ic_candidateTimeout :: duration
  ic_candidateStartupTimeout :: duration
  ic_reflection :: bool
  ic_reflectionTimeout :: duration
  ic_candidateBufferBytes :: int
  ic_config :: server_config

definition IngressConfig_Validate :: "ingress_config \<Rightarrow> unit result" where
  "IngressConfig_Validate c =
     bind_result (requirePositive [(''candidate timeout'', ic_candidateTimeout c), (''candidate startup timeout'', ic_candidateStartupTimeout c),
       (''reflection timeout'', ic_reflectionTimeout c)]) (\<lambda>_.
     bind_result (requirePositive [(''candidate buffer size'', ic_candidateBufferBytes c)]) (\<lambda>_.
     Config_Validate (ic_config c)))"

definition ingressBackends :: "net_libs \<Rightarrow> ingress_config \<Rightarrow> (net_endpoint \<times> net_endpoint) result" where
  "ingressBackends N c =
     (case ParseBackend N (ic_reference c) of
        Inl err \<Rightarrow> Inl (wrap ''parse reference backend'' err)
      | Inr reference \<Rightarrow>
          (case ParseBackend N (ic_candidate c) of
             Inl err \<Rightarrow> Inl (wrap ''parse candidate backend'' err)
           | Inr candidate \<Rightarrow>
               (let listen = ParseListen (ic_listen c) in
                if \<not> IsUnix candidate \<and> \<not> IsLoopback N candidate
                then Inl ''candidate backend must use a loopback IP address or a unix socket''
                else if SameDestination N reference candidate then Inl ''reference and candidate backends must be different''
                else if TargetsListener N candidate listen then Inl ''candidate backend must not target the ingress listener''
                else if TargetsListener N reference listen then Inl ''reference backend must not target the ingress listener''
                else Inr (reference, candidate))))"

subsection \<open>Routes of the migration state\<close>

abbreviation routesSetting :: string where "routesSetting \<equiv> ''routes''"

abbreviation http_ingress_kind :: iokind where
  "http_ingress_kind \<equiv> \<lparr>k_direction = Ingress, k_protocol = ProtocolHTTP\<rparr>"

definition http_Supports :: "support list" where
  "http_Supports =
     [\<lparr>su_kind = http_ingress_kind,
       su_description = ''Module that receives HTTP requests to the service, including gRPC and Connect.'',
       su_settings = [Setting routesSetting True ''Each route the node handles.'' ''<METHOD> /<path>'' True []]\<rparr>,
      \<lparr>su_kind = \<lparr>k_direction = Egress, k_protocol = ProtocolHTTP\<rparr>,
       su_description = ''Module that sends HTTP requests to another service, including gRPC and Connect.'',
       su_settings = []\<rparr>]"

record state_route =
  sr_pattern :: route
  sr_nodeID :: string
  sr_migrated :: bool

definition node_routes :: "node \<Rightarrow> string list" where
  "node_routes n =
     (case map_of (n_io n) http_ingress_kind of
        None \<Rightarrow> []
      | Some table \<Rightarrow> (case map_of table routesSetting of Some (Table entries) \<Rightarrow> table_keys entries | _ \<Rightarrow> []))"

definition listed_route :: "node \<Rightarrow> string \<Rightarrow> state_route" where
  "listed_route n pattern = \<lparr>sr_pattern = pattern, sr_nodeID = n_id n, sr_migrated = (n_status n = Migrated)\<rparr>"

type_synonym owners = "route \<rightharpoonup> string"

fun add_routes :: "'m serve_mux \<Rightarrow> node \<Rightarrow> string list \<Rightarrow> ('m, state_route) route_map \<times> owners
    \<Rightarrow> (('m, state_route) route_map \<times> owners) result" where
  "add_routes M n [] (routes, owners) = Inr (routes, owners)"
| "add_routes M n (pattern # patterns) (routes, owners) =
     (case Map_Add M routes pattern (listed_route n pattern) of
        Inl err \<Rightarrow> Inl (wrap (''node '' @ n_id n) err)
      | Inr routes' \<Rightarrow> add_routes M n patterns (routes', owners(pattern \<mapsto> n_id n)))"

fun add_nodes :: "'m serve_mux \<Rightarrow> node list \<Rightarrow> ('m, state_route) route_map \<times> owners
    \<Rightarrow> (('m, state_route) route_map \<times> owners) result" where
  "add_nodes M [] acc = Inr acc"
| "add_nodes M (n # ns) acc = bind_result (add_routes M n (node_routes n) acc) (add_nodes M ns)"

definition stateRoutes :: "'m serve_mux \<Rightarrow> node list option \<Rightarrow> (('m, state_route) route_map option \<times> owners) result" where
  "stateRoutes M migration =
     (case migration of
        None \<Rightarrow> Inr (None, Map.empty)
      | Some nodes \<Rightarrow> bind_result (add_nodes M nodes (New_Map M, Map.empty)) (\<lambda>(routes, owners). Inr (Some routes, owners)))"

text \<open>\<open>nodeQuarantiner.Quarantine\<close>: the reason names the node that owns its route.\<close>

definition name_node :: "owners \<Rightarrow> quarantine_reason \<Rightarrow> quarantine_reason" where
  "name_node owners reason =
     (case r_traffic reason of
        None \<Rightarrow> reason
      | Some t \<Rightarrow>
          (if tr_direction t = Ingress \<and> tr_protocol t = ProtocolHTTP \<and> owners (tr_route t) \<noteq> None
           then reason\<lparr>r_node := owners (tr_route t)\<rparr> else reason))"

definition node_Quarantine :: "owners \<Rightarrow> candidates \<Rightarrow> quarantine_reason \<Rightarrow> time \<Rightarrow> candidates option" where
  "node_Quarantine owners c reason now = Quarantine c (name_node owners reason) now"

subsection \<open>Requests\<close>

text \<open>The parts of the proxy that do not change while it serves.\<close>

record 'm ingress_parts =
  ig_migration :: "('m, state_route) route_map option"
  ig_owners :: owners
  ig_routes :: "'m matcher"
  ig_maxRequests :: nat

definition listed :: "'m serve_mux \<Rightarrow> 'm ingress_parts \<Rightarrow> request \<Rightarrow> state_route option" where
  "listed M g request =
     (case ig_migration g of
        None \<Rightarrow> None
      | Some routes \<Rightarrow> map_option fst (Map_Match M routes (mr_method request) (mr_host request) (mr_path request)))"

definition ingress_route :: "'m serve_mux \<Rightarrow> 'm ingress_parts \<Rightarrow> request \<Rightarrow> route" where
  "ingress_route M g request =
     (case listed M g request of Some r \<Rightarrow> sr_pattern r | None \<Rightarrow> mr_method request @ '' '' @ mr_path request)"

definition ingress_reason :: "'m serve_mux \<Rightarrow> 'm ingress_parts \<Rightarrow> quarantine_kind \<Rightarrow> request \<Rightarrow> string \<Rightarrow> quarantine_reason" where
  "ingress_reason M g kind request detail = plain_reason kind (Some (ingressTraffic ProtocolHTTP (ingress_route M g request))) detail"

definition unlisted_reason :: "'m serve_mux \<Rightarrow> 'm ingress_parts \<Rightarrow> request \<Rightarrow> quarantine_reason" where
  "unlisted_reason M g request =
     ingress_reason M g QuarantineUnlisted request
       (''route '' @ mr_method request @ '' '' @ mr_path request @ '' is in no node of the migration state'')"

definition mirrors :: "'m serve_mux \<Rightarrow> 'm ingress_parts \<Rightarrow> bool \<Rightarrow> request \<Rightarrow> candidates \<Rightarrow> time \<Rightarrow> (bool \<times> candidates) option" where
  "mirrors M g awaitingCandidate request c now =
     (if awaitingCandidate then Some (False, c)
      else if ig_migration g = None then Some (True, c)
      else case listed M g request of
        Some owner \<Rightarrow> Some (sr_migrated owner, c)
      | None \<Rightarrow>
          (if snd (Responses M (ig_routes g) (mr_method request) (mr_path request) (mr_header request)) \<noteq> None
              \<or> CutPrefix (mr_path request) ''/grpc.reflection.'' \<noteq> None
           then Some (False, c)
           else map_option (Pair False) (Quarantine c (unlisted_reason M g request) now)))"

subsection \<open>Points\<close>

definition failure_content :: "string \<Rightarrow> content" where
  "failure_content err = \<lparr>ct_status = None, ct_message = None, ct_failure = Some err, ct_ignored = None, ct_rule = None\<rparr>"

definition noDecode :: "recording \<Rightarrow> content" where
  "noDecode r = failure_content ''response is not compared''"

definition unreadRequest :: "message result" where
  "unreadRequest = Inl ''request payloads are not decoded at this point''"

record point =
  pt_abortCancels :: bool
  pt_replaysFailures :: bool

definition newPoint :: "bool \<Rightarrow> bool \<Rightarrow> point" where
  "newPoint abortCancels replaysFailures = \<lparr>pt_abortCancels = abortCancels, pt_replaysFailures = replaysFailures\<rparr>"

text \<open>What \<open>respond\<close> does with a decision: send and record, end without a destination, or replay.\<close>

datatype responding = Sends exchange | NoDestination exchange string int | Replays raw

definition respond :: "decision \<Rightarrow> bool \<Rightarrow> responding" where
  "respond decision upstream =
     (case decision of
        DecisionForward _ exchange \<Rightarrow>
          if upstream then Sends exchange else NoDestination exchange ''request has no usable destination'' 502
      | DecisionIntercept recorded \<Rightarrow> Replays recorded)"

datatype reported = ReportUnable string | ReportResponse response

definition point_report :: "'w weighted \<Rightarrow> point \<Rightarrow> raw \<Rightarrow> (recording \<Rightarrow> content) \<Rightarrow> recording \<Rightarrow> 'w budget
    \<Rightarrow> (reported \<times> recording \<times> 'w budget) result" where
  "point_report W p raw content_of r bud =
     (case (case recording_complete r bud of
              Some err \<Rightarrow> Some err
            | None \<Rightarrow> if pt_replaysFailures p then None else recording_failure r) of
        Some err \<Rightarrow> bind_result (recording_Release W r bud) (\<lambda>(r', bud'). Inr (ReportUnable err, r', bud'))
      | None \<Rightarrow> Inr (ReportResponse \<lparr>rs_raw = raw, rs_latency = recording_latency r, rs_content = content_of r\<rparr>, r, bud))"

text \<open>
  How \<open>forward\<close> ends, given what the reverse proxy recorded and whether it panicked to abort the
  response: the error of the context that the report sees, and the report.
\<close>

definition errAborted :: string where "errAborted = ''response was aborted''"

definition forward_end :: "'w weighted \<Rightarrow> point \<Rightarrow> bool \<Rightarrow> string option \<Rightarrow> raw \<Rightarrow> (recording \<Rightarrow> content) \<Rightarrow> recording \<Rightarrow> 'w budget
    \<Rightarrow> string option \<times> (reported \<times> recording \<times> 'w budget) result" where
  "forward_end W p aborted ctx raw content_of r bud =
     (if aborted
      then (if pt_abortCancels p then Some ''context canceled'' else ctx,
            point_report W p raw content_of (recording_finish [] (Some errAborted) r) bud)
      else (ctx, point_report W p raw content_of (recording_finish [] (Some ''request ended without a response'') r) bud))"

text \<open>\<open>replay\<close>: the recorded response, or a bad gateway; the recording is released either way.\<close>

definition replay :: "'w weighted \<Rightarrow> recording option \<Rightarrow> 'w budget \<Rightarrow> (transport_response option \<times> recording option \<times> 'w budget) result" where
  "replay W raw bud =
     (case raw of
        None \<Rightarrow> Inr (None, None, bud)
      | Some r \<Rightarrow>
          bind_result (recording_Release W r bud) (\<lambda>(r', bud').
            Inr (case recording_replay None r of Inl err \<Rightarrow> None | Inr response \<Rightarrow> Some response, Some r', bud')))"

definition response_plan_of :: "'m serve_mux \<Rightarrow> libs \<Rightarrow> 'm decoder \<Rightarrow> request \<Rightarrow> response_plan" where
  "response_plan_of M L d request = Decoder_Responses M L d (mr_method request) (mr_path request) (mr_rawQuery request) (mr_header request)"

definition classify :: "'m serve_mux \<Rightarrow> libs \<Rightarrow> scripts \<Rightarrow> 'js created \<Rightarrow> 'm decoder option \<Rightarrow> request
    \<Rightarrow> string option \<times> (recording \<Rightarrow> content)" where
  "classify M L s created decoder request =
     (case decoder of
        None \<Rightarrow> (Some ''comparison schema is not ready'', noDecode)
      | Some d \<Rightarrow>
          (let plan = response_plan_of M L d request
           in (Plan_Ignored plan,
               \<lambda>recorded. case recording_response recorded of
                 Inl err \<Rightarrow> failure_content err
               | Inr response \<Rightarrow> Plan_Decode L d s created plan response)))"

subsection \<open>Serving a request\<close>

text \<open>
  The phases of a request handler that holds its place among the requests in flight, and of the
  goroutine that mirrors its request to the candidate.
\<close>

datatype serving =
  Admitting request
  | Pairing request
  | Joining request request_id exchange
  | Forwarding request exchange
  | Publishing request_id ingress_outcome
  | Passing

datatype mirroring =
  Mirroring request exchange
  | Comparing request_id reported
  | Finishing

record 'm http_ingress =
  hi_awaiting :: bool
  hi_decoder :: "'m decoder option"
  hi_ready :: bool
  hi_requests :: nat
  hi_calls :: calls
  hi_candidates :: candidates
  hi_engine :: ingress_system
  hi_serving :: "nat \<rightharpoonup> serving"
  hi_mirroring :: "nat \<rightharpoonup> mirroring"

definition NewIngress_state :: "int \<Rightarrow> 'm http_ingress" where
  "NewIngress_state maxInFlight =
     \<lparr>hi_awaiting = False, hi_decoder = None, hi_ready = False, hi_requests = 0, hi_calls = NewCallCounter,
      hi_candidates = NewCandidates maxInFlight, hi_engine = ingress_init, hi_serving = Map.empty, hi_mirroring = Map.empty\<rparr>"

abbreviation set_phase :: "nat \<Rightarrow> serving \<Rightarrow> 'm http_ingress \<Rightarrow> 'm http_ingress" where
  "set_phase h phase st \<equiv> st\<lparr>hi_serving := (hi_serving st)(h \<mapsto> phase)\<rparr>"

abbreviation set_mirror :: "nat \<Rightarrow> mirroring \<Rightarrow> 'm http_ingress \<Rightarrow> 'm http_ingress" where
  "set_mirror h phase st \<equiv> st\<lparr>hi_mirroring := (hi_mirroring st)(h \<mapsto> phase)\<rparr>"

text \<open>The engine's quarantiner: the reasons of one call, in order.\<close>

fun quarantine_all :: "owners \<Rightarrow> time \<Rightarrow> quarantine_reason list \<Rightarrow> candidates \<Rightarrow> candidates option" where
  "quarantine_all owners now [] c = Some c"
| "quarantine_all owners now (r # rs) c = Option.bind (node_Quarantine owners c r now) (quarantine_all owners now rs)"

definition engine_call :: "owners \<Rightarrow> time \<Rightarrow> ingress_system \<Rightarrow> 'm http_ingress \<Rightarrow> 'm http_ingress option" where
  "engine_call owners now engine st =
     map_option (\<lambda>c. st\<lparr>hi_engine := engine, hi_candidates := c\<rparr>)
       (quarantine_all owners now
         (drop (length (ip_quarantined (is_pairs (hi_engine st)))) (ip_quarantined (is_pairs engine))) (hi_candidates st))"

text \<open>The request is counted, and enters when there is room.\<close>

definition serve_enter :: "'m serve_mux \<Rightarrow> 'm ingress_parts \<Rightarrow> nat \<Rightarrow> request \<Rightarrow> 'm http_ingress \<Rightarrow> bool \<times> 'm http_ingress" where
  "serve_enter M g h request st =
     (let st1 = st\<lparr>hi_calls := Count (hi_calls st) (ingress_route M g request)\<rparr> in
      if hi_requests st1 < ig_maxRequests g
      then (True, set_phase h (Admitting request) (st1\<lparr>hi_requests := hi_requests st1 + 1\<rparr>))
      else (False, st1))"

definition serve_admit :: "'m serve_mux \<Rightarrow> 'm ingress_parts \<Rightarrow> nat \<Rightarrow> request \<Rightarrow> time \<Rightarrow> 'm http_ingress \<Rightarrow> 'm http_ingress option" where
  "serve_admit M g h request now st =
     (case mirrors M g (hi_awaiting st) request (hi_candidates st) now of
        None \<Rightarrow> None
      | Some (False, c) \<Rightarrow> Some (set_phase h Passing (st\<lparr>hi_candidates := c\<rparr>))
      | Some (True, c) \<Rightarrow>
          (case Start c h now of
             None \<Rightarrow> None
           | Some (None, c') \<Rightarrow> Some (set_phase h Passing (st\<lparr>hi_candidates := c'\<rparr>))
           | Some (Some run, c') \<Rightarrow> Some (set_phase h (Pairing request) (st\<lparr>hi_candidates := c'\<rparr>))))"

definition serve_pair :: "'m serve_mux \<Rightarrow> 'm ingress_parts \<Rightarrow> string option \<Rightarrow> request_id \<Rightarrow> exchange \<Rightarrow> nat \<Rightarrow> request
    \<Rightarrow> 'm http_ingress \<Rightarrow> 'm http_ingress" where
  "serve_pair M g ignored i e h request st =
     (let engine = hi_engine st in
      set_phase h (Joining request i e)
        (st\<lparr>hi_engine := engine
           \<lparr>is_pairs := snd (ingress_start (is_pairs engine) i e ProtocolHTTP (ingress_route M g request) ignored),
            is_reference := insert e (is_reference engine)\<rparr>\<rparr>))"

definition serve_join :: "'m serve_mux \<Rightarrow> 'm ingress_parts \<Rightarrow> exchange \<Rightarrow> time \<Rightarrow> nat \<Rightarrow> request \<Rightarrow> request_id \<Rightarrow> exchange
    \<Rightarrow> 'm http_ingress \<Rightarrow> 'm http_ingress option" where
  "serve_join M g e' now h request i e st =
     (let engine = hi_engine st in
      case ingress_join (is_pairs engine) e' ProtocolHTTP (ingress_route M g request) (Some i) of
        (Inr decision, t) \<Rightarrow>
          map_option (\<lambda>st1. set_mirror h (Mirroring request e') (set_phase h (Forwarding request e) st1))
            (engine_call (ig_owners g) now (engine\<lparr>is_pairs := t, is_candidate := insert e' (is_candidate engine)\<rparr>) st)
      | (Inl err, t) \<Rightarrow>
          Option.bind (engine_call (ig_owners g) now (engine\<lparr>is_pairs := t\<rparr>) st) (\<lambda>st1.
            case Finish (hi_candidates st1) h of
              Inl panic \<Rightarrow> None
            | Inr c \<Rightarrow> Some (set_phase h (Forwarding request e) (st1\<lparr>hi_candidates := c\<rparr>))))"

text \<open>The reference's response is reported: its exchange is taken, then the outcome is published.\<close>

fun reported_outcome :: "reported \<Rightarrow> string option \<Rightarrow> ingress_outcome" where
  "reported_outcome (ReportUnable err) ctx = reference_outcome None (Some err) ctx"
| "reported_outcome (ReportResponse response) ctx = reference_outcome (Some response) None ctx"

definition take_reference :: "nat \<Rightarrow> exchange \<Rightarrow> ingress_outcome \<Rightarrow> 'm http_ingress \<Rightarrow> 'm http_ingress" where
  "take_reference h e oc st =
     (let engine = hi_engine st in
      case ingress_take (is_pairs engine) e of
        (None, t) \<Rightarrow> set_phase h Passing (st\<lparr>hi_engine := engine\<lparr>is_pairs := Release (releaseResponse (io_reference oc)) t\<rparr>\<rparr>)
      | (Some i, t) \<Rightarrow>
          set_phase h (Publishing i oc)
            (st\<lparr>hi_engine := engine\<lparr>is_pairs := t, is_publishing := (is_publishing engine)(i \<mapsto> oc)\<rparr>\<rparr>))"

definition publish_outcome :: "nat \<Rightarrow> request_id \<Rightarrow> ingress_outcome \<Rightarrow> 'm http_ingress \<Rightarrow> 'm http_ingress" where
  "publish_outcome h i oc st =
     (let engine = hi_engine st in
      set_phase h Passing
        (st\<lparr>hi_engine := engine\<lparr>is_pairs := publishReference (is_pairs engine) i oc, is_publishing := (is_publishing engine)(i := None)\<rparr>\<rparr>))"

definition serve_return :: "nat \<Rightarrow> 'm http_ingress \<Rightarrow> 'm http_ingress" where
  "serve_return h st = st\<lparr>hi_serving := (hi_serving st)(h := None), hi_requests := hi_requests st - 1\<rparr>"

text \<open>
  The candidate's response is reported: its exchange is taken; then, once the reference is known or
  the context ends, the responses are compared and the pair is dropped; last, the run finishes.
\<close>

fun reported_raws :: "reported \<Rightarrow> raw list" where
  "reported_raws (ReportUnable err) = []"
| "reported_raws (ReportResponse response) = [rs_raw response]"

definition take_candidate :: "nat \<Rightarrow> exchange \<Rightarrow> reported \<Rightarrow> 'm http_ingress \<Rightarrow> 'm http_ingress" where
  "take_candidate h e rep st =
     (let engine = hi_engine st in
      case ingress_take (is_pairs engine) e of
        (None, t) \<Rightarrow> set_mirror h Finishing (st\<lparr>hi_engine := engine\<lparr>is_pairs := Release (reported_raws rep) t\<rparr>\<rparr>)
      | (Some i, t) \<Rightarrow>
          set_mirror h (Comparing i rep)
            (st\<lparr>hi_engine := engine\<lparr>is_pairs := t, is_comparing := (is_comparing engine)(i \<mapsto> reported_raws rep)\<rparr>\<rparr>))"

fun reported_verdict :: "scripts \<Rightarrow> 'js evaluations \<Rightarrow> ingress_pair \<Rightarrow> reported \<Rightarrow> string option \<Rightarrow> bool \<Rightarrow> string option
    \<Rightarrow> comparison_result option option" where
  "reported_verdict s ce p (ReportUnable err) ctx prefer_value ctx' = Some (unable_verdict p err ctx)"
| "reported_verdict s ce p (ReportResponse response) ctx prefer_value ctx' = candidate_verdict s ce p response ctx prefer_value ctx'"

definition compare_candidate :: "owners \<Rightarrow> scripts \<Rightarrow> 'js evaluations \<Rightarrow> string option \<Rightarrow> bool \<Rightarrow> string option \<Rightarrow> time \<Rightarrow> nat
    \<Rightarrow> request_id \<Rightarrow> reported \<Rightarrow> 'm http_ingress \<Rightarrow> 'm http_ingress option" where
  "compare_candidate owners s ce ctx prefer_value ctx' now h i rep st =
     (let engine = hi_engine st in
      case reported_verdict s ce (the (ip_heap (is_pairs engine) i)) rep ctx prefer_value ctx' of
        None \<Rightarrow> None
      | Some verdict \<Rightarrow>
          map_option (set_mirror h Finishing)
            (engine_call owners now
              (engine\<lparr>is_pairs := Release (reported_raws rep) (conclude (is_pairs engine) i verdict),
                      is_comparing := (is_comparing engine)(i := None)\<rparr>) st))"

definition finish_candidate :: "nat \<Rightarrow> 'm http_ingress \<Rightarrow> 'm http_ingress result" where
  "finish_candidate h st =
     (case Finish (hi_candidates st) h of
        Inl panic \<Rightarrow> Inl panic
      | Inr c \<Rightarrow> Inr (st\<lparr>hi_candidates := c, hi_mirroring := (hi_mirroring st)(h := None)\<rparr>))"

text \<open>An overflow of the buffered request body quarantines the candidate (the callback of \<open>mirror\<close>).\<close>

definition mirror_overflow :: "'m serve_mux \<Rightarrow> 'm ingress_parts \<Rightarrow> request \<Rightarrow> string \<Rightarrow> time \<Rightarrow> candidates \<Rightarrow> candidates option" where
  "mirror_overflow M g request err now c = node_Quarantine (ig_owners g) c (ingress_reason M g QuarantineCapacity request err) now"

subsection \<open>Starting\<close>

text \<open>
  \<open>awaitCandidate\<close> and \<open>configureSchema\<close>, given what the backend and the descriptor loader did:
  \<open>stopped\<close> when the context ended, \<open>accepted\<close> when the candidate accepted in time; the descriptors of
  the backends are an argument of decoding, so loading them is its result.
\<close>

definition startup_reason :: "string \<Rightarrow> quarantine_reason" where
  "startup_reason timeout = plain_reason QuarantineUnable None (''candidate did not accept a connection within '' @ timeout)"

definition awaitCandidate :: "string \<Rightarrow> bool \<Rightarrow> bool \<Rightarrow> time \<Rightarrow> 'm http_ingress \<Rightarrow> (bool \<times> 'm http_ingress) option" where
  "awaitCandidate timeout stopped accepted now st =
     (if stopped then Some (False, st)
      else if \<not> accepted then
        map_option (\<lambda>c. (False, st\<lparr>hi_candidates := c\<rparr>)) (Quarantine (hi_candidates st) (startup_reason timeout) now)
      else Some (True, st\<lparr>hi_awaiting := False\<rparr>))"

definition configureSchema :: "ingress_config \<Rightarrow> 'm ingress_parts \<Rightarrow> schema \<Rightarrow> ('d \<times> 'd) result \<Rightarrow> ('d \<Rightarrow> unit result) \<Rightarrow> 'd
    \<Rightarrow> ('d \<Rightarrow> 'd \<Rightarrow> 'd result) \<Rightarrow> bool \<Rightarrow> 'm http_ingress \<Rightarrow> 'm http_ingress" where
  "configureSchema c g loaded reflected check static merge stopped st =
     (let set_of_descriptors =
        (if ic_reflection c then
           bind_result reflected (\<lambda>(reference, candidate).
             if reference \<noteq> candidate then Inl ''Backend descriptors differ'' else merge reference static)
         else Inr static)
      in case bind_result set_of_descriptors (\<lambda>d. New_Decoder loaded (check d) (ig_routes g) (sc_comparisonMaxBodyBytes (ic_config c))) of
        Inl err \<Rightarrow> st
      | Inr decoder \<Rightarrow> st\<lparr>hi_decoder := Some decoder, hi_ready := (if stopped then hi_ready st else True)\<rparr>)"

subsection \<open>Interleaved requests\<close>

text \<open>
  \<open>E\<close> holds the evaluators that comparisons may create. A handler picks a number that no handler and
  no mirror uses. What is reported of a response is left open. A buffered body can overflow while the
  reference request is being forwarded.
\<close>

inductive http_step :: "'m serve_mux \<Rightarrow> 'm ingress_parts \<Rightarrow> scripts \<Rightarrow> 'js evaluations set \<Rightarrow> 'm http_ingress \<Rightarrow> 'm http_ingress \<Rightarrow> bool"
  for M g s E where
  h_enter: "hi_serving st h = None \<Longrightarrow> hi_mirroring st h = None \<Longrightarrow> http_step M g s E st (snd (serve_enter M g h request st))"
| h_admit: "hi_serving st h = Some (Admitting request) \<Longrightarrow> serve_admit M g h request now st = Some st' \<Longrightarrow> http_step M g s E st st'"
| h_pair: "hi_serving st h = Some (Pairing request) \<Longrightarrow> ip_heap (is_pairs (hi_engine st)) i = None \<Longrightarrow>
    e \<notin> is_reference (hi_engine st) \<union> is_candidate (hi_engine st) \<Longrightarrow>
    http_step M g s E st (serve_pair M g ignored i e h request st)"
| h_join: "hi_serving st h = Some (Joining request i e) \<Longrightarrow> e' \<notin> is_reference (hi_engine st) \<union> is_candidate (hi_engine st) \<Longrightarrow>
    serve_join M g e' now h request i e st = Some st' \<Longrightarrow> http_step M g s E st st'"
| h_reference: "hi_serving st h = Some (Forwarding request e) \<Longrightarrow>
    http_step M g s E st (take_reference h e (reported_outcome rep ctx) st)"
| h_publish: "hi_serving st h = Some (Publishing i oc) \<Longrightarrow> http_step M g s E st (publish_outcome h i oc st)"
| h_return: "hi_serving st h = Some Passing \<Longrightarrow> http_step M g s E st (serve_return h st)"
| h_overflow: "hi_serving st h = Some (Forwarding request e) \<Longrightarrow> mirror_overflow M g request err now (hi_candidates st) = Some c \<Longrightarrow>
    http_step M g s E st (st\<lparr>hi_candidates := c\<rparr>)"
| m_report: "hi_mirroring st h = Some (Mirroring request e) \<Longrightarrow> http_step M g s E st (take_candidate h e rep st)"
| m_compare: "hi_mirroring st h = Some (Comparing i rep) \<Longrightarrow> ce \<in> E \<Longrightarrow>
    compare_candidate (ig_owners g) s ce ctx prefer_value ctx' now h i rep st = Some st' \<Longrightarrow> http_step M g s E st st'"
| m_finish: "hi_mirroring st h = Some Finishing \<Longrightarrow> finish_candidate h st = Inr st' \<Longrightarrow> http_step M g s E st st'"
| b_start: "http_step M g s E st (st\<lparr>hi_awaiting := True\<rparr>)"
| b_candidate: "awaitCandidate timeout stopped accepted now st = Some (started, st') \<Longrightarrow> http_step M g s E st st'"
| b_schema: "http_step M g s E st (st\<lparr>hi_decoder := Some d, hi_ready := ready\<rparr>)"
| b_unready: "http_step M g s E st (st\<lparr>hi_ready := False\<rparr>)"
| c_close: "http_step M g s E st (st\<lparr>hi_candidates := snd (close_candidates (hi_candidates st))\<rparr>)"
| c_consume: "ca_quarantined (hi_candidates st) = q # qs \<Longrightarrow>
    http_step M g s E st (st\<lparr>hi_candidates := (hi_candidates st)\<lparr>ca_quarantined := qs\<rparr>\<rparr>)"
| c_cancel: "ca_cancelling (hi_candidates st) = r # rs \<Longrightarrow>
    http_step M g s E st (st\<lparr>hi_candidates := (hi_candidates st)\<lparr>ca_cancelling := rs, ca_cancelled := r # ca_cancelled (hi_candidates st)\<rparr>\<rparr>)"

abbreviation http_reach :: "'m serve_mux \<Rightarrow> 'm ingress_parts \<Rightarrow> scripts \<Rightarrow> 'js evaluations set \<Rightarrow> int \<Rightarrow> 'm http_ingress \<Rightarrow> bool" where
  "http_reach M g s E n st \<equiv> reach (NewIngress_state n) (http_step M g s E) st"

text \<open>Every step leaves the engine alone or is a step of the engine's own system.\<close>

lemma engine_call_engine: "engine_call owners now engine st = Some st' \<Longrightarrow> hi_engine st' = engine"
  by (auto simp: engine_call_def)

lemma serve_join_refused:
  assumes "serve_join M g e' now h request i e st = Some st'"
    and "ingress_join (is_pairs (hi_engine st)) e' ProtocolHTTP (ingress_route M g request) (Some i) = (Inl err, t)"
  obtains st1 c where "engine_call (ig_owners g) now ((hi_engine st)\<lparr>is_pairs := t\<rparr>) st = Some st1"
    "Finish (hi_candidates st1) h = Inr c" "st' = set_phase h (Forwarding request e) (st1\<lparr>hi_candidates := c\<rparr>)"
proof -
  let ?call = "engine_call (ig_owners g) now ((hi_engine st)\<lparr>is_pairs := t\<rparr>) st"
  obtain st1 where call: "?call = Some st1" using assms by (cases ?call) (auto simp: serve_join_def Let_def)
  then show thesis using assms that by (cases "Finish (hi_candidates st1) h") (auto simp: serve_join_def Let_def)
qed

lemma http_step_engine:
  assumes "http_step M g s E st st'"
    and ref: "\<And>h request e. hi_serving st h = Some (Forwarding request e) \<Longrightarrow> e \<in> is_reference (hi_engine st)"
    and pub: "\<And>h i oc. hi_serving st h = Some (Publishing i oc) \<Longrightarrow> is_publishing (hi_engine st) i = Some oc"
    and cand: "\<And>h request e. hi_mirroring st h = Some (Mirroring request e) \<Longrightarrow> e \<in> is_candidate (hi_engine st)"
    and comp: "\<And>h i rep. hi_mirroring st h = Some (Comparing i rep) \<Longrightarrow> is_comparing (hi_engine st) i = Some (reported_raws rep)"
  shows "hi_engine st' = hi_engine st \<or> ingress_step (hi_engine st) (hi_engine st')"
  using assms(1)
proof cases
  case (h_enter h request)
  then show ?thesis by (simp add: serve_enter_def Let_def)
next
  case (h_admit h request now)
  then show ?thesis by (auto simp: serve_admit_def split: option.splits prod.splits bool.splits)
next
  case (h_pair h request i e ignored)
  then show ?thesis using ingress_step.step_start [OF h_pair(3,4)] by (simp add: serve_pair_def Let_def)
next
  case (h_join h request i e e' now)
  obtain r t where join: "ingress_join (is_pairs (hi_engine st)) e' ProtocolHTTP (ingress_route M g request) (Some i) = (r, t)"
    by (metis surj_pair)
  show ?thesis
  proof (cases r)
    case (Inl err)
    with join have refused: "ingress_join (is_pairs (hi_engine st)) e' ProtocolHTTP (ingress_route M g request) (Some i) = (Inl err, t)" by simp
    obtain st1 c where call: "engine_call (ig_owners g) now ((hi_engine st)\<lparr>is_pairs := t\<rparr>) st = Some st1"
        "st' = set_phase h (Forwarding request e) (st1\<lparr>hi_candidates := c\<rparr>)"
      by (rule serve_join_refused [OF h_join(3) refused])
    then have "hi_engine st' = (hi_engine st)\<lparr>is_pairs := t\<rparr>" using engine_call_engine [OF call(1)] by simp
    with ingress_step.step_refuse [OF h_join(2) refused] show ?thesis by simp
  next
    case (Inr decision)
    then show ?thesis using h_join join ingress_step.step_join [OF h_join(2)]
      by (auto simp: serve_join_def Let_def dest!: engine_call_engine)
  qed
next
  case (h_reference h request e rep ctx)
  obtain r t where take: "ingress_take (is_pairs (hi_engine st)) e = (r, t)" by (metis surj_pair)
  then show ?thesis
    using h_reference ingress_step.step_unknown [of "hi_engine st" e t] ingress_step.step_reference [of e "hi_engine st" _ t] ref
    by (cases r) (auto simp: take_reference_def Let_def)
next
  case (h_publish h i oc)
  then show ?thesis using ingress_step.step_publish [of "hi_engine st" i oc] pub by (simp add: publish_outcome_def Let_def)
next
  case (m_report h request e rep)
  obtain r t where take: "ingress_take (is_pairs (hi_engine st)) e = (r, t)" by (metis surj_pair)
  then show ?thesis
    using m_report ingress_step.step_unknown [of "hi_engine st" e t] ingress_step.step_candidate [of e "hi_engine st" _ t] cand
    by (cases r) (auto simp: take_candidate_def Let_def)
next
  case (m_compare h i rep ce ctx prefer_value ctx' now)
  then show ?thesis
    using ingress_step.step_conclude [OF comp [OF m_compare(1)]]
    by (auto simp: compare_candidate_def Let_def dest!: engine_call_engine split: option.splits)
qed (auto simp: serve_return_def finish_candidate_def awaitCandidate_def split: sum.splits if_splits)

subsection \<open>Candidate runs and requests in flight\<close>

lemma Quarantine_keeps:
  "Quarantine c reason now = Some c' \<Longrightarrow> ca_runs c' = ca_runs c \<and> ca_quarantine c' \<noteq> None"
  by (auto simp: Quarantine_def Let_def split: if_splits)

lemma quarantine_all_ok:
  "quarantine_all owners now rs c = Some c' \<Longrightarrow> cand_inv n c \<Longrightarrow> cand_inv n c' \<and> ca_runs c' = ca_runs c"
proof (induction rs arbitrary: c)
  case (Cons r rs)
  then obtain c1 where "Quarantine c (name_node owners r) now = Some c1" "quarantine_all owners now rs c1 = Some c'"
    by (auto simp: node_Quarantine_def Option.bind_eq_Some_conv)
  with Cons show ?case using cand_inv_Quarantine Quarantine_keeps by metis
qed simp

lemma quarantine_all_enabled: "cand_inv n c \<Longrightarrow> \<exists>c'. quarantine_all owners now rs c = Some c'"
proof (induction rs arbitrary: c)
  case (Cons r rs)
  obtain c1 where "Quarantine c (name_node owners r) now = Some c1" using Quarantine_enabled [OF Cons.prems] by blast
  with Cons.IH [OF cand_inv_Quarantine [OF Cons.prems this]] show ?case by (simp add: node_Quarantine_def)
qed simp

lemma engine_call_fields:
  assumes "engine_call owners now engine st = Some st'" "cand_inv n (hi_candidates st)"
  shows "\<exists>c. st' = st\<lparr>hi_engine := engine, hi_candidates := c\<rparr> \<and> cand_inv n c \<and> ca_runs c = ca_runs (hi_candidates st)"
  using assms by (auto simp: engine_call_def dest: quarantine_all_ok)

fun runs_phase :: "serving \<Rightarrow> bool" where
  "runs_phase (Pairing r) = True"
| "runs_phase (Joining r i e) = True"
| "runs_phase _ = False"

fun early :: "serving \<Rightarrow> bool" where
  "early (Admitting r) = True"
| "early ph = runs_phase ph"

definition live :: "'m http_ingress \<Rightarrow> nat set" where
  "live st = {h. \<exists>ph. hi_serving st h = Some ph \<and> runs_phase ph} \<union> dom (hi_mirroring st)"

definition runs_inv :: "int \<Rightarrow> nat \<Rightarrow> 'm http_ingress \<Rightarrow> bool" where
  "runs_inv n k st \<longleftrightarrow>
     cand_inv n (hi_candidates st) \<and> finite (dom (hi_serving st)) \<and> hi_requests st = card (dom (hi_serving st)) \<and> hi_requests st \<le> k
     \<and> set (ca_runs (hi_candidates st)) = live st
     \<and> (\<forall>h ph. hi_mirroring st h \<noteq> None \<longrightarrow> hi_serving st h = Some ph \<longrightarrow> \<not> early ph)"

text \<open>A change of phase of one handler, with what it does to the runs.\<close>

lemma runs_inv_phase:
  assumes "runs_inv n k st" "hi_serving st h = Some ph" "hi_mirroring st' = hi_mirroring st"
    and "hi_serving st' = (hi_serving st)(h \<mapsto> ph')" "hi_requests st' = hi_requests st" "cand_inv n (hi_candidates st')"
    and "set (ca_runs (hi_candidates st')) = (if runs_phase ph' then insert h (set (ca_runs (hi_candidates st)))
      else if runs_phase ph then set (ca_runs (hi_candidates st)) - {h} else set (ca_runs (hi_candidates st)))"
    and "early ph' \<longrightarrow> early ph"
  shows "runs_inv n k st'"
proof -
  have dom: "dom (hi_serving st') = dom (hi_serving st)" using assms(2,4) by auto
  have "runs_phase ph \<longrightarrow> early ph" by (cases ph) auto
  then have "set (ca_runs (hi_candidates st')) = live st'"
    using assms(1,2,3,4,7) by (auto simp: runs_inv_def live_def split: if_splits)
  with assms dom show ?thesis by (auto simp: runs_inv_def)
qed

text \<open>A change that concerns no phase.\<close>

lemma runs_inv_frame:
  assumes "runs_inv n k st" "hi_serving st' = hi_serving st" "dom (hi_mirroring st') = dom (hi_mirroring st)"
    "hi_requests st' = hi_requests st" "cand_inv n (hi_candidates st')" "ca_runs (hi_candidates st') = ca_runs (hi_candidates st)"
  shows "runs_inv n k st'"
  using assms by (auto simp: runs_inv_def live_def dom_def)

lemma runs_inv_quarantined:
  assumes "runs_inv n k st" "Quarantine (hi_candidates st) reason now = Some c"
  shows "runs_inv n k (st\<lparr>hi_candidates := c\<rparr>)"
proof -
  have "cand_inv n c" using cand_inv_Quarantine [OF _ assms(2)] assms(1) by (simp add: runs_inv_def)
  with Quarantine_keeps [OF assms(2)] show ?thesis by (intro runs_inv_frame [OF assms(1)]) simp_all
qed

lemma Start_keeps:
  assumes "Start c h now = Some (r, c')" "cand_inv n c" "h \<notin> set (ca_runs c)"
  shows "cand_inv n c' \<and> (case r of None \<Rightarrow> ca_runs c' = ca_runs c | Some run \<Rightarrow> run = h \<and> ca_runs c' = h # ca_runs c)"
proof -
  obtain a ex c1 where admit: "admit c h = ((a, ex), c1)" by (metis surj_pair)
  have inv: "cand_inv n c1" using cand_inv_admit [OF assms(2,3)] admit by simp
  have runs: "if ex then a = None \<and> ca_runs c1 = ca_runs c else (case a of None \<Rightarrow> ca_runs c1 = ca_runs c | Some run \<Rightarrow> run = h \<and> ca_runs c1 = h # ca_runs c)"
    using admit by (auto simp: admit_def Let_def split: if_splits)
  show ?thesis
  proof (cases ex)
    case True
    then show ?thesis using assms(1) admit runs inv Quarantine_keeps cand_inv_Quarantine by (auto simp: Start_def)
  next
    case False
    then show ?thesis using assms(1) admit runs inv by (auto simp: Start_def)
  qed
qed

lemma mirrors_keeps:
  assumes "mirrors M g a request c now = Some (b, c')" "cand_inv n c"
  shows "cand_inv n c' \<and> ca_runs c' = ca_runs c"
  using assms Quarantine_keeps [of c "unlisted_reason M g request" now c'] cand_inv_Quarantine [OF assms(2), of "unlisted_reason M g request" now c']
  by (auto simp: mirrors_def split: if_splits option.splits)

lemma Finish_keeps:
  assumes "Finish c h = Inr c'" "cand_inv n c" "h \<in> set (ca_runs c)"
  shows "cand_inv n c' \<and> set (ca_runs c') = set (ca_runs c) - {h}"
  using cand_inv_Finish [OF assms(2,3,1)] assms(1) by (auto simp: Finish_def Let_def filter_empty_conv split: if_splits)

lemma runs_inv_serving:
  "runs_inv n k st \<Longrightarrow> hi_serving st h = Some ph \<Longrightarrow> runs_phase ph \<Longrightarrow> h \<in> set (ca_runs (hi_candidates st))"
  by (auto simp: runs_inv_def live_def)

lemma runs_inv_mirroring:
  "runs_inv n k st \<Longrightarrow> hi_mirroring st h = Some ph \<Longrightarrow> h \<in> set (ca_runs (hi_candidates st))"
  by (auto simp: runs_inv_def live_def)

lemma runs_inv_admitting:
  assumes "runs_inv n k st" "hi_serving st h = Some (Admitting r)"
  shows "h \<notin> set (ca_runs (hi_candidates st))"
  using assms by (force simp: runs_inv_def live_def)

lemma runs_inv_enter:
  assumes "runs_inv n (ig_maxRequests g) st" "hi_serving st h = None" "hi_mirroring st h = None"
  shows "runs_inv n (ig_maxRequests g) (snd (serve_enter M g h request st))"
proof -
  have "dom ((hi_serving st)(h \<mapsto> Admitting request)) = insert h (dom (hi_serving st))" "h \<notin> dom (hi_serving st)" using assms(2) by auto
  with assms show ?thesis by (auto simp: runs_inv_def serve_enter_def live_def Let_def)
qed

lemma runs_inv_admit:
  assumes inv: "runs_inv n k st" and at: "hi_serving st h = Some (Admitting request)" and step: "serve_admit M g h request now st = Some st'"
  shows "runs_inv n k st'"
proof -
  have ci: "cand_inv n (hi_candidates st)" using inv by (simp add: runs_inv_def)
  obtain b c where mir: "mirrors M g (hi_awaiting st) request (hi_candidates st) now = Some (b, c)"
    using step by (auto simp: serve_admit_def split: option.splits)
  note c = mirrors_keeps [OF mir ci]
  show ?thesis
  proof (cases b)
    case False
    show ?thesis by (rule runs_inv_phase [OF inv at, where ph' = Passing]) (use step mir False c in \<open>auto simp: serve_admit_def\<close>)
  next
    case True
    then obtain r c' where start: "Start c h now = Some (r, c')" using step mir by (auto simp: serve_admit_def split: option.splits)
    have "h \<notin> set (ca_runs c)" using runs_inv_admitting [OF inv at] c by simp
    note keeps = Start_keeps [OF start conjunct1 [OF c] this]
    show ?thesis
    proof (cases r)
      case None
      show ?thesis by (rule runs_inv_phase [OF inv at, where ph' = Passing]) (use step mir True start None keeps c in \<open>auto simp: serve_admit_def\<close>)
    next
      case (Some run)
      show ?thesis by (rule runs_inv_phase [OF inv at, where ph' = "Pairing request"]) (use step mir True start Some keeps c in \<open>auto simp: serve_admit_def\<close>)
    qed
  qed
qed

lemma runs_inv_join:
  assumes inv: "runs_inv n k st" and at: "hi_serving st h = Some (Joining request i e)"
    and step: "serve_join M g e' now h request i e st = Some st'"
  shows "runs_inv n k st'"
proof -
  have ci: "cand_inv n (hi_candidates st)" using inv by (simp add: runs_inv_def)
  have run: "h \<in> set (ca_runs (hi_candidates st))" using runs_inv_serving [OF inv at] by simp
  obtain r t where join: "ingress_join (is_pairs (hi_engine st)) e' ProtocolHTTP (ingress_route M g request) (Some i) = (r, t)" by (metis surj_pair)
  show ?thesis
  proof (cases r)
    case (Inl err)
    obtain st1 c where call: "engine_call (ig_owners g) now ((hi_engine st)\<lparr>is_pairs := t\<rparr>) st = Some st1"
        "Finish (hi_candidates st1) h = Inr c" "st' = set_phase h (Forwarding request e) (st1\<lparr>hi_candidates := c\<rparr>)"
      by (rule serve_join_refused [OF step join [unfolded Inl]])
    obtain c1 where st1: "st1 = st\<lparr>hi_engine := (hi_engine st)\<lparr>is_pairs := t\<rparr>, hi_candidates := c1\<rparr>" "cand_inv n c1"
        "ca_runs c1 = ca_runs (hi_candidates st)"
      using engine_call_fields [OF call(1) ci] by blast
    then have fin: "Finish c1 h = Inr c" "h \<in> set (ca_runs c1)" using call(2) run by simp_all
    show ?thesis
      by (rule runs_inv_phase [OF inv at, where ph' = "Forwarding request e"]) (use call(3) st1 Finish_keeps [OF fin(1) st1(2) fin(2)] in auto)
  next
    case (Inr d)
    then obtain st1 where call: "engine_call (ig_owners g) now ((hi_engine st)\<lparr>is_pairs := t, is_candidate := insert e' (is_candidate (hi_engine st))\<rparr>) st = Some st1"
        "st' = set_mirror h (Mirroring request e') (set_phase h (Forwarding request e) st1)"
      using step join by (auto simp: serve_join_def Let_def)
    obtain c where st1: "st1 = st\<lparr>hi_engine := (hi_engine st)\<lparr>is_pairs := t, is_candidate := insert e' (is_candidate (hi_engine st))\<rparr>, hi_candidates := c\<rparr>"
        "cand_inv n c" "ca_runs c = ca_runs (hi_candidates st)"
      using engine_call_fields [OF call(1) ci] by blast
    have "live st' = live st" using at by (auto simp: live_def call(2) st1(1))
    moreover have "dom (hi_serving st') = dom (hi_serving st)" using at by (auto simp: call(2) st1(1))
    ultimately show ?thesis using inv st1 by (auto simp: runs_inv_def call(2) st1(1))
  qed
qed

lemma runs_inv_finish:
  assumes inv: "runs_inv n k st" and at: "hi_mirroring st h = Some Finishing" and step: "finish_candidate h st = Inr st'"
  shows "runs_inv n k st'"
proof -
  have ci: "cand_inv n (hi_candidates st)" using inv by (simp add: runs_inv_def)
  have run: "h \<in> set (ca_runs (hi_candidates st))" by (rule runs_inv_mirroring [OF inv at])
  obtain c where c: "Finish (hi_candidates st) h = Inr c" "st' = st\<lparr>hi_candidates := c, hi_mirroring := (hi_mirroring st)(h := None)\<rparr>"
    using step by (auto simp: finish_candidate_def split: sum.splits)
  have "\<not> (\<exists>ph. hi_serving st h = Some ph \<and> runs_phase ph)" using inv at by (auto simp: runs_inv_def elim!: runs_phase.elims)
  then have "live st' = live st - {h}" by (auto simp: live_def c(2))
  with inv Finish_keeps [OF c(1) ci run] show ?thesis by (auto simp: runs_inv_def c(2))
qed

lemma runs_inv_step:
  assumes "http_step M g s E st st'" "runs_inv n (ig_maxRequests g) st"
  shows "runs_inv n (ig_maxRequests g) st'"
  using assms(1)
proof cases
  case (h_enter h request)
  then show ?thesis using runs_inv_enter [OF assms(2)] by simp
next
  case (h_admit h request now)
  then show ?thesis using runs_inv_admit [OF assms(2)] by blast
next
  case (h_pair h request i e ignored)
  show ?thesis by (rule runs_inv_phase [OF assms(2) h_pair(2), where ph' = "Joining request i e"])
      (use h_pair assms(2) runs_inv_serving [OF assms(2) h_pair(2)] in \<open>auto simp: serve_pair_def Let_def runs_inv_def\<close>)
next
  case (h_join h request i e e' now)
  then show ?thesis using runs_inv_join [OF assms(2)] by blast
next
  case (h_reference h request e rep ctx)
  show ?thesis
    by (rule runs_inv_phase [OF assms(2) h_reference(2), where ph' = "the (hi_serving st' h)"])
      (use h_reference assms(2) in \<open>auto simp: take_reference_def Let_def runs_inv_def split: prod.splits option.splits\<close>)
next
  case (h_publish h i oc)
  show ?thesis by (rule runs_inv_phase [OF assms(2) h_publish(2), where ph' = Passing])
      (use h_publish assms(2) in \<open>auto simp: publish_outcome_def Let_def runs_inv_def\<close>)
next
  case (h_return h)
  then have "dom (hi_serving st') = dom (hi_serving st) - {h}" "h \<in> dom (hi_serving st)" by (auto simp: serve_return_def)
  moreover have "live st' = live st" using h_return by (auto simp: live_def serve_return_def)
  ultimately show ?thesis using h_return assms(2) by (auto simp: runs_inv_def serve_return_def card_Diff_singleton)
next
  case (h_overflow h request e err now c)
  then show ?thesis using runs_inv_quarantined [OF assms(2)] by (auto simp: mirror_overflow_def node_Quarantine_def)
next
  case (m_report h request e rep)
  then show ?thesis using assms(2)
    by (intro runs_inv_frame [OF assms(2)]) (auto simp: take_candidate_def Let_def runs_inv_def split: prod.splits option.splits)
next
  case (m_compare h i rep ce ctx prefer_value ctx' now)
  then obtain engine st1 where call: "engine_call (ig_owners g) now engine st = Some st1" "st' = set_mirror h Finishing st1"
    by (auto simp: compare_candidate_def Let_def split: option.splits)
  have "cand_inv n (hi_candidates st)" using assms(2) by (simp add: runs_inv_def)
  from engine_call_fields [OF call(1) this] show ?thesis using m_compare(1)
    by (intro runs_inv_frame [OF assms(2)]) (auto simp: call(2))
next
  case (m_finish h)
  then show ?thesis using runs_inv_finish [OF assms(2)] by blast
next
  case (b_candidate timeout stopped accepted now started)
  moreover have "runs_inv n (ig_maxRequests g) (st\<lparr>hi_awaiting := False\<rparr>)"
    using assms(2) by (intro runs_inv_frame [OF assms(2)]) (simp_all add: runs_inv_def)
  ultimately show ?thesis using assms(2) runs_inv_quarantined [OF assms(2)] by (auto simp: awaitCandidate_def split: if_splits)
next
  case c_close
  then show ?thesis using assms(2) cand_inv_step [OF cand_step.step_close, of n]
    by (intro runs_inv_frame [OF assms(2)]) (auto simp: runs_inv_def close_candidates_def)
next
  case (c_consume q qs)
  then show ?thesis using assms(2) cand_inv_step [OF cand_step.step_consume, of _ q qs n]
    by (intro runs_inv_frame [OF assms(2)]) (auto simp: runs_inv_def)
next
  case (c_cancel r rs)
  then show ?thesis using assms(2) cand_inv_step [OF cand_step.step_cancel, of _ r rs n]
    by (intro runs_inv_frame [OF assms(2)]) (auto simp: runs_inv_def)
qed (use assms(2) in \<open>simp_all add: runs_inv_def live_def\<close>)

subsection \<open>What each handler holds in the engine\<close>

fun token :: "serving \<Rightarrow> (exchange + request_id) option" where
  "token (Joining r i e) = Some (Inl e)"
| "token (Forwarding r e) = Some (Inl e)"
| "token (Publishing i oc) = Some (Inr i)"
| "token _ = None"

fun mirror_token :: "mirroring \<Rightarrow> (exchange + request_id) option" where
  "mirror_token (Mirroring r e) = Some (Inl e)"
| "mirror_token (Comparing i rep) = Some (Inr i)"
| "mirror_token Finishing = None"

fun phase_ok :: "ingress_system \<Rightarrow> serving \<Rightarrow> bool" where
  "phase_ok x (Joining r i e) \<longleftrightarrow> e \<in> is_reference x \<and> ip_exchanges (is_pairs x) e = Some i
     \<and> (\<exists>p. ip_heap (is_pairs x) i = Some p \<and> \<not> pa_joined p \<and> pa_protocol p = ProtocolHTTP)"
| "phase_ok x (Forwarding r e) \<longleftrightarrow> e \<in> is_reference x \<and> ip_exchanges (is_pairs x) e \<noteq> None"
| "phase_ok x (Publishing i oc) \<longleftrightarrow> is_publishing x i = Some oc"
| "phase_ok x _ \<longleftrightarrow> True"

fun mirror_ok :: "ingress_system \<Rightarrow> mirroring \<Rightarrow> bool" where
  "mirror_ok x (Mirroring r e) \<longleftrightarrow> e \<in> is_candidate x \<and> ip_exchanges (is_pairs x) e \<noteq> None"
| "mirror_ok x (Comparing i rep) \<longleftrightarrow> is_comparing x i = Some (reported_raws rep)"
| "mirror_ok x Finishing \<longleftrightarrow> True"

text \<open>No two handlers hold one exchange or one pair.\<close>

definition apart :: "('a \<Rightarrow> 't option) \<Rightarrow> (nat \<rightharpoonup> 'a) \<Rightarrow> bool" where
  "apart tok m \<longleftrightarrow> (\<forall>h h' ph ph' t. m h = Some ph \<longrightarrow> m h' = Some ph' \<longrightarrow> tok ph = Some t \<longrightarrow> tok ph' = Some t \<longrightarrow> h = h')"

definition held_inv :: "'m http_ingress \<Rightarrow> bool" where
  "held_inv st \<longleftrightarrow>
     ingress_inv (hi_engine st)
     \<and> (\<forall>ph \<in> ran (hi_serving st). phase_ok (hi_engine st) ph) \<and> (\<forall>ph \<in> ran (hi_mirroring st). mirror_ok (hi_engine st) ph)
     \<and> apart token (hi_serving st) \<and> apart mirror_token (hi_mirroring st)"

lemma apart_upd:
  assumes "apart tok m" "\<And>h' ph' t. h' \<noteq> h \<Longrightarrow> m h' = Some ph' \<Longrightarrow> tok ph' = Some t \<Longrightarrow> tok ph \<noteq> Some t"
  shows "apart tok (m(h \<mapsto> ph))"
  unfolding apart_def
proof (intro allI impI)
  fix h1 h2 ph1 ph2 t
  assume at: "(m(h \<mapsto> ph)) h1 = Some ph1" "(m(h \<mapsto> ph)) h2 = Some ph2" "tok ph1 = Some t" "tok ph2 = Some t"
  show "h1 = h2"
  proof (cases "h1 = h \<or> h2 = h")
    case True
    with at show ?thesis using assms(2) [of h1 ph1 t] assms(2) [of h2 ph2 t] by (auto split: if_splits)
  next
    case False
    with at assms(1) show ?thesis unfolding apart_def by (auto split: if_splits)
  qed
qed

lemma apart_drop: "apart tok m \<Longrightarrow> apart tok (m(h := None))"
  unfolding apart_def by (auto split: if_splits)

lemma apart_same: "apart tok m \<Longrightarrow> m h = Some ph0 \<Longrightarrow> tok ph = None \<or> tok ph = tok ph0 \<Longrightarrow> apart tok (m(h \<mapsto> ph))"
  by (rule apart_upd) (auto simp: apart_def)

lemma ran_upd: "(\<forall>x \<in> ran (m(h \<mapsto> y)). P x) \<longleftrightarrow> P y \<and> (\<forall>h' x. h' \<noteq> h \<longrightarrow> m h' = Some x \<longrightarrow> P x)"
  by (auto simp: ran_def split: if_splits)

lemma ran_drop: "x \<in> ran (m(h := None)) \<Longrightarrow> x \<in> ran m"
  by (auto simp: ran_def split: if_splits)

text \<open>An exchange that was issued and not taken: its side of the pair is open, and it is the only one.\<close>

lemma reference_outstanding:
  assumes "ingress_inv x" "ip_exchanges (is_pairs x) e = Some i" "e \<in> is_reference x"
  obtains p where "ip_heap (is_pairs x) i = Some p" "pair_inv x i p" "Future_Get (pa_outcome p) = None" "is_publishing x i = None"
    "\<And>f. f \<in> is_reference x \<Longrightarrow> ip_exchanges (is_pairs x) f = Some i \<Longrightarrow> f = e"
proof -
  obtain p where p: "ip_heap (is_pairs x) i = Some p" and inv: "pair_inv x i p" using ingress_inv_exchange [OF assms(1,2)] by blast
  have "e \<in> issued (is_reference x) (ip_exchanges (is_pairs x)) i" using assms by (simp add: issued_def)
  with pair_inv_reference [OF inv] that [OF p inv] show thesis
    by (force simp: side_open_def issued_def)
qed

lemma candidate_outstanding:
  assumes "ingress_inv x" "ip_exchanges (is_pairs x) e = Some i" "e \<in> is_candidate x"
  obtains p where "ip_heap (is_pairs x) i = Some p" "pa_joined p" "is_comparing x i = None"
proof -
  obtain p where p: "ip_heap (is_pairs x) i = Some p" and inv: "pair_inv x i p" using ingress_inv_exchange [OF assms(1,2)] by blast
  have "e \<in> issued (is_candidate x) (ip_exchanges (is_pairs x)) i" using assms by (simp add: issued_def)
  with pair_inv_candidate [OF inv] that [OF p] show thesis by (force simp: side_open_def issued_def)
qed

text \<open>The candidate's request always joins the pair that its own handler has just started.\<close>

lemma join_succeeds:
  assumes "ingress_inv x" "phase_ok x (Joining r i e)"
  shows "\<exists>p. ip_heap (is_pairs x) i = Some p \<and> ingress_join (is_pairs x) e' ProtocolHTTP route (Some i)
    = (Inr (DecisionForward (Some i) e'), (is_pairs x)\<lparr>ip_heap := (ip_heap (is_pairs x))(i \<mapsto> p\<lparr>pa_joined := True\<rparr>),
        ip_exchanges := (ip_exchanges (is_pairs x))(e' \<mapsto> i)\<rparr>)"
proof -
  have ok: "e \<in> is_reference x" "ip_exchanges (is_pairs x) e = Some i" using assms(2) by auto
  obtain p where p: "ip_heap (is_pairs x) i = Some p" "pair_inv x i p" "Future_Get (pa_outcome p) = None"
    by (rule reference_outstanding [OF assms(1) ok(2,1)])
  with assms(2) have free: "\<not> pa_joined p" "pa_protocol p = ProtocolHTTP" by auto
  with p have "i \<in> ip_requests (is_pairs x)" by (auto simp: pair_inv_def)
  with p free show ?thesis by (auto simp: ingress_join_def ingress_admit_def pair_join_def)
qed

text \<open>One step changes the phase of one handler; the others keep what they hold.\<close>

lemma held_inv_phase:
  assumes "held_inv st" "ingress_inv (hi_engine st')" "hi_serving st' = (hi_serving st)(h \<mapsto> ph')" "hi_mirroring st' = hi_mirroring st"
    and "phase_ok (hi_engine st') ph'" "apart token (hi_serving st')"
    and "\<And>h' ph. h' \<noteq> h \<Longrightarrow> hi_serving st h' = Some ph \<Longrightarrow> phase_ok (hi_engine st) ph \<Longrightarrow> phase_ok (hi_engine st') ph"
    and "\<And>h' ph. hi_mirroring st h' = Some ph \<Longrightarrow> mirror_ok (hi_engine st) ph \<Longrightarrow> mirror_ok (hi_engine st') ph"
  shows "held_inv st'"
  using assms by (auto simp: held_inv_def ran_upd) (auto simp: ran_def)

lemma held_inv_mirror:
  assumes "held_inv st" "ingress_inv (hi_engine st')" "hi_mirroring st' = (hi_mirroring st)(h \<mapsto> ph')" "hi_serving st' = hi_serving st"
    and "mirror_ok (hi_engine st') ph'" "apart mirror_token (hi_mirroring st')"
    and "\<And>h' ph. hi_serving st h' = Some ph \<Longrightarrow> phase_ok (hi_engine st) ph \<Longrightarrow> phase_ok (hi_engine st') ph"
    and "\<And>h' ph. h' \<noteq> h \<Longrightarrow> hi_mirroring st h' = Some ph \<Longrightarrow> mirror_ok (hi_engine st) ph \<Longrightarrow> mirror_ok (hi_engine st') ph"
  shows "held_inv st'"
  using assms by (auto simp: held_inv_def ran_upd) (auto simp: ran_def)

lemma held_invD:
  assumes "held_inv st"
  shows "ingress_inv (hi_engine st)" "hi_serving st h = Some ph \<Longrightarrow> phase_ok (hi_engine st) ph"
    "hi_mirroring st h = Some mp \<Longrightarrow> mirror_ok (hi_engine st) mp"
    "apart token (hi_serving st)" "apart mirror_token (hi_mirroring st)"
  using assms by (auto simp: held_inv_def ranI)

lemma apartD: "apart tok m \<Longrightarrow> m h = Some ph \<Longrightarrow> m h' = Some ph' \<Longrightarrow> h' \<noteq> h \<Longrightarrow> tok ph = Some t \<Longrightarrow> tok ph' \<noteq> Some t"
  unfolding apart_def by blast

lemma held_inv_engine:
  assumes "http_step M g s E st st'" "held_inv st"
  shows "ingress_inv (hi_engine st')"
proof -
  have "hi_engine st' = hi_engine st \<or> ingress_step (hi_engine st) (hi_engine st')"
    by (rule http_step_engine [OF assms(1)]) (use held_invD(2,3) [OF assms(2)] in fastforce)+
  then show ?thesis using held_invD(1) [OF assms(2)] ingress.inv_step by metis
qed

lemma held_inv_pair:
  assumes "held_inv st" "hi_serving st h = Some (Pairing request)" "ip_heap (is_pairs (hi_engine st)) i = None"
    and "e \<notin> is_reference (hi_engine st) \<union> is_candidate (hi_engine st)"
    and "ingress_inv (hi_engine (serve_pair M g ignored i e h request st))"
  shows "held_inv (serve_pair M g ignored i e h request st)"
proof (rule held_inv_phase [OF assms(1,5), where h = h and ph' = "Joining request i e"])
  let ?st = "serve_pair M g ignored i e h request st"
  have "e \<notin> is_reference (hi_engine st)" using assms(4) by simp
  then have "token ph' \<noteq> Some (Inl e)" if "hi_serving st h' = Some ph'" for h' ph'
    using held_invD(2) [OF assms(1) that] by (cases ph') auto
  then show "apart token (hi_serving ?st)"
    using held_invD(4) [OF assms(1)] by (auto simp: serve_pair_def Let_def intro!: apart_upd)
  show "phase_ok (hi_engine ?st) ph" if "phase_ok (hi_engine st) ph" for ph
    using that assms(3,4) by (cases ph) (auto simp: serve_pair_def Let_def ingress_start_def)
  show "mirror_ok (hi_engine ?st) ph" if "mirror_ok (hi_engine st) ph" for ph
    using that assms(3,4) by (cases ph) (auto simp: serve_pair_def Let_def ingress_start_def)
qed (simp_all add: serve_pair_def Let_def ingress_start_def newIngressPair_def)

definition joined_engine :: "ingress_system \<Rightarrow> request_id \<Rightarrow> exchange \<Rightarrow> ingress_pair \<Rightarrow> ingress_system" where
  "joined_engine x i e' p =
     x\<lparr>is_pairs := (is_pairs x)\<lparr>ip_heap := (ip_heap (is_pairs x))(i \<mapsto> p\<lparr>pa_joined := True\<rparr>),
         ip_exchanges := (ip_exchanges (is_pairs x))(e' \<mapsto> i)\<rparr>,
       is_candidate := insert e' (is_candidate x)\<rparr>"

lemma serve_join_result:
  assumes "held_inv st" "hi_serving st h = Some (Joining request i e)"
  obtains p where "ip_heap (is_pairs (hi_engine st)) i = Some p"
    "serve_join M g e' now h request i e st
     = Some (set_mirror h (Mirroring request e') (set_phase h (Forwarding request e) (st\<lparr>hi_engine := joined_engine (hi_engine st) i e' p\<rparr>)))"
proof -
  obtain p where p: "ip_heap (is_pairs (hi_engine st)) i = Some p" "ingress_join (is_pairs (hi_engine st)) e' ProtocolHTTP (ingress_route M g request) (Some i)
    = (Inr (DecisionForward (Some i) e'), (is_pairs (hi_engine st))\<lparr>ip_heap := (ip_heap (is_pairs (hi_engine st)))(i \<mapsto> p\<lparr>pa_joined := True\<rparr>),
        ip_exchanges := (ip_exchanges (is_pairs (hi_engine st)))(e' \<mapsto> i)\<rparr>)"
    using join_succeeds [OF held_invD(1,2) [OF assms(1)], OF assms(2)] by blast
  then show thesis using that by (simp add: serve_join_def engine_call_def joined_engine_def Let_def)
qed

lemma held_inv_join:
  assumes inv: "held_inv st" and at: "hi_serving st h = Some (Joining request i e)"
    and fresh: "e' \<notin> is_reference (hi_engine st) \<union> is_candidate (hi_engine st)"
    and step: "serve_join M g e' now h request i e st = Some st'" and engine: "ingress_inv (hi_engine st')"
  shows "held_inv st'"
proof -
  let ?x = "hi_engine st"
  obtain p where p: "ip_heap (is_pairs ?x) i = Some p"
      and st': "st' = set_mirror h (Mirroring request e') (set_phase h (Forwarding request e) (st\<lparr>hi_engine := joined_engine ?x i e' p\<rparr>))"
    by (rule serve_join_result [OF inv at, of M g e' now]) (use step in simp)
  have ok: "phase_ok ?x (Joining request i e)" by (rule held_invD(2) [OF inv at])
  have "phase_ok (hi_engine st') ph" if ph: "h' \<noteq> h" "hi_serving st h' = Some ph" for h' ph
  proof (cases ph)
    case (Joining r j f)
    have f: "phase_ok ?x (Joining r j f)" using held_invD(2) [OF inv ph(2)] Joining by simp
    have "f \<noteq> e" using apartD [OF held_invD(4) [OF inv] at ph(2,1)] Joining by auto
    have "f = e" if "j = i"
      by (rule reference_outstanding [OF held_invD(1) [OF inv], of e i]) (use f ok that in auto)
    with \<open>f \<noteq> e\<close> have "j \<noteq> i" by blast
    then show ?thesis using f fresh Joining by (auto simp: st' joined_engine_def)
  qed (use held_invD(2) [OF inv ph(2)] fresh in \<open>auto simp: st' joined_engine_def\<close>)
  moreover have "mirror_ok (hi_engine st') ph" if "hi_mirroring st h' = Some ph" for h' ph
    using held_invD(3) [OF inv that] fresh by (cases ph) (auto simp: st' joined_engine_def)
  moreover have "apart token (hi_serving st')" using apart_same [OF held_invD(4) [OF inv] at, of "Forwarding request e"] by (simp add: st')
  moreover have "apart mirror_token (hi_mirroring st')"
  proof -
    have "mirror_token ph' \<noteq> Some (Inl e')" if "hi_mirroring st h' = Some ph'" for h' ph'
      using held_invD(3) [OF inv that] fresh by (cases ph') auto
    then show ?thesis using held_invD(5) [OF inv] by (auto simp: st' intro!: apart_upd)
  qed
  moreover have "phase_ok (hi_engine st') (Forwarding request e)" "mirror_ok (hi_engine st') (Mirroring request e')"
    using ok by (auto simp: st' joined_engine_def)
  ultimately show ?thesis using engine by (auto simp: held_inv_def st' ran_upd)
qed

lemma held_inv_reference:
  assumes inv: "held_inv st" and at: "hi_serving st h = Some (Forwarding request e)"
    and engine: "ingress_inv (hi_engine (take_reference h e oc st))"
  shows "held_inv (take_reference h e oc st)"
proof -
  let ?x = "hi_engine st" and ?st = "take_reference h e oc st"
  have ok: "e \<in> is_reference ?x" "ip_exchanges (is_pairs ?x) e \<noteq> None" using held_invD(2) [OF inv at] by auto
  then obtain i where i: "ip_exchanges (is_pairs ?x) e = Some i" by blast
  obtain p where out: "is_publishing ?x i = None" by (rule reference_outstanding [OF held_invD(1) [OF inv] i ok(1)])
  have st: "?st = set_phase h (Publishing i oc)
      (st\<lparr>hi_engine := ?x\<lparr>is_pairs := (is_pairs ?x)\<lparr>ip_exchanges := (ip_exchanges (is_pairs ?x))(e := None)\<rparr>, is_publishing := (is_publishing ?x)(i \<mapsto> oc)\<rparr>\<rparr>)"
    using i by (simp add: take_reference_def ingress_take_def Let_def)
  have free: "token ph' \<noteq> Some (Inr i)" if "hi_serving st h' = Some ph'" for h' ph'
    using held_invD(2) [OF inv that] out by (cases ph') auto
  show ?thesis
  proof (rule held_inv_phase [OF inv engine, where h = h and ph' = "Publishing i oc"])
    show "apart token (hi_serving ?st)" using held_invD(4) [OF inv] free by (auto simp: st intro!: apart_upd)
    show "phase_ok (hi_engine ?st) ph" if "h' \<noteq> h" "hi_serving st h' = Some ph" "phase_ok ?x ph" for h' ph
      using that(3) free [OF that(2)] apartD [OF held_invD(4) [OF inv] at that(2,1)] by (cases ph) (auto simp: st)
    have "is_reference ?x \<inter> is_candidate ?x = {}" using held_invD(1) [OF inv] by (simp add: ingress_inv_def)
    with ok(1) show "mirror_ok (hi_engine ?st) ph" if "mirror_ok ?x ph" for ph using that by (cases ph) (auto simp: st)
  qed (simp_all add: st)
qed

lemma publishReference_fields:
  "ip_exchanges (publishReference t i oc) = ip_exchanges t"
  "ip_heap t i = Some p \<Longrightarrow> ip_heap (publishReference t i oc) = (ip_heap t)(i \<mapsto> fst (snd (pair_finishReference p oc)))"
  "pa_joined (fst (snd (pair_finishReference p oc))) = pa_joined p" "pa_protocol (fst (snd (pair_finishReference p oc))) = pa_protocol p"
  by (auto simp: publishReference_def pair_finishReference_def Let_def split: prod.splits bool.splits)

lemma publishing_pair: "ingress_inv x \<Longrightarrow> is_publishing x i = Some oc \<Longrightarrow> \<exists>p. ip_heap (is_pairs x) i = Some p"
  by (cases "ip_heap (is_pairs x) i") (auto simp: ingress_inv_def)

lemma held_inv_publish:
  assumes inv: "held_inv st" and at: "hi_serving st h = Some (Publishing i oc)" and engine: "ingress_inv (hi_engine (publish_outcome h i oc st))"
  shows "held_inv (publish_outcome h i oc st)"
proof -
  let ?x = "hi_engine st" and ?st = "publish_outcome h i oc st"
  obtain p where p: "ip_heap (is_pairs ?x) i = Some p"
    using publishing_pair [OF held_invD(1) [OF inv]] held_invD(2) [OF inv at] by auto
  show ?thesis
  proof (rule held_inv_phase [OF inv engine, where h = h and ph' = Passing])
    show "apart token (hi_serving ?st)" using apart_same [OF held_invD(4) [OF inv] at, of Passing] by (simp add: publish_outcome_def Let_def)
    show "phase_ok (hi_engine ?st) ph" if "h' \<noteq> h" "hi_serving st h' = Some ph" "phase_ok ?x ph" for h' ph
      using that(3) apartD [OF held_invD(4) [OF inv] at that(2,1)] p
      by (cases ph) (auto simp: publish_outcome_def publishReference_fields Let_def)
    show "mirror_ok (hi_engine ?st) ph" if "mirror_ok ?x ph" for ph
      using that by (cases ph) (auto simp: publish_outcome_def publishReference_fields Let_def)
  qed (simp_all add: publish_outcome_def Let_def)
qed

lemma held_inv_report:
  assumes inv: "held_inv st" and at: "hi_mirroring st h = Some (Mirroring request e)"
    and engine: "ingress_inv (hi_engine (take_candidate h e rep st))"
  shows "held_inv (take_candidate h e rep st)"
proof -
  let ?x = "hi_engine st" and ?st = "take_candidate h e rep st"
  have ok: "e \<in> is_candidate ?x" "ip_exchanges (is_pairs ?x) e \<noteq> None" using held_invD(3) [OF inv at] by auto
  then obtain i where i: "ip_exchanges (is_pairs ?x) e = Some i" by blast
  obtain p where out: "is_comparing ?x i = None" by (rule candidate_outstanding [OF held_invD(1) [OF inv] i ok(1)])
  have st: "?st = set_mirror h (Comparing i rep)
      (st\<lparr>hi_engine := ?x\<lparr>is_pairs := (is_pairs ?x)\<lparr>ip_exchanges := (ip_exchanges (is_pairs ?x))(e := None)\<rparr>, is_comparing := (is_comparing ?x)(i \<mapsto> reported_raws rep)\<rparr>\<rparr>)"
    using i by (simp add: take_candidate_def ingress_take_def Let_def)
  have free: "mirror_token ph' \<noteq> Some (Inr i)" if "hi_mirroring st h' = Some ph'" for h' ph'
    using held_invD(3) [OF inv that] out by (cases ph') auto
  show ?thesis
  proof (rule held_inv_mirror [OF inv engine, where h = h and ph' = "Comparing i rep"])
    show "apart mirror_token (hi_mirroring ?st)" using held_invD(5) [OF inv] free by (auto simp: st intro!: apart_upd)
    show "mirror_ok (hi_engine ?st) ph" if "h' \<noteq> h" "hi_mirroring st h' = Some ph" "mirror_ok ?x ph" for h' ph
      using that(3) free [OF that(2)] apartD [OF held_invD(5) [OF inv] at that(2,1)] by (cases ph) (auto simp: st)
    have "is_reference ?x \<inter> is_candidate ?x = {}" using held_invD(1) [OF inv] by (simp add: ingress_inv_def)
    with ok(1) show "phase_ok (hi_engine ?st) ph" if "phase_ok ?x ph" for ph using that by (cases ph) (auto simp: st)
  qed (simp_all add: st)
qed

lemma conclude_fields:
  "ip_exchanges (conclude t i v) = ip_exchanges t"
  "ip_heap t i = Some p \<Longrightarrow> ip_heap (conclude t i v) = (ip_heap t)(i \<mapsto> p\<lparr>pa_candidate_done := True\<rparr>)"
  by (auto simp: conclude_def ingress_finishCandidate_def pair_finishCandidate_def report_def Let_def split: option.splits outcome.splits)

lemma comparing_pair: "ingress_inv x \<Longrightarrow> is_comparing x i = Some r \<Longrightarrow> \<exists>p. ip_heap (is_pairs x) i = Some p"
  by (cases "ip_heap (is_pairs x) i") (auto simp: ingress_inv_def)

lemma compare_candidate_result:
  assumes "compare_candidate owners s ce ctx prefer_value ctx' now h i rep st = Some st'"
  obtains verdict c where
    "reported_verdict s ce (the (ip_heap (is_pairs (hi_engine st)) i)) rep ctx prefer_value ctx' = Some verdict"
    "st' = set_mirror h Finishing (st\<lparr>hi_engine := (hi_engine st)
        \<lparr>is_pairs := Release (reported_raws rep) (conclude (is_pairs (hi_engine st)) i verdict),
         is_comparing := (is_comparing (hi_engine st))(i := None)\<rparr>, hi_candidates := c\<rparr>)"
    "quarantine_all owners now (drop (length (ip_quarantined (is_pairs (hi_engine st))))
       (ip_quarantined (conclude (is_pairs (hi_engine st)) i verdict))) (hi_candidates st) = Some c"
  using assms by (auto simp: compare_candidate_def engine_call_def Let_def split: option.splits)

lemma held_inv_compare:
  assumes inv: "held_inv st" and at: "hi_mirroring st h = Some (Comparing i rep)"
    and step: "compare_candidate owners s ce ctx prefer_value ctx' now h i rep st = Some st'" and engine: "ingress_inv (hi_engine st')"
  shows "held_inv st'"
proof -
  let ?x = "hi_engine st"
  obtain v c where st: "st' = set_mirror h Finishing (st\<lparr>hi_engine := ?x
        \<lparr>is_pairs := Release (reported_raws rep) (conclude (is_pairs ?x) i v), is_comparing := (is_comparing ?x)(i := None)\<rparr>, hi_candidates := c\<rparr>)"
    by (rule compare_candidate_result [OF step])
  obtain p where p: "ip_heap (is_pairs ?x) i = Some p"
    using comparing_pair [OF held_invD(1) [OF inv]] held_invD(3) [OF inv at] by auto
  show ?thesis
  proof (rule held_inv_mirror [OF inv engine, where h = h and ph' = Finishing])
    show "apart mirror_token (hi_mirroring st')" using apart_same [OF held_invD(5) [OF inv] at, of Finishing] by (simp add: st)
    show "mirror_ok (hi_engine st') ph" if "h' \<noteq> h" "hi_mirroring st h' = Some ph" "mirror_ok ?x ph" for h' ph
      using that(3) apartD [OF held_invD(5) [OF inv] at that(2,1)] by (cases ph) (auto simp: st conclude_fields)
    show "phase_ok (hi_engine st') ph" if "phase_ok ?x ph" for ph
      using that p by (cases ph) (auto simp: st conclude_fields)
  qed (simp_all add: st)
qed

lemma held_inv_frame:
  assumes "held_inv st" "hi_engine st' = hi_engine st" "hi_serving st' = hi_serving st" "hi_mirroring st' = hi_mirroring st"
  shows "held_inv st'"
  using assms by (simp add: held_inv_def)

lemma held_inv_step:
  assumes step: "http_step M g s E st st'" and inv: "held_inv st"
  shows "held_inv st'"
  using step
proof cases
  case (h_enter h request)
  then show ?thesis using inv apart_upd [OF held_invD(4) [OF inv], of h "Admitting request"]
    by (auto simp: serve_enter_def held_inv_def ran_upd Let_def ran_def)
next
  case (h_admit h request now)
  then obtain ph where "hi_engine st' = hi_engine st" "hi_mirroring st' = hi_mirroring st" "hi_serving st' = (hi_serving st)(h \<mapsto> ph)"
      "phase_ok (hi_engine st) ph" "token ph = None"
    by (auto simp: serve_admit_def split: option.splits prod.splits bool.splits)
  with apart_same [OF held_invD(4) [OF inv] h_admit(1), of ph] inv show ?thesis by (auto simp: held_inv_def ran_upd) (auto simp: ran_def)
next
  case (h_pair h request i e ignored)
  then show ?thesis using held_inv_pair [OF inv] held_inv_engine [OF step inv] by blast
next
  case (h_join h request i e e' now)
  then show ?thesis using held_inv_join [OF inv] held_inv_engine [OF step inv] by blast
next
  case (h_reference h request e rep ctx)
  then show ?thesis using held_inv_reference [OF inv] held_inv_engine [OF step inv] by blast
next
  case (h_publish h i oc)
  then show ?thesis using held_inv_publish [OF inv] held_inv_engine [OF step inv] by blast
next
  case (h_return h)
  then show ?thesis using inv apart_drop [OF held_invD(4) [OF inv], of h] by (auto simp: serve_return_def held_inv_def ran_def)
next
  case (m_report h request e rep)
  then show ?thesis using held_inv_report [OF inv] held_inv_engine [OF step inv] by blast
next
  case (m_compare h i rep ce ctx prefer_value ctx' now)
  then show ?thesis using held_inv_compare [OF inv] held_inv_engine [OF step inv] by blast
next
  case (m_finish h)
  then show ?thesis using inv apart_drop [OF held_invD(5) [OF inv], of h]
    by (auto simp: finish_candidate_def held_inv_def dest!: ran_drop split: sum.splits)
next
  case (b_candidate timeout stopped accepted now started)
  then show ?thesis using inv by (intro held_inv_frame [OF inv]) (auto simp: awaitCandidate_def split: if_splits)
qed (use inv in \<open>simp_all add: held_inv_def\<close>)

subsection \<open>What may be mirrored, and what quarantines\<close>

text \<open>A request that the migration state lets through: there is none, or a migrated node lists its route.\<close>

definition permitted :: "'m serve_mux \<Rightarrow> 'm ingress_parts \<Rightarrow> request \<Rightarrow> bool" where
  "permitted M g request \<longleftrightarrow> ig_migration g = None \<or> (\<exists>r. listed M g request = Some r \<and> sr_migrated r)"

fun phase_permitted :: "'m serve_mux \<Rightarrow> 'm ingress_parts \<Rightarrow> serving \<Rightarrow> bool" where
  "phase_permitted M g (Pairing r) = permitted M g r"
| "phase_permitted M g (Joining r i e) = permitted M g r"
| "phase_permitted M g (Forwarding r e) = permitted M g r"
| "phase_permitted M g _ = True"

fun mirror_permitted :: "'m serve_mux \<Rightarrow> 'm ingress_parts \<Rightarrow> mirroring \<Rightarrow> bool" where
  "mirror_permitted M g (Mirroring r e) = permitted M g r"
| "mirror_permitted M g _ = True"

definition permitted_inv :: "'m serve_mux \<Rightarrow> 'm ingress_parts \<Rightarrow> 'm http_ingress \<Rightarrow> bool" where
  "permitted_inv M g st \<longleftrightarrow> (\<forall>ph \<in> ran (hi_serving st). phase_permitted M g ph) \<and> (\<forall>ph \<in> ran (hi_mirroring st). mirror_permitted M g ph)"

lemma mirrors_permitted: "mirrors M g a request c now = Some (True, c') \<Longrightarrow> permitted M g request"
  by (auto simp: mirrors_def permitted_def split: if_splits option.splits)

lemma permitted_upd:
  assumes "permitted_inv M g st" "\<And>h ph. hi_serving st' h = Some ph \<Longrightarrow> hi_serving st h = Some ph \<or> phase_permitted M g ph"
    "\<And>h ph. hi_mirroring st' h = Some ph \<Longrightarrow> hi_mirroring st h = Some ph \<or> mirror_permitted M g ph"
  shows "permitted_inv M g st'"
  using assms unfolding permitted_inv_def ran_def by (auto, metis+)

lemma permitted_invD:
  "permitted_inv M g st \<Longrightarrow> hi_serving st h = Some ph \<Longrightarrow> phase_permitted M g ph"
  "permitted_inv M g st \<Longrightarrow> hi_mirroring st h = Some mp \<Longrightarrow> mirror_permitted M g mp"
  by (auto simp: permitted_inv_def ranI)

lemma permitted_inv_step:
  assumes "http_step M g s E st st'" "permitted_inv M g st" "held_inv st"
  shows "permitted_inv M g st'"
  using assms(1)
proof cases
  case (h_admit h request now)
  have ok: "permitted M g request" if "mirrors M g (hi_awaiting st) request (hi_candidates st) now = Some (True, c)" for c
    using mirrors_permitted [OF that] .
  show ?thesis using h_admit ok
    by (intro permitted_upd [OF assms(2)]) (auto simp: serve_admit_def split: option.splits prod.splits bool.splits if_splits)
next
  case (h_join h request i e e' now)
  obtain p where st': "st' = set_mirror h (Mirroring request e') (set_phase h (Forwarding request e) (st\<lparr>hi_engine := joined_engine (hi_engine st) i e' p\<rparr>))"
    by (rule serve_join_result [OF assms(3) h_join(1), of M g e' now]) (use h_join(3) in simp)
  show ?thesis using permitted_invD(1) [OF assms(2) h_join(1)]
    by (intro permitted_upd [OF assms(2)]) (auto simp: st' split: if_splits)
next
  case (h_pair h request i e ignored)
  then show ?thesis using permitted_invD(1) [OF assms(2) h_pair(2)]
    by (intro permitted_upd [OF assms(2)]) (auto simp: serve_pair_def Let_def split: if_splits)
next
  case (m_compare h i rep ce ctx prefer_value ctx' now)
  then show ?thesis
    by (intro permitted_upd [OF assms(2)]) (auto elim!: compare_candidate_result split: if_splits)
qed (use assms(2) in \<open>auto intro!: permitted_upd [OF assms(2)] simp: serve_enter_def take_reference_def publish_outcome_def serve_return_def
  take_candidate_def finish_candidate_def awaitCandidate_def Let_def split: if_splits prod.splits option.splits sum.splits\<close>)

text \<open>
  The candidates and the engine agree: what the engine reported quarantined the candidate, and the
  quarantine names the node of its route.
\<close>

definition reason_named :: "owners \<Rightarrow> quarantine_reason \<Rightarrow> bool" where
  "reason_named owners reason \<longleftrightarrow>
     (\<forall>t n. r_traffic reason = Some t \<longrightarrow> tr_direction t = Ingress \<longrightarrow> tr_protocol t = ProtocolHTTP \<longrightarrow> r_kind reason \<noteq> QuarantineUnlisted \<longrightarrow>
       owners (tr_route t) = Some n \<longrightarrow> r_node reason = Some n)"

lemma reason_named_name: "reason_named owners (name_node owners reason)"
  by (auto simp: reason_named_def name_node_def split: option.splits if_splits)

definition named :: "owners \<Rightarrow> candidates \<Rightarrow> bool" where
  "named owners c \<longleftrightarrow> (\<forall>q. ca_quarantine c = Some q \<longrightarrow> reason_named owners (q_reason q))"

definition quarantine_inv :: "owners \<Rightarrow> 'm http_ingress \<Rightarrow> bool" where
  "quarantine_inv owners st \<longleftrightarrow>
     (ip_quarantined (is_pairs (hi_engine st)) \<noteq> [] \<longrightarrow> ca_quarantine (hi_candidates st) \<noteq> None)
     \<and> named owners (hi_candidates st)"

lemma Quarantine_named:
  "Quarantine c reason now = Some c' \<Longrightarrow> named owners c \<Longrightarrow> reason_named owners reason \<Longrightarrow> named owners c'"
  by (auto simp: Quarantine_def named_def Let_def split: if_splits)

lemma Quarantine_stays: "Quarantine c reason now = Some c' \<Longrightarrow> ca_quarantine c' \<noteq> None"
  by (auto simp: Quarantine_def Let_def split: if_splits)

lemma quarantine_all_named:
  "quarantine_all owners now rs c = Some c' \<Longrightarrow> named owners c \<Longrightarrow>
   named owners c' \<and> (rs \<noteq> [] \<or> ca_quarantine c \<noteq> None \<longrightarrow> ca_quarantine c' \<noteq> None)"
proof (induction rs arbitrary: c)
  case (Cons r rs)
  then obtain c1 where c1: "Quarantine c (name_node owners r) now = Some c1" "quarantine_all owners now rs c1 = Some c'"
    by (auto simp: node_Quarantine_def Option.bind_eq_Some_conv)
  then have "named owners c1" "ca_quarantine c1 \<noteq> None"
    using Quarantine_named [OF c1(1) Cons.prems(2) reason_named_name] Quarantine_stays by auto
  with Cons.IH [OF c1(2)] show ?case by simp
qed simp

lemma quarantine_inv_frame:
  assumes "quarantine_inv owners st" "ip_quarantined (is_pairs (hi_engine st')) = ip_quarantined (is_pairs (hi_engine st))"
    "ca_quarantine (hi_candidates st') = ca_quarantine (hi_candidates st)"
  shows "quarantine_inv owners st'"
  using assms by (simp add: quarantine_inv_def named_def)

lemma quarantine_inv_quarantined:
  assumes "quarantine_inv owners st" "ip_quarantined (is_pairs (hi_engine st')) = ip_quarantined (is_pairs (hi_engine st))"
    "Quarantine (hi_candidates st) reason now = Some (hi_candidates st')" "reason_named owners reason"
  shows "quarantine_inv owners st'"
  using assms Quarantine_named Quarantine_stays by (fastforce simp: quarantine_inv_def)

lemma conclude_quarantined: "\<exists>new. ip_quarantined (conclude t i v) = ip_quarantined t @ new"
  by (auto simp: conclude_def report_quarantined split: option.splits)

lemma unlisted_named: "reason_named owners (unlisted_reason M g request)"
  by (simp add: reason_named_def unlisted_reason_def ingress_reason_def plain_reason_def)

lemma traffic_free_named: "reason_named owners capacity_reason" "reason_named owners (startup_reason t)"
  by (simp_all add: reason_named_def capacity_reason_def startup_reason_def plain_reason_def)

lemma mirrors_quarantine:
  assumes "mirrors M g a request c now = Some (b, c')" "named owners c"
  shows "named owners c' \<and> (ca_quarantine c \<noteq> None \<longrightarrow> ca_quarantine c' \<noteq> None)"
  using assms Quarantine_named [OF _ assms(2) unlisted_named] Quarantine_stays
  by (fastforce simp: mirrors_def split: if_splits option.splits)

lemma Start_quarantine:
  assumes "Start c h now = Some (r, c')" "named owners c"
  shows "named owners c' \<and> (ca_quarantine c \<noteq> None \<longrightarrow> ca_quarantine c' \<noteq> None)"
proof -
  obtain a ex c1 where admit: "admit c h = ((a, ex), c1)" by (metis surj_pair)
  then have "ca_quarantine c1 = ca_quarantine c" by (auto simp: admit_def Let_def split: if_splits)
  with assms(2) have "named owners c1" by (simp add: named_def)
  then show ?thesis using assms(1) admit \<open>ca_quarantine c1 = _\<close> Quarantine_named [OF _ _ traffic_free_named(1)] Quarantine_stays
    by (cases ex) (fastforce simp: Start_def)+
qed

lemma quarantine_inv_admit:
  assumes "quarantine_inv owners st" "serve_admit M g h request now st = Some st'"
  shows "quarantine_inv owners st'"
proof -
  have named: "named owners (hi_candidates st)" using assms(1) by (simp add: quarantine_inv_def)
  obtain b c where mir: "mirrors M g (hi_awaiting st) request (hi_candidates st) now = Some (b, c)"
    using assms(2) by (auto simp: serve_admit_def split: option.splits)
  note c = mirrors_quarantine [OF mir named]
  have "hi_engine st' = hi_engine st \<and> named owners (hi_candidates st') \<and> (ca_quarantine c \<noteq> None \<longrightarrow> ca_quarantine (hi_candidates st') \<noteq> None)"
  proof (cases b)
    case False
    then show ?thesis using assms(2) mir c by (auto simp: serve_admit_def)
  next
    case True
    then obtain r c' where start: "Start c h now = Some (r, c')" using assms(2) mir by (auto simp: serve_admit_def split: option.splits)
    from Start_quarantine [OF start conjunct1 [OF c]] show ?thesis using True start assms(2) mir
      by (cases r) (auto simp: serve_admit_def)
  qed
  with c assms(1) show ?thesis by (auto simp: quarantine_inv_def)
qed

lemma quarantine_inv_compare:
  assumes "quarantine_inv owners st" "compare_candidate owners s ce ctx prefer_value ctx' now h i rep st = Some st'"
  shows "quarantine_inv owners st'"
proof -
  obtain v c where st: "st' = set_mirror h Finishing (st\<lparr>hi_engine := (hi_engine st)
        \<lparr>is_pairs := Release (reported_raws rep) (conclude (is_pairs (hi_engine st)) i v), is_comparing := (is_comparing (hi_engine st))(i := None)\<rparr>,
        hi_candidates := c\<rparr>)"
      and q: "quarantine_all owners now (drop (length (ip_quarantined (is_pairs (hi_engine st))))
       (ip_quarantined (conclude (is_pairs (hi_engine st)) i v))) (hi_candidates st) = Some c"
    by (rule compare_candidate_result [OF assms(2)])
  obtain new where new: "ip_quarantined (conclude (is_pairs (hi_engine st)) i v) = ip_quarantined (is_pairs (hi_engine st)) @ new"
    using conclude_quarantined by blast
  with q have "quarantine_all owners now new (hi_candidates st) = Some c" by simp
  from quarantine_all_named [OF this] assms(1) show ?thesis by (auto simp: quarantine_inv_def st new)
qed

lemma quarantine_inv_step:
  assumes "http_step M g s E st st'" "quarantine_inv (ig_owners g) st" "held_inv st"
  shows "quarantine_inv (ig_owners g) st'"
  using assms(1)
proof cases
  case (h_admit h request now)
  then show ?thesis using quarantine_inv_admit [OF assms(2)] by blast
next
  case (h_join h request i e e' now)
  obtain p where st': "st' = set_mirror h (Mirroring request e') (set_phase h (Forwarding request e) (st\<lparr>hi_engine := joined_engine (hi_engine st) i e' p\<rparr>))"
    by (rule serve_join_result [OF assms(3) h_join(1), of M g e' now]) (use h_join(3) in simp)
  show ?thesis by (rule quarantine_inv_frame [OF assms(2)]) (simp_all add: st' joined_engine_def)
next
  case (h_overflow h request e err now c)
  then show ?thesis using reason_named_name
    by (intro quarantine_inv_quarantined [OF assms(2)]) (auto simp: mirror_overflow_def node_Quarantine_def)
next
  case (m_compare h i rep ce ctx prefer_value ctx' now)
  then show ?thesis using quarantine_inv_compare [OF assms(2)] by blast
next
  case (m_finish h)
  then show ?thesis by (intro quarantine_inv_frame [OF assms(2)]) (auto simp: finish_candidate_def Finish_def Let_def split: sum.splits if_splits)
next
  case (b_candidate timeout stopped accepted now started)
  have "quarantine_inv (ig_owners g) (st\<lparr>hi_awaiting := False\<rparr>)" by (rule quarantine_inv_frame [OF assms(2)]) simp_all
  with b_candidate show ?thesis using assms(2) quarantine_inv_quarantined [OF assms(2) _ _ traffic_free_named(2), of st' timeout now]
    by (auto simp: awaitCandidate_def split: if_splits)
next
  case (h_reference h request e rep ctx)
  then show ?thesis by (intro quarantine_inv_frame [OF assms(2)]) (auto simp: take_reference_def ingress_take_def Let_def split: option.splits)
next
  case (m_report h request e rep)
  then show ?thesis by (intro quarantine_inv_frame [OF assms(2)]) (auto simp: take_candidate_def ingress_take_def Let_def split: option.splits)
next
  case (h_publish h i oc)
  then show ?thesis by (intro quarantine_inv_frame [OF assms(2)]) (auto simp: publish_outcome_def publishReference_def Let_def split: prod.splits)
qed (auto intro!: quarantine_inv_frame [OF assms(2)] simp: serve_enter_def serve_pair_def ingress_start_def serve_return_def close_candidates_def Let_def)

subsection \<open>The invariant\<close>

definition finite_inv :: "ingress_system \<Rightarrow> bool" where
  "finite_inv x \<longleftrightarrow> finite (is_reference x) \<and> finite (is_candidate x) \<and> finite (dom (ip_heap (is_pairs x)))"

lemma finite_inv_step: "ingress_step x y \<Longrightarrow> finite_inv x \<Longrightarrow> finite_inv y"
proof (induction rule: ingress_step.induct)
  case (step_join e s protocol route i decision t)
  then show ?case by (auto simp: finite_inv_def ingress_join_def ingress_admit_def split: option.splits if_splits sum.splits)
next
  case (step_refuse e s protocol route i err t)
  then show ?case by (auto simp: finite_inv_def ingress_join_def ingress_admit_def split: option.splits if_splits sum.splits)
next
  case (step_publish s i oc)
  then show ?case by (auto simp: finite_inv_def publishReference_def split: prod.splits)
next
  case (step_conclude s i raws verdict)
  then show ?case
    by (auto simp: finite_inv_def conclude_def ingress_finishCandidate_def report_def split: prod.splits option.splits outcome.splits)
qed (auto simp: finite_inv_def ingress_start_def ingress_take_def split: option.splits)

definition http_inv :: "'m serve_mux \<Rightarrow> 'm ingress_parts \<Rightarrow> int \<Rightarrow> 'm http_ingress \<Rightarrow> bool" where
  "http_inv M g n st \<longleftrightarrow>
     runs_inv n (ig_maxRequests g) st \<and> held_inv st \<and> permitted_inv M g st \<and> quarantine_inv (ig_owners g) st
     \<and> finite_inv (hi_engine st)"

lemma http_inv_New: "0 < n \<Longrightarrow> http_inv M g n (NewIngress_state n)"
  using ingress.inv_init cand_inv_New [of n]
  by (simp add: http_inv_def runs_inv_def held_inv_def permitted_inv_def quarantine_inv_def finite_inv_def NewIngress_state_def live_def
      apart_def named_def ingress_init_def newIngressPairs_def) (simp add: NewCandidates_def)

lemma http_inv_step:
  assumes "http_step M g s E st st'" "http_inv M g n st"
  shows "http_inv M g n st'"
proof -
  have held: "held_inv st" using assms(2) by (simp add: http_inv_def)
  have "hi_engine st' = hi_engine st \<or> ingress_step (hi_engine st) (hi_engine st')"
    by (rule http_step_engine [OF assms(1)]) (use held_invD(2,3) [OF held] in fastforce)+
  then have "finite_inv (hi_engine st')" using assms(2) finite_inv_step by (auto simp: http_inv_def)
  then show ?thesis
    using assms(2) runs_inv_step [OF assms(1)] held_inv_step [OF assms(1) held] permitted_inv_step [OF assms(1) _ held]
      quarantine_inv_step [OF assms(1) _ held] by (simp add: http_inv_def)
qed

interpretation http: invariant_system "NewIngress_state (int (Suc n))" "http_step M g s E" "http_inv M g (int (Suc n))"
  by unfold_locales (auto intro: http_inv_New http_inv_step)

lemma http_reach_inv: "0 < n \<Longrightarrow> http_reach M g s E n st \<Longrightarrow> http_inv M g n st"
  using http.reach_inv [of "nat n - 1" M g s E st] by simp

subsection \<open>Routes and their nodes\<close>

definition routed :: "node list \<Rightarrow> (string \<times> state_route) list" where
  "routed nodes = concat (map (\<lambda>n. map (\<lambda>p. (p, listed_route n p)) (node_routes n)) nodes)"

lemma add_routes_ok:
  assumes "mux_ok M handlers" "add_routes M n ps (routes, owners) = Inr (routes', owners')" "map_ok handlers routes added"
  shows "map_ok handlers routes' (added @ map (\<lambda>p. (p, listed_route n p)) ps)
    \<and> owners' = owners ++ (\<lambda>p. if p \<in> set ps then Some (n_id n) else None)"
  using assms(2,3)
proof (induction ps arbitrary: routes owners added)
  case (Cons p ps)
  then obtain routes1 where add: "Map_Add M routes p (listed_route n p) = Inr routes1"
    "add_routes M n ps (routes1, owners(p \<mapsto> n_id n)) = Inr (routes', owners')"
    by (auto split: sum.splits)
  have "Map_add M routes p (listed_route n p) = Inr routes1" using add(1) by (auto simp: Map_Add_def split: if_splits)
  then have "map_ok handlers routes1 (added @ [(p, listed_route n p)])" using map_ok_add [OF assms(1) Cons.prems(2)] by blast
  from Cons.IH [OF add(2) this] show ?case by (auto simp: map_add_def fun_eq_iff)
qed (simp add: map_add_def)

lemma add_nodes_ok:
  assumes "mux_ok M handlers" "add_nodes M nodes (routes, owners) = Inr (routes', owners')" "map_ok handlers routes added"
    and "distinct (concat (map node_routes nodes))"
  shows "map_ok handlers routes' (added @ routed nodes)
    \<and> (\<forall>p. owners' p = (case find (\<lambda>n. p \<in> set (node_routes n)) nodes of Some n \<Rightarrow> Some (n_id n) | None \<Rightarrow> owners p))"
  using assms(2-4)
proof (induction nodes arbitrary: routes owners added)
  case (Cons n ns)
  then obtain routes1 owners1 where one: "add_routes M n (node_routes n) (routes, owners) = Inr (routes1, owners1)"
    "add_nodes M ns (routes1, owners1) = Inr (routes', owners')" by auto
  note first = add_routes_ok [OF assms(1) one(1) Cons.prems(2)]
  have "distinct (concat (map node_routes ns))" using Cons.prems(3) by simp
  note rest = Cons.IH [OF one(2) conjunct1 [OF first] this]
  have "find (\<lambda>m. p \<in> set (node_routes m)) ns = None" if "p \<in> set (node_routes n)" for p
    using that Cons.prems(3) by (auto simp: find_None_iff)
  with first rest show ?case by (auto simp: routed_def map_add_def split: option.splits)
qed (simp add: routed_def)

text \<open>A request that the migration state lists is listed by the node that owns its route.\<close>

lemma listed_node:
  assumes "mux_ok M handlers" "stateRoutes M (Some nodes) = Inr (ig_migration g, ig_owners g)" "listed M g request = Some r"
    and "distinct (concat (map node_routes nodes))"
  shows "\<exists>n \<in> set nodes. ingress_route M g request \<in> set (node_routes n) \<and> r = listed_route n (ingress_route M g request)"
proof -
  obtain routes where routes: "ig_migration g = Some routes" "add_nodes M nodes (New_Map M, Map.empty) = Inr (routes, ig_owners g)"
    using assms(2) by (auto simp: stateRoutes_def dest!: sym [of "Some _"])
  have ok: "map_ok handlers routes (routed nodes)" using add_nodes_ok [OF assms(1) routes(2) map_ok_New [OF assms(1)] assms(4)] by simp
  obtain ws where found: "Map_Match M routes (mr_method request) (mr_host request) (mr_path request) = Some (r, ws)"
    using assms(3) routes(1) by (auto simp: listed_def)
  obtain pattern where "(pattern, r) \<in> set (routed nodes)" using Map_Match_added [OF assms(1) ok found] by blast
  then show ?thesis using assms(3) by (auto simp: routed_def ingress_route_def listed_route_def)
qed

lemma owners_node:
  assumes "mux_ok M handlers" "stateRoutes M (Some nodes) = Inr (migration, owners)" "distinct (concat (map node_routes nodes))"
    and "n \<in> set nodes" "p \<in> set (node_routes n)"
  shows "owners p = Some (n_id n)"
proof -
  obtain routes where "add_nodes M nodes (New_Map M, Map.empty) = Inr (routes, owners)" using assms(2) by (auto simp: stateRoutes_def)
  note own = add_nodes_ok [OF assms(1) this map_ok_New [OF assms(1)] assms(3), THEN conjunct2, rule_format, of p]
  have "find (\<lambda>n. p \<in> set (node_routes n)) nodes = Some n" using assms(3-5)
    by (induction nodes) auto
  with own show ?thesis by simp
qed

subsection \<open>Properties of the ingress proxy\<close>

text \<open>
  C10. Only what is migrated reaches the candidate: however requests interleave, with a migration state
  every request that is being mirrored is on a route that a migrated node lists.
\<close>

theorem only_migrated_mirrored:
  assumes "0 < n" "http_reach M g s E n st" "mux_ok M handlers" "stateRoutes M (Some nodes) = Inr (ig_migration g, ig_owners g)"
    and "distinct (concat (map node_routes nodes))" "hi_mirroring st h = Some (Mirroring request e)"
  shows "\<exists>node \<in> set nodes. n_status node = Migrated \<and> ingress_route M g request \<in> set (node_routes node)"
proof -
  have "permitted M g request"
    using http_reach_inv [OF assms(1,2)] permitted_invD(2) [OF _ assms(6)] by (fastforce simp: http_inv_def)
  moreover have "ig_migration g \<noteq> None" using assms(4) by (auto simp: stateRoutes_def dest!: sym [of "Some _"])
  ultimately obtain r where r: "listed M g request = Some r" "sr_migrated r" by (auto simp: permitted_def)
  from listed_node [OF assms(3,4) r(1) assms(5)] r(2) show ?thesis by (auto simp: listed_route_def)
qed

text \<open>
  C13. Nothing leaks: the requests counted in flight are those being served, within the configured
  limit; the live candidate runs are exactly those of requests being paired or mirrored, within
  theirs; and the idle channel that shutdown waits on is closed exactly when there are none.
\<close>

theorem ingress_runs_exact:
  assumes "0 < n" "http_reach M g s E n st"
  shows "hi_requests st = card (dom (hi_serving st)) \<and> hi_requests st \<le> ig_maxRequests g
    \<and> set (ca_runs (hi_candidates st)) = live st \<and> int (card (live st)) \<le> n
    \<and> (ca_idle (hi_candidates st) \<in> set (ca_closed (hi_candidates st)) \<longleftrightarrow> live st = {})"
proof -
  have inv: "runs_inv n (ig_maxRequests g) st" using http_reach_inv [OF assms] by (simp add: http_inv_def)
  then have size: "card (live st) = length (ca_runs (hi_candidates st))"
    using distinct_card [of "ca_runs (hi_candidates st)"] by (simp add: runs_inv_def cand_inv_def)
  with inv show ?thesis by (simp add: runs_inv_def cand_inv_def set_empty [symmetric] del: set_empty)
qed

text \<open>
  C14. A quarantine says what to fix: once the engine has reported a divergence or a failure, in any
  interleaving, the candidate is quarantined, and a quarantine for a route that a node of the
  migration state lists names that node, unless it is about a route that no node lists.
\<close>

theorem quarantine_names_node:
  assumes "0 < n" "http_reach M g s E n st" "mux_ok M handlers" "stateRoutes M (Some nodes) = Inr (ig_migration g, ig_owners g)"
    and "distinct (concat (map node_routes nodes))" "ip_quarantined (is_pairs (hi_engine st)) \<noteq> []"
  shows "\<exists>q. QuarantineStatus (hi_candidates st) = Some q
    \<and> (\<forall>node \<in> set nodes. \<forall>route \<in> set (node_routes node).
         r_traffic (q_reason q) = Some (ingressTraffic ProtocolHTTP route) \<longrightarrow> r_kind (q_reason q) \<noteq> QuarantineUnlisted \<longrightarrow>
         r_node (q_reason q) = Some (n_id node))"
proof -
  have inv: "quarantine_inv (ig_owners g) st" using http_reach_inv [OF assms(1,2)] by (simp add: http_inv_def)
  then obtain q where q: "ca_quarantine (hi_candidates st) = Some q" "reason_named (ig_owners g) (q_reason q)"
    using assms(6) by (auto simp: quarantine_inv_def named_def)
  with owners_node [OF assms(3,4,5)] show ?thesis by (auto simp: QuarantineStatus_def reason_named_def ingressTraffic_def)
qed

text \<open>How many sections a handler still has to run.\<close>

fun rank :: "serving \<Rightarrow> nat" where
  "rank (Admitting r) = 5"
| "rank (Pairing r) = 4"
| "rank (Joining r i e) = 3"
| "rank (Forwarding r e) = 2"
| "rank (Publishing i oc) = 1"
| "rank Passing = 0"

fun mirror_rank :: "mirroring \<Rightarrow> nat" where
  "mirror_rank (Mirroring r e) = 2"
| "mirror_rank (Comparing i rep) = 1"
| "mirror_rank Finishing = 0"

lemma mirrors_enabled: "cand_inv n c \<Longrightarrow> mirrors M g a request c now \<noteq> None"
  using Quarantine_enabled by (auto simp: mirrors_def split: option.splits)

lemma Start_enabled:
  assumes "cand_inv n c" "h \<notin> set (ca_runs c)"
  shows "Start c h now \<noteq> None"
proof -
  obtain a ex c1 where admit: "admit c h = ((a, ex), c1)" by (metis surj_pair)
  then have "cand_inv n c1" using cand_inv_admit [OF assms] by simp
  with admit show ?thesis using Quarantine_enabled by (auto simp: Start_def)
qed

lemma serve_admit_enabled:
  assumes "runs_inv n k st" "hi_serving st h = Some (Admitting request)"
  shows "\<exists>st' ph. serve_admit M g h request now st = Some st' \<and> hi_serving st' h = Some ph \<and> rank ph < 5"
proof -
  have ci: "cand_inv n (hi_candidates st)" using assms(1) by (simp add: runs_inv_def)
  obtain b c where mir: "mirrors M g (hi_awaiting st) request (hi_candidates st) now = Some (b, c)" using mirrors_enabled [OF ci] by fast
  note c = mirrors_keeps [OF mir ci]
  obtain r c' where "Start c h now = Some (r, c')"
    using Start_enabled [of n c h now] c runs_inv_admitting [OF assms] by fastforce
  with mir show ?thesis by (cases b; cases r) (auto simp: serve_admit_def)
qed

lemma fresh_text: "finite (A :: string set) \<Longrightarrow> \<exists>e. e \<notin> A"
  using ex_new_if_finite [OF infinite_UNIV_listI] by blast

lemma Finish_enabled: "cand_inv n c \<Longrightarrow> h \<in> set (ca_runs c) \<Longrightarrow> \<exists>c'. Finish c h = Inr c'"
  by (auto simp: Finish_def cand_inv_def Let_def)

lemma verdict_once_cancelled: "\<exists>v. reported_verdict s ce p rep (Some err) False ctx' = Some v"
  by (cases rep) (auto simp: candidate_verdict_def awaitReference_def Future_Wait_def split: option.splits)

lemma serving_progress:
  assumes inv: "http_inv M g n st" and at: "hi_serving st h = Some ph"
  shows "\<exists>st'. http_step M g s E st st' \<and> (case hi_serving st' h of None \<Rightarrow> ph = Passing | Some ph' \<Rightarrow> rank ph' < rank ph)"
proof (cases ph)
  case (Admitting request)
  have "runs_inv n (ig_maxRequests g) st" using inv by (simp add: http_inv_def)
  from serve_admit_enabled [OF this, of h request M g] at Admitting show ?thesis by (fastforce intro: h_admit)
next
  case (Pairing request)
  obtain i where "ip_heap (is_pairs (hi_engine st)) i = None"
    using fresh_text [of "dom (ip_heap (is_pairs (hi_engine st)))"] inv by (auto simp: http_inv_def finite_inv_def)
  moreover obtain e where "e \<notin> is_reference (hi_engine st) \<union> is_candidate (hi_engine st)"
    using fresh_text [of "is_reference (hi_engine st) \<union> is_candidate (hi_engine st)"] inv by (auto simp: http_inv_def finite_inv_def)
  ultimately have "http_step M g s E st (serve_pair M g None i e h request st)" using h_pair at Pairing by blast
  then show ?thesis using Pairing by (intro exI [of _ "serve_pair M g None i e h request st"]) (auto simp: serve_pair_def Let_def)
next
  case (Joining request i e)
  obtain e' where fresh: "e' \<notin> is_reference (hi_engine st) \<union> is_candidate (hi_engine st)"
    using fresh_text [of "is_reference (hi_engine st) \<union> is_candidate (hi_engine st)"] inv by (auto simp: http_inv_def finite_inv_def)
  have held: "held_inv st" using inv by (simp add: http_inv_def)
  obtain p where "serve_join M g e' 0 h request i e st
     = Some (set_mirror h (Mirroring request e') (set_phase h (Forwarding request e) (st\<lparr>hi_engine := joined_engine (hi_engine st) i e' p\<rparr>)))"
    by (rule serve_join_result [OF held]) (use at Joining in auto)
  from h_join [OF _ fresh this] show ?thesis using at Joining
    by (intro exI [of _ "set_mirror h (Mirroring request e') (set_phase h (Forwarding request e) (st\<lparr>hi_engine := joined_engine (hi_engine st) i e' p\<rparr>))"]) auto
next
  case (Forwarding request e)
  then show ?thesis using h_reference [of st h request e M g s E "ReportUnable []" None] at
    by (intro exI [of _ "take_reference h e (reported_outcome (ReportUnable []) None) st"]) (auto simp: take_reference_def Let_def split: prod.splits option.splits)
next
  case (Publishing i oc)
  then show ?thesis using h_publish [of st h i oc M g s E] at by (intro exI [of _ "publish_outcome h i oc st"]) (auto simp: publish_outcome_def Let_def)
next
  case Passing
  then show ?thesis using h_return [of st h M g s E] at by (intro exI [of _ "serve_return h st"]) (auto simp: serve_return_def)
qed

lemma mirroring_progress:
  assumes inv: "http_inv M g n st" and at: "hi_mirroring st h = Some mp" and ce: "ce \<in> E"
  shows "\<exists>st'. http_step M g s E st st' \<and> (case hi_mirroring st' h of None \<Rightarrow> mp = Finishing | Some mp' \<Rightarrow> mirror_rank mp' < mirror_rank mp)"
proof (cases mp)
  case (Mirroring request e)
  then show ?thesis using m_report [of st h request e M g s E "ReportUnable []"] at
    by (intro exI [of _ "take_candidate h e (ReportUnable []) st"]) (auto simp: take_candidate_def Let_def split: prod.splits option.splits)
next
  case (Comparing i rep)
  let ?x = "hi_engine st"
  obtain v where v: "reported_verdict s ce (the (ip_heap (is_pairs ?x) i)) rep (Some []) False None = Some v" using verdict_once_cancelled by blast
  have ci: "cand_inv n (hi_candidates st)" using inv by (simp add: http_inv_def runs_inv_def)
  obtain c where "quarantine_all (ig_owners g) 0 (drop (length (ip_quarantined (is_pairs ?x))) (ip_quarantined (conclude (is_pairs ?x) i v))) (hi_candidates st) = Some c"
    using quarantine_all_enabled [OF ci] by blast
  with v have "\<exists>st'. compare_candidate (ig_owners g) s ce (Some []) False None 0 h i rep st = Some st' \<and> hi_mirroring st' h = Some Finishing"
    by (simp add: compare_candidate_def engine_call_def Let_def)
  then show ?thesis using m_compare [of st h i rep ce E g s "Some []" False None 0 _ M] at Comparing ce by fastforce
next
  case Finishing
  have "runs_inv n (ig_maxRequests g) st" using inv by (simp add: http_inv_def)
  then obtain c where "Finish (hi_candidates st) h = Inr c"
    using Finish_enabled runs_inv_mirroring [OF _ at] by (metis runs_inv_def)
  then have "finish_candidate h st = Inr (st\<lparr>hi_candidates := c, hi_mirroring := (hi_mirroring st)(h := None)\<rparr>)"
    by (simp add: finish_candidate_def)
  from m_finish [OF _ this] show ?thesis using at Finishing
    by (intro exI [of _ "st\<lparr>hi_candidates := c, hi_mirroring := (hi_mirroring st)(h := None)\<rparr>"]) auto
qed

text \<open>
  C11. The reference never waits for the candidate: in every reachable state each handler can run its
  next section, whatever all mirrors do, and it has at most five before it returns. A mirror, too,
  always gets on, at the latest when its own context ends, so that its run finishes.
\<close>

theorem reference_never_waits:
  assumes "0 < n" "http_reach M g s E n st" "E \<noteq> {}"
  shows "(\<forall>h ph. hi_serving st h = Some ph \<longrightarrow>
      (\<exists>st'. http_step M g s E st st' \<and> (case hi_serving st' h of None \<Rightarrow> ph = Passing | Some ph' \<Rightarrow> rank ph' < rank ph)))
    \<and> (\<forall>h mp. hi_mirroring st h = Some mp \<longrightarrow>
      (\<exists>st'. http_step M g s E st st' \<and> (case hi_mirroring st' h of None \<Rightarrow> mp = Finishing | Some mp' \<Rightarrow> mirror_rank mp' < mirror_rank mp)))"
  using serving_progress [OF http_reach_inv [OF assms(1,2)]] mirroring_progress [OF http_reach_inv [OF assms(1,2)]] assms(3) by blast

subsection \<open>Witnesses\<close>

text \<open>One migrated node that lists one route, and a request on it up to its mirror.\<close>

definition sample_node :: node where
  "sample_node = \<lparr>n_id = ''orders'', n_dependsOn = [], n_status = Migrated,
     n_io = [(http_ingress_kind, [(routesSetting, Table [(''GET /x'', Table [])])])], n_line = 1\<rparr>"

definition sample_routes :: "((string \<times> nat) list, state_route) route_map option \<times> owners" where
  "sample_routes = (case stateRoutes plain_mux (Some [sample_node]) of Inr r \<Rightarrow> r | Inl _ \<Rightarrow> (None, Map.empty))"

definition sample_parts :: "(string \<times> nat) list ingress_parts" where
  "sample_parts = \<lparr>ig_migration = fst sample_routes, ig_owners = snd sample_routes, ig_routes = NewMatcher plain_mux, ig_maxRequests = 2\<rparr>"

lemma sample_stateRoutes: "stateRoutes plain_mux (Some [sample_node]) = Inr (ig_migration sample_parts, ig_owners sample_parts)"
proof -
  have "\<not> is_err (stateRoutes plain_mux (Some [sample_node]))" by code_simp
  then show ?thesis by (cases "stateRoutes plain_mux (Some [sample_node])") (simp_all add: sample_parts_def sample_routes_def)
qed

lemma sample_listed: "listed plain_mux sample_parts sample_request = Some (listed_route sample_node ''GET /x'')" by code_simp

lemma sample_route: "ingress_route plain_mux sample_parts sample_request = ''GET /x''"
  by (simp add: ingress_route_def sample_listed listed_route_def)

lemma sample_unique: "distinct (concat (map node_routes [sample_node]))" "node_routes sample_node = [''GET /x'']" by code_simp+

lemma sample_max: "ig_maxRequests sample_parts = 2" by (simp add: sample_parts_def)

abbreviation sample_reach :: "(string \<times> nat) list http_ingress \<Rightarrow> bool" where
  "sample_reach \<equiv> http_reach plain_mux sample_parts empty_scripts {no_evaluations} 1"

definition sample_pair :: ingress_pair where
  "sample_pair = (newIngressPair ProtocolHTTP ''r1'' ''GET /x'' None)\<lparr>pa_joined := True\<rparr>"

definition sample_mirrored :: "(string \<times> nat) list http_ingress" where
  "sample_mirrored = (NewIngress_state 1)
     \<lparr>hi_requests := 1, hi_calls := Count NewCallCounter ''GET /x'',
      hi_candidates := (NewCandidates 1)\<lparr>ca_idle := 1, ca_next := 2, ca_runs := [0]\<rparr>,
      hi_engine := \<lparr>is_pairs = newIngressPairs\<lparr>ip_heap := [''r1'' \<mapsto> sample_pair], ip_requests := {''r1''},
          ip_exchanges := [''e1'' \<mapsto> ''r1'', ''e2'' \<mapsto> ''r1'']\<rparr>,
        is_reference = {''e1''}, is_candidate = {''e2''}, is_publishing = Map.empty, is_comparing = Map.empty\<rparr>,
      hi_serving := [0 \<mapsto> Forwarding sample_request ''e1''], hi_mirroring := [0 \<mapsto> Mirroring sample_request ''e2'']\<rparr>"

lemma sample_reach_mirrored: "sample_reach sample_mirrored"
proof -
  let ?step = "http_step plain_mux sample_parts empty_scripts {no_evaluations}"
  let ?st0 = "NewIngress_state 1 :: (string \<times> nat) list http_ingress"
  let ?st1 = "?st0\<lparr>hi_requests := 1, hi_calls := Count NewCallCounter ''GET /x'', hi_serving := [0 \<mapsto> Admitting sample_request]\<rparr>"
  let ?st2 = "?st1\<lparr>hi_candidates := (NewCandidates 1)\<lparr>ca_idle := 1, ca_next := 2, ca_runs := [0]\<rparr>, hi_serving := [0 \<mapsto> Pairing sample_request]\<rparr>"
  let ?st3 = "serve_pair plain_mux sample_parts None ''r1'' ''e1'' 0 sample_request ?st2"
  have "?step ?st0 ?st1" using h_enter [of ?st0 0 plain_mux sample_parts empty_scripts "{no_evaluations}" sample_request]
    by (simp add: serve_enter_def sample_route sample_max NewIngress_state_def)
  moreover have "ig_migration sample_parts \<noteq> None" using sample_stateRoutes by (auto simp: stateRoutes_def dest!: sym [of "Some _"])
  then have "serve_admit plain_mux sample_parts 0 sample_request 0 ?st1 = Some ?st2"
    by (simp add: serve_admit_def mirrors_def sample_listed listed_route_def sample_node_def NewIngress_state_def Start_def admit_def NewCandidates_def)
  then have "?step ?st1 ?st2" by (intro h_admit [of _ 0 sample_request]) simp_all
  moreover have "?step ?st2 ?st3" by (intro h_pair) (simp_all add: NewIngress_state_def ingress_init_def newIngressPairs_def)
  moreover have "serve_join plain_mux sample_parts ''e2'' 0 0 sample_request ''r1'' ''e1'' ?st3 = Some sample_mirrored"
    by (simp add: serve_join_def serve_pair_def ingress_start_def ingress_join_def ingress_admit_def pair_join_def newIngressPair_def engine_call_def
        NewIngress_state_def ingress_init_def newIngressPairs_def sample_mirrored_def sample_pair_def sample_route)
  then have "?step ?st3 sample_mirrored"
    by (intro h_join [of _ 0 sample_request "''r1''" "''e1''" "''e2''"]) (simp_all add: serve_pair_def NewIngress_state_def ingress_init_def)
  ultimately show ?thesis by (meson reach_init reach_step)
qed

theorem only_migrated_mirrored_witness:
  "\<exists>node \<in> set [sample_node]. n_status node = Migrated \<and> ingress_route plain_mux sample_parts sample_request \<in> set (node_routes node)"
  using only_migrated_mirrored [OF _ sample_reach_mirrored plain_mux_ok sample_stateRoutes sample_unique(1), of 0 sample_request "''e2''"]
  by (simp add: sample_mirrored_def)

theorem ingress_runs_exact_witness:
  "set (ca_runs (hi_candidates sample_mirrored)) = live sample_mirrored \<and> hi_requests sample_mirrored = 1"
  using ingress_runs_exact [OF _ sample_reach_mirrored] by (simp add: sample_mirrored_def)

theorem reference_never_waits_witness:
  "\<exists>st'. http_step plain_mux sample_parts empty_scripts {no_evaluations} sample_mirrored st'
     \<and> (case hi_serving st' 0 of None \<Rightarrow> False | Some ph' \<Rightarrow> rank ph' < 2)"
proof -
  have at: "hi_serving sample_mirrored 0 = Some (Forwarding sample_request ''e1'')" by (simp add: sample_mirrored_def)
  obtain st' where "http_step plain_mux sample_parts empty_scripts {no_evaluations} sample_mirrored st'"
      "case hi_serving st' 0 of None \<Rightarrow> Forwarding sample_request ''e1'' = Passing | Some ph' \<Rightarrow> rank ph' < rank (Forwarding sample_request ''e1'')"
    using conjunct1 [OF reference_never_waits [OF _ sample_reach_mirrored], rule_format, OF _ _ at] by auto
  then show ?thesis by (auto split: option.splits)
qed

theorem quarantine_names_node_witness:
  "\<exists>st q. sample_reach st \<and> QuarantineStatus (hi_candidates st) = Some q \<and> r_node (q_reason q) = Some ''orders''"
proof -
  let ?step = "http_step plain_mux sample_parts empty_scripts {no_evaluations}"
  let ?st1 = "take_candidate 0 ''e2'' (ReportUnable ''refused'') sample_mirrored"
  let ?reason = "plain_reason QuarantineUnable (Some (ingressTraffic ProtocolHTTP ''GET /x'')) ''response comparison failed: candidate: refused''"
  have "?step sample_mirrored ?st1" by (rule m_report [of _ 0 sample_request "''e2''"]) (simp add: sample_mirrored_def)
  then have r1: "sample_reach ?st1" by (rule reach_step [OF sample_reach_mirrored])
  have own: "ig_owners sample_parts ''GET /x'' = Some ''orders''"
    using owners_node [OF plain_mux_ok sample_stateRoutes sample_unique(1), of sample_node "''GET /x''"] sample_unique(2) by (simp add: sample_node_def)
  have "\<exists>st. compare_candidate (ig_owners sample_parts) empty_scripts no_evaluations None True None 7 0 ''r1'' (ReportUnable ''refused'') ?st1 = Some st
      \<and> ip_quarantined (is_pairs (hi_engine st)) = [?reason]
      \<and> (\<exists>q. ca_quarantine (hi_candidates st) = Some q \<and> r_traffic (q_reason q) = r_traffic ?reason \<and> r_kind (q_reason q) = QuarantineUnable)"
    by (simp add: compare_candidate_def take_candidate_def ingress_take_def sample_mirrored_def sample_pair_def newIngressPair_def newIngressPairs_def
        unable_verdict_def conclude_def report_def result_defs ingress_finishCandidate_def pair_finishCandidate_def engine_call_def node_Quarantine_def
        Quarantine_def name_node_def own NewCandidates_def snapshot_def ingressTraffic_def plain_reason_def Let_def releaseReference_def)
  then obtain st where st: "compare_candidate (ig_owners sample_parts) empty_scripts no_evaluations None True None 7 0 ''r1'' (ReportUnable ''refused'') ?st1 = Some st"
      "ip_quarantined (is_pairs (hi_engine st)) = [?reason]" "\<exists>q. ca_quarantine (hi_candidates st) = Some q \<and> r_traffic (q_reason q) = r_traffic ?reason \<and> r_kind (q_reason q) = QuarantineUnable" by blast
  have "?step ?st1 st" by (rule m_compare [of _ 0 "''r1''" "ReportUnable ''refused''" no_evaluations]) (use st(1) in \<open>simp_all add: take_candidate_def ingress_take_def sample_mirrored_def\<close>)
  then have r2: "sample_reach st" by (rule reach_step [OF r1])
  have "ip_quarantined (is_pairs (hi_engine st)) \<noteq> []" by (simp add: st(2))
  then obtain q where q: "QuarantineStatus (hi_candidates st) = Some q"
      "\<forall>node \<in> set [sample_node]. \<forall>route \<in> set (node_routes node). r_traffic (q_reason q) = Some (ingressTraffic ProtocolHTTP route) \<longrightarrow>
         r_kind (q_reason q) \<noteq> QuarantineUnlisted \<longrightarrow> r_node (q_reason q) = Some (n_id node)"
    using quarantine_names_node [OF _ r2 plain_mux_ok sample_stateRoutes sample_unique(1)] by auto
  have "r_traffic (q_reason q) = Some (ingressTraffic ProtocolHTTP ''GET /x'')" "r_kind (q_reason q) = QuarantineUnable"
    using st(3) q(1) by (auto simp: QuarantineStatus_def plain_reason_def)
  then have "r_node (q_reason q) = Some (n_id sample_node)" using q(2) sample_unique(2) by simp
  with r2 q(1) show ?thesis by (auto simp: sample_node_def)
qed

end
