(* ===== verification/Reverse_Proxy.thy ===== *)
theory Reverse_Proxy
  imports Message_Decoder Net_Address
begin

text \<open>
  \<open>internal/httpserver/reverse.go\<close>, what the reverse proxies send to a backend, and
  \<open>middleware/health/handler.go\<close>, the liveness and readiness probes.

  \<open>NewReverseProxy\<close> configures Go's \<open>httputil.ReverseProxy\<close>: its \<open>Rewrite\<close> function is translated here,
  with \<open>SetURL\<close> and \<open>SetXForwarded\<close> as the standard library has them. A header is a map from canonical
  names to values, as the server builds it. Sending the rewritten request is the transport's.
\<close>

subsection \<open>Rewriting requests\<close>

definition header_Del :: "string \<Rightarrow> header \<Rightarrow> header" where
  "header_Del name h = filter (\<lambda>(k, _). k \<noteq> canonical_key name) h"

definition header_Set :: "string \<Rightarrow> string \<Rightarrow> header \<Rightarrow> header" where
  "header_Set name v h = header_Del name h @ [(canonical_key name, [v])]"

record inbound =
  in_host :: string
  in_remoteAddr :: string
  in_tls :: bool

record outbound =
  ob_scheme :: string
  ob_urlHost :: string
  ob_host :: string
  ob_header :: header

text \<open>The URL of a backend has no path, so \<open>SetURL\<close> keeps that of the request.\<close>

definition SetURL :: "url \<Rightarrow> outbound \<Rightarrow> outbound" where
  "SetURL target out = out\<lparr>ob_scheme := ul_scheme target, ob_urlHost := ul_host target, ob_host := []\<rparr>"

definition SetXForwarded :: "inbound \<Rightarrow> header \<Rightarrow> header" where
  "SetXForwarded inb h =
     (let h1 = (case SplitHostPort (in_remoteAddr inb) of
            None \<Rightarrow> header_Del ''X-Forwarded-For'' h
          | Some (clientIP, _) \<Rightarrow>
              (case map_of h ''X-Forwarded-For'' of
                 None \<Rightarrow> header_Set ''X-Forwarded-For'' clientIP h
               | Some prior \<Rightarrow>
                   header_Set ''X-Forwarded-For'' (if prior = [] then clientIP else join '', '' prior @ '', '' @ clientIP) h))
      in header_Set ''X-Forwarded-Proto'' (if in_tls inb then ''https'' else ''http'')
           (header_Set ''X-Forwarded-Host'' (in_host inb) h1))"

text \<open>The loop over the names of the header, and the deletions in it.\<close>

definition forwarded_name :: "string \<Rightarrow> bool" where
  "forwarded_name name \<longleftrightarrow> CutPrefix (canonical_key name) ''X-Forwarded-'' \<noteq> None"

definition drop_forwarded :: "header \<Rightarrow> header" where
  "drop_forwarded h = fold (\<lambda>name h. if forwarded_name name then header_Del name h else h) (map fst h) h"

record reverse_proxy =
  rp_target :: net_endpoint
  rp_url :: url
  rp_discard :: bool

definition NewReverseProxy :: "net_endpoint \<Rightarrow> bool \<Rightarrow> reverse_proxy result" where
  "NewReverseProxy target discard =
     (case en_url target of
        None \<Rightarrow> Inl ''reverse proxy target is not a backend''
      | Some targetURL \<Rightarrow> Inr \<lparr>rp_target = target, rp_url = targetURL, rp_discard = discard\<rparr>)"

definition Rewrite :: "reverse_proxy \<Rightarrow> inbound \<Rightarrow> outbound \<Rightarrow> outbound" where
  "Rewrite p inb out =
     (let out1 = SetURL (rp_url p) out;
          out2 = (if IsUnix (rp_target p) then out1\<lparr>ob_host := in_host inb\<rparr> else out1);
          h1 = header_Del ''X-Real-IP'' (drop_forwarded (ob_header out2))
      in out2\<lparr>ob_header := header_Del ''X-Forwarded-Host'' (SetXForwarded inb h1)\<rparr>)"

text \<open>What the error handler writes: nothing for a candidate, whose response is discarded.\<close>

definition proxy_ErrorHandler :: "reverse_proxy \<Rightarrow> int option" where
  "proxy_ErrorHandler p = (if rp_discard p then None else Some 502)"

text \<open>The host the backend sees: that of the request, or that of the URL when the request has none.\<close>

definition sent_host :: "outbound \<Rightarrow> string" where
  "sent_host out = (if ob_host out = [] then ob_urlHost out else ob_host out)"

subsection \<open>Probes\<close>

datatype health = Health (he_ready: bool) (he_dependencies: "health list")

definition New_health :: health where
  "New_health = Health False []"

definition NewAll :: "health list \<Rightarrow> health" where
  "NewAll handlers = Health True handlers"

definition SetReady :: "bool \<Rightarrow> health \<Rightarrow> health" where
  "SetReady ready h = Health ready (he_dependencies h)"

fun Ready :: "health \<Rightarrow> bool" where
  "Ready (Health ready dependencies) = (ready \<and> list_all Ready dependencies)"

text \<open>The status a probe gets, or \<open>None\<close> when the next handler serves the request.\<close>

definition health_ServeHTTP :: "health \<Rightarrow> string \<Rightarrow> string \<Rightarrow> int option" where
  "health_ServeHTTP h path verb =
     (let probe = (\<lambda>healthy. Some (if verb \<noteq> ''GET'' \<and> verb \<noteq> ''HEAD'' then 405 else if \<not> healthy then 503 else 204))
      in if path = ''/livez'' then probe True
         else if path = ''/readyz'' then probe (Ready h)
         else None)"

subsection \<open>Headers\<close>

definition canonical_header :: "header \<Rightarrow> bool" where
  "canonical_header h \<longleftrightarrow> (\<forall>name \<in> set (map fst h). canonical_key name = name)"

lemma map_of_filter_key: "map_of (filter (\<lambda>(k, _). P k) h) k = (if P k then map_of h k else None)"
  by (induction h) auto

lemma map_of_header_Del: "map_of (header_Del name h) k = (if k = canonical_key name then None else map_of h k)"
  by (simp add: header_Del_def map_of_filter_key [of "\<lambda>k. k \<noteq> canonical_key name"])

lemma map_of_header_Set: "map_of (header_Set name v h) k = (if k = canonical_key name then Some [v] else map_of h k)"
  by (simp add: header_Set_def map_add_def map_of_header_Del split: option.split)

lemma canonical_names [simp]:
  "canonical_key ''X-Forwarded-For'' = ''X-Forwarded-For''" "canonical_key ''X-Forwarded-Host'' = ''X-Forwarded-Host''"
  "canonical_key ''X-Forwarded-Proto'' = ''X-Forwarded-Proto''" "canonical_key ''X-Real-IP'' = ''X-Real-Ip''"
  by code_simp+

lemma map_of_drop_fold:
  "(\<And>n. n \<in> set names \<Longrightarrow> canonical_key n = n) \<Longrightarrow>
   map_of (fold (\<lambda>name h. if forwarded_name name then header_Del name h else h) names h) k
     = (if k \<in> set names \<and> forwarded_name k then None else map_of h k)"
  by (induction names arbitrary: h) (auto simp: map_of_header_Del)

lemma map_of_drop_forwarded:
  assumes "canonical_header h"
  shows "map_of (drop_forwarded h) k = (if forwarded_name k then None else map_of h k)"
proof -
  have "map_of (drop_forwarded h) k = (if k \<in> set (map fst h) \<and> forwarded_name k then None else map_of h k)"
    unfolding drop_forwarded_def by (rule map_of_drop_fold) (use assms in \<open>auto simp: canonical_header_def\<close>)
  moreover have "k \<notin> set (map fst h) \<Longrightarrow> map_of h k = None" by (simp add: map_of_eq_None_iff)
  ultimately show ?thesis by auto
qed

lemma forwarded_names [simp]:
  "forwarded_name ''X-Forwarded-For''" "forwarded_name ''X-Forwarded-Host''" "forwarded_name ''X-Forwarded-Proto''"
  "\<not> forwarded_name ''X-Real-Ip''"
  by code_simp+

lemma map_of_SetXForwarded:
  assumes "map_of h ''X-Forwarded-For'' = None"
  shows "map_of (SetXForwarded inb h) k =
    (if k = ''X-Forwarded-For'' then map_option (\<lambda>(clientIP, _). [clientIP]) (SplitHostPort (in_remoteAddr inb))
     else if k = ''X-Forwarded-Proto'' then Some [if in_tls inb then ''https'' else ''http'']
     else if k = ''X-Forwarded-Host'' then Some [in_host inb]
     else map_of h k)"
  using assms
  by (cases "SplitHostPort (in_remoteAddr inb)")
    (simp_all add: SetXForwarded_def map_of_header_Del map_of_header_Set split: prod.split)

text \<open>
  C17. Backends can trust the forwarding headers: whatever forwarding headers a client sends, the
  only ones the backend gets are the address the request really came from, if that is known, and the
  scheme of the connection; the real-IP header is gone and every other header passes unchanged.
  The host is the client's for a socket, which routes by it, and the backend's own otherwise.
\<close>

theorem forwarding_headers_trusted:
  assumes "canonical_header (ob_header out)" "in_host inb \<noteq> []"
    and "ParseBackend N backend = Inr e" "NewReverseProxy e discard = Inr p"
  shows "map_of (ob_header (Rewrite p inb out)) k =
      (if k = ''X-Forwarded-For'' then map_option (\<lambda>(clientIP, _). [clientIP]) (SplitHostPort (in_remoteAddr inb))
       else if k = ''X-Forwarded-Proto'' then Some [if in_tls inb then ''https'' else ''http'']
       else if forwarded_name k \<or> k = ''X-Real-Ip'' then None
       else map_of (ob_header out) k)
    \<and> sent_host (Rewrite p inb out) = (if IsUnix e then in_host inb else en_address e)"
proof
  let ?h = "header_Del ''X-Real-IP'' (drop_forwarded (ob_header out))"
  have clean: "map_of ?h k = (if forwarded_name k \<or> k = ''X-Real-Ip'' then None else map_of (ob_header out) k)" for k
    by (simp add: map_of_header_Del map_of_drop_forwarded [OF assms(1)])
  have none: "map_of ?h ''X-Forwarded-For'' = None" by (simp add: clean)
  have "ob_header (Rewrite p inb out) = header_Del ''X-Forwarded-Host'' (SetXForwarded inb ?h)"
    by (simp add: Rewrite_def SetURL_def Let_def)
  then show "map_of (ob_header (Rewrite p inb out)) k =
      (if k = ''X-Forwarded-For'' then map_option (\<lambda>(clientIP, _). [clientIP]) (SplitHostPort (in_remoteAddr inb))
       else if k = ''X-Forwarded-Proto'' then Some [if in_tls inb then ''https'' else ''http'']
       else if forwarded_name k \<or> k = ''X-Real-Ip'' then None
       else map_of (ob_header out) k)"
    by (cases "k = ''X-Forwarded-Host''") (simp_all add: map_of_header_Del map_of_SetXForwarded [OF none] map_of_drop_forwarded [OF assms(1)])
next
  have p: "rp_target p = e" "en_url e = Some (rp_url p)"
    using assms(4) by (auto simp: NewReverseProxy_def split: option.splits)
  with ParseBackend_ok [OF assms(3)] assms(2) show "sent_host (Rewrite p inb out) = (if IsUnix e then in_host inb else en_address e)"
    by (cases "en_network e") (auto simp: sent_host_def Rewrite_def SetURL_def Let_def IsUnix_def backend_ok_def)
qed

text \<open>
  A parsed backend always has its reverse proxy.
\<close>

lemma NewReverseProxy_backend: "ParseBackend N v = Inr e \<Longrightarrow> \<exists>p. NewReverseProxy e discard = Inr p"
  by (auto simp: NewReverseProxy_def backend_ok_def dest!: ParseBackend_ok)

text \<open>A spoofed address is replaced.\<close>

definition spoofed :: outbound where
  "spoofed = \<lparr>ob_scheme = [], ob_urlHost = [], ob_host = ''h'', ob_header = [(''X-Forwarded-For'', [''1.1.1.1'']), (''Accept'', [''a''])]\<rparr>"

theorem forwarding_headers_trusted_witness:
  "\<exists>e p. ParseBackend sample_net ''http://api:80'' = Inr e \<and> NewReverseProxy e False = Inr p
     \<and> map_of (ob_header (Rewrite p \<lparr>in_host = ''h'', in_remoteAddr = ''9:5'', in_tls = False\<rparr> spoofed)) ''X-Forwarded-For'' = Some [''9'']"
proof -
  let ?e = "newEndpoint networkTCP ''api:80'' (Some (plain_url ''http'' ''api:80'')) False 80"
  let ?p = "\<lparr>rp_target = ?e, rp_url = plain_url ''http'' ''api:80'', rp_discard = False\<rparr>"
  have parsed: "ParseBackend sample_net ''http://api:80'' = Inr ?e" by code_simp
  have proxied: "NewReverseProxy ?e False = Inr ?p" by (simp add: NewReverseProxy_def newEndpoint_def)
  have "canonical_header (ob_header spoofed)" "SplitHostPort ''9:5'' = Some (''9'', ''5'')" by code_simp+
  then show ?thesis
    using parsed proxied forwarding_headers_trusted [of spoofed "\<lparr>in_host = ''h'', in_remoteAddr = ''9:5'', in_tls = False\<rparr>" sample_net
        "''http://api:80''" ?e False ?p "''X-Forwarded-For''"]
    by auto
qed

end
