(* ===== verification/Http_Egress.thy ===== *)
theory Http_Egress
  imports Http_Ingress Reverse_Proxy Egress_Queue
begin

text \<open>
  \<open>internal/httpserver/egress.go\<close> and \<open>egress_config.go\<close>: the egress proxy. It forwards what the
  reference sends to a dependency and records the answers, and it answers what the candidate sends
  from the recordings, without ever sending it.

  Globs are third-party: compiling a host pattern and matching it are arguments. Descriptors, decoding
  and logging are configured elsewhere. \<open>Http_Ingress\<close> has what both proxies share (points, requests,
  configuration), \<open>Egress_Queue\<close> the pairing of requests, \<open>Body_Stream\<close> the captured bodies and the
  recordings.
\<close>

subsection \<open>Configuration and destinations\<close>

record egress_config =
  ec_referenceListen :: string
  ec_candidateListen :: string
  ec_healthListen :: string
  ec_destinations :: "(string \<times> string) list"
  ec_recordingBufferBytes :: int
  ec_config :: server_config

definition EgressConfig_Validate :: "egress_config \<Rightarrow> unit result" where
  "EgressConfig_Validate c =
     bind_result (requirePositive [(''recording buffer size'', ec_recordingBufferBytes c)]) (\<lambda>_. Config_Validate (ec_config c))"

record 'g destination =
  de_pattern :: 'g
  de_proxy :: reverse_proxy

record 'g glob =
  gl_compile :: "string \<Rightarrow> 'g result"
  gl_match :: "'g \<Rightarrow> string \<Rightarrow> bool"

definition targetsListener :: "net_libs \<Rightarrow> net_endpoint \<Rightarrow> net_endpoint list \<Rightarrow> bool" where
  "targetsListener N e listeners = list_ex (TargetsListener N e) listeners"

text \<open>The loop over the configured hosts, in order, with the names seen so far.\<close>

fun add_destinations :: "net_libs \<Rightarrow> 'g glob \<Rightarrow> net_endpoint list \<Rightarrow> string list \<Rightarrow> (string \<times> string) list \<Rightarrow> 'g destination list result" where
  "add_destinations N G listeners seen [] = Inr []"
| "add_destinations N G listeners seen ((host, upstream) # rest) =
     (let name = ToLower host in
      if name = [] \<or> CHR '':'' \<in> set name
      then Inl (''destination host '' @ go_quote host @ '' must be a host name without a port'')
      else if name \<in> set seen then Inl (''destination host '' @ go_quote host @ '' is configured more than once'')
      else case ParseBackend N upstream of
        Inl err \<Rightarrow> Inl (wrap (''parse destination '' @ go_quote host) err)
      | Inr e \<Rightarrow>
          (if targetsListener N e listeners then Inl (''destination '' @ go_quote host @ '' must not target an egress listener'')
           else case gl_compile G name of
             Inl err \<Rightarrow> Inl (wrap (''destination host '' @ go_quote host @ '' is not a valid glob'') err)
           | Inr pattern \<Rightarrow>
               (case NewReverseProxy e False of
                  Inl err \<Rightarrow> Inl (wrap (''proxy destination '' @ go_quote host) err)
                | Inr proxy \<Rightarrow>
                    bind_result (add_destinations N G listeners (name # seen) rest) (\<lambda>ds. Inr (\<lparr>de_pattern = pattern, de_proxy = proxy\<rparr> # ds)))))"

definition egressDestinations :: "net_libs \<Rightarrow> 'g glob \<Rightarrow> (string \<times> string) list \<Rightarrow> net_endpoint list \<Rightarrow> 'g destination list result" where
  "egressDestinations N G upstreams listeners =
     add_destinations N G listeners [] (map (\<lambda>host. (host, the (map_of upstreams host))) (sort (remdups (map fst upstreams))))"

record 'g egress =
  eg_destinations :: "'g destination list"
  eg_listeners :: "net_endpoint list"
  eg_maxRequests :: nat
  eg_maxBodyBytes :: int

text \<open>
  \<open>NewEgress\<close> up to the engine: the configuration, the candidate's listener, the destinations.
\<close>

definition NewEgress :: "net_libs \<Rightarrow> 'g glob \<Rightarrow> egress_config \<Rightarrow> 'g egress result" where
  "NewEgress N G c =
     bind_result (EgressConfig_Validate c) (\<lambda>_.
       let candidateListen = ParseListen (ec_candidateListen c) in
       if \<not> IsUnix candidateListen \<and> \<not> IsLoopback N candidateListen
       then Inl ''candidate listener must use a loopback IP address or a unix socket''
       else
         let listeners = [ParseListen (ec_referenceListen c), candidateListen, ParseListen (ec_healthListen c)]
         in bind_result (egressDestinations N G (ec_destinations c) listeners) (\<lambda>destinations.
              Inr \<lparr>eg_destinations = destinations, eg_listeners = listeners,
                   eg_maxRequests = nat (sc_maxInFlightRequests (ec_config c)),
                   eg_maxBodyBytes = sc_comparisonMaxBodyBytes (ec_config c)\<rparr>))"

definition hostname :: "string \<Rightarrow> string" where
  "hostname host = ToLower (fst (url_split host))"

definition egress_destination :: "'g glob \<Rightarrow> 'g egress \<Rightarrow> string \<Rightarrow> reverse_proxy option" where
  "egress_destination G eg host =
     map_option de_proxy (find (\<lambda>d. gl_match G (de_pattern d) (hostname host)) (eg_destinations eg))"

definition egress_upstream :: "net_libs \<Rightarrow> 'g glob \<Rightarrow> 'g egress \<Rightarrow> request \<Rightarrow> reverse_proxy option" where
  "egress_upstream N G eg request =
     (case egress_destination G eg (mr_host request) of
        Some destination \<Rightarrow> Some destination
      | None \<Rightarrow>
          (case ParseBackend N (''http://'' @ mr_host request) of
             Inl err \<Rightarrow> None
           | Inr e \<Rightarrow>
               if targetsListener N e (eg_listeners eg) then None
               else case NewReverseProxy e False of Inl err \<Rightarrow> None | Inr destination \<Rightarrow> Some destination))"

definition egress_route :: "'m serve_mux \<Rightarrow> 'm matcher \<Rightarrow> request \<Rightarrow> route" where
  "egress_route M routes request =
     (case Matcher_Request M routes (mr_method request) (mr_host request) (mr_path request) of
        Some (endpoint, _) \<Rightarrow> re_pattern endpoint
      | None \<Rightarrow> mr_method request @ '' '' @ hostname (mr_host request) @ mr_path request)"

definition newMessageRequest :: "request \<Rightarrow> request" where
  "newMessageRequest request = request\<lparr>mr_body := [], mr_overflow := False\<rparr>"

subsection \<open>The reference's requests\<close>

text \<open>Where the captured body comes from: nowhere, an empty body, or the tee on the forwarded body.\<close>

datatype body_capture = NoCapture io_error | EmptyCapture io_error | TeeCapture

definition reference_capture :: "bool \<Rightarrow> bool \<Rightarrow> int \<Rightarrow> body_capture" where
  "reference_capture has_upstream has_body contentLength =
     (if \<not> has_upstream then NoCapture (IoError ''request has no usable destination'')
      else if \<not> has_body \<or> contentLength = 0 then EmptyCapture EOF
      else TeeCapture)"

text \<open>What the engine's hashing calls: \<open>ctx\<close> and \<open>pick\<close> are those of waiting for the captured body.\<close>

definition reference_payload :: "'m serve_mux \<Rightarrow> libs \<Rightarrow> 'm decoder \<Rightarrow> 'g glob \<Rightarrow> 'g egress \<Rightarrow> request \<Rightarrow> request_capture \<Rightarrow> string option \<Rightarrow> bool
    \<Rightarrow> message returns" where
  "reference_payload M L d G eg snap captured ctx pick =
     (if egress_destination G eg (mr_host snap) = None
      then Some (Inl (''reference request to unconfigured host '' @ go_quote (mr_host snap)))
      else bind_returns (capture_wait captured ctx pick) (\<lambda>(body, overflow).
        Some (Decoder_Request M L d (snap\<lparr>mr_body := body, mr_overflow := overflow\<rparr>))))"

datatype serve_action =
  Refuse int string
  | PassThrough reverse_proxy
  | Respond responding

definition serveReference_enter :: "'g egress \<Rightarrow> nat \<Rightarrow> serve_action option \<times> nat" where
  "serveReference_enter eg requests =
     (if requests < eg_maxRequests eg then (None, requests + 1) else (Some (Refuse 503 ''egress request capacity exceeded''), requests))"

definition serveReference :: "reverse_proxy option \<Rightarrow> decision result \<Rightarrow> serve_action" where
  "serveReference upstream processed =
     (case processed of
        Inl err \<Rightarrow> (case upstream of Some destination \<Rightarrow> PassThrough destination | None \<Rightarrow> Refuse 502 [])
      | Inr decision \<Rightarrow> Respond (respond decision (upstream \<noteq> None)))"

subsection \<open>The candidate's requests\<close>

text \<open>
  A body is the bytes it delivers and the error that ends it, if one does. \<open>io.ReadAll\<close> of the
  \<open>io.LimitReader\<close> reads no further than one byte past the limit, so it does not see an error behind
  that byte.
\<close>

definition read_limited :: "nat \<Rightarrow> bytes \<times> string option \<Rightarrow> bytes result" where
  "read_limited n sent =
     (case sent of
        (all, Some err) \<Rightarrow> if length all < n then Inl err else Inr (take n all)
      | (all, None) \<Rightarrow> Inr (take n all))"

definition candidate_payload :: "'m serve_mux \<Rightarrow> libs \<Rightarrow> 'm decoder \<Rightarrow> 'g glob \<Rightarrow> 'g egress \<Rightarrow> request \<Rightarrow> bytes \<times> string option \<Rightarrow> message result" where
  "candidate_payload M L d G eg request sent =
     (if egress_destination G eg (mr_host request) = None
      then Inl (''candidate request to unconfigured host '' @ go_quote (mr_host request))
      else
        let limit = nat (eg_maxBodyBytes eg) in
        case read_limited (limit + 1) sent of
          Inl err \<Rightarrow> Inl (wrap ''read candidate request body'' err)
        | Inr body \<Rightarrow>
            Decoder_Request M L d ((newMessageRequest request)\<lparr>mr_body := take limit body, mr_overflow := (length body > limit)\<rparr>))"

definition serveCandidate :: "run option \<Rightarrow> decision result \<Rightarrow> serve_action" where
  "serveCandidate admitted processed =
     (case admitted of
        None \<Rightarrow> Refuse 503 ''candidate requests are refused''
      | Some run \<Rightarrow>
          (case processed of
             Inl err \<Rightarrow> Refuse 502 ''no matching reference response''
           | Inr decision \<Rightarrow> Respond (respond decision False)))"

subsection \<open>Readiness and shutdown\<close>

definition egress_markReady :: "health \<Rightarrow> health" where
  "egress_markReady h = SetReady True h"

definition egress_stop :: "health \<times> candidates \<Rightarrow> health \<times> candidates" where
  "egress_stop = (\<lambda>(h, c). (SetReady False h, snd (close_candidates c)))"

text \<open>
  \<open>drain\<close> waits on the idle channel of the candidates, and then on that of the engine; each wait sees the
  state of its own moment.
\<close>

definition egress_drain :: "candidates \<Rightarrow> chan \<Rightarrow> 'h egress_queue \<Rightarrow> chan \<Rightarrow> string option \<Rightarrow> bool \<Rightarrow> bool \<Rightarrow> unit result option" where
  "egress_drain c idle q hashing ctx pick pick' =
     bind_returns (Shutdown_wait c idle ctx pick) (\<lambda>_.
       map_option (map_sum (wrap ''wait for reference hashing'') id) (shutdown_wait q hashing ctx pick'))"

subsection \<open>Properties\<close>

text \<open>What egress may forward to: a parsed backend that none of its listeners serves.\<close>

definition safe_proxy :: "net_libs \<Rightarrow> net_endpoint list \<Rightarrow> reverse_proxy \<Rightarrow> bool" where
  "safe_proxy N listeners p \<longleftrightarrow> (\<exists>v. ParseBackend N v = Inr (rp_target p)) \<and> \<not> targetsListener N (rp_target p) listeners \<and> \<not> rp_discard p"

lemma NewReverseProxy_target: "NewReverseProxy e discard = Inr p \<Longrightarrow> rp_target p = e \<and> rp_discard p = discard"
  by (auto simp: NewReverseProxy_def split: option.splits)

lemma add_destinations_safe:
  "add_destinations N G listeners seen us = Inr ds \<Longrightarrow> d \<in> set ds \<Longrightarrow> safe_proxy N listeners (de_proxy d)"
proof (induction us arbitrary: seen ds)
  case (Cons u us)
  obtain host upstream where u: "u = (host, upstream)" by (cases u)
  from Cons.prems(1) obtain e pattern p rest where
    e: "ParseBackend N upstream = Inr e" "\<not> targetsListener N e listeners" "NewReverseProxy e False = Inr p"
    and rest: "add_destinations N G listeners (ToLower host # seen) us = Inr rest"
    and ds: "ds = \<lparr>de_pattern = pattern, de_proxy = p\<rparr> # rest"
    by (auto simp: u Let_def split: if_splits sum.splits)
  have "safe_proxy N listeners p" using e(1,2) NewReverseProxy_target [OF e(3)] by (auto simp: safe_proxy_def)
  with Cons.IH [OF rest] Cons.prems(2) ds show ?case by auto
qed simp

lemma NewEgress_safe:
  assumes "NewEgress N G c = Inr eg" "d \<in> set (eg_destinations eg)"
  shows "safe_proxy N (eg_listeners eg) (de_proxy d)"
  using assms add_destinations_safe by (fastforce simp: NewEgress_def egressDestinations_def Let_def split: if_splits)

text \<open>
  C16. Reference traffic never loops: whatever its host, a request is forwarded, if at all, to a parsed
  backend that does not target the reference, candidate or health listener.
\<close>

theorem egress_never_loops:
  assumes "NewEgress N G c = Inr eg" "egress_upstream N G eg request = Some p"
  shows "(\<exists>v. ParseBackend N v = Inr (rp_target p))
    \<and> (\<forall>l \<in> set [ec_referenceListen c, ec_candidateListen c, ec_healthListen c]. \<not> TargetsListener N (rp_target p) (ParseListen l))"
proof -
  have listeners: "eg_listeners eg = map ParseListen [ec_referenceListen c, ec_candidateListen c, ec_healthListen c]"
    using assms(1) by (auto simp: NewEgress_def Let_def split: if_splits)
  have "safe_proxy N (eg_listeners eg) p"
  proof (cases "egress_destination G eg (mr_host request)")
    case None
    then show ?thesis using assms(2)
      by (auto simp: egress_upstream_def safe_proxy_def dest!: NewReverseProxy_target split: sum.splits if_splits)
  next
    case (Some p')
    then have "p' = p" using assms(2) by (simp add: egress_upstream_def)
    with Some obtain d where "d \<in> set (eg_destinations eg)" "de_proxy d = p"
      by (auto simp: egress_destination_def find_Some_iff in_set_conv_nth)
    with NewEgress_safe [OF assms(1)] show ?thesis by blast
  qed
  then show ?thesis by (auto simp: safe_proxy_def targetsListener_def listeners)
qed


text \<open>
  C15. Both sides identify a request alike: when the reference's body has been forwarded through the tee
  to its end, in whatever portions, and the candidate sends the same request, both payloads are
  the same message or the same error, so both requests have one hash. This holds for bodies over
  the limit too, which neither side decodes.
\<close>

theorem requests_identified_alike:
  assumes "0 \<le> eg_maxBodyBytes eg" "egress_destination G eg (mr_host request) \<noteq> None"
    and "tee_reads (\<lambda>data c. Some (Inr (capture_append data c))) (\<lambda>err c. Some (Inr (capture_closeWriter err c)))
      (map (\<lambda>d. (d, None)) ds @ [(d, Some EOF)]) (False, newRequestCapture (eg_maxBodyBytes eg)) = Some (Inr (xs, ended, captured))"
  shows "reference_payload M L dec G eg (newMessageRequest request) captured None pick
    = Some (candidate_payload M L dec G eg request (concat ds @ d, None))"
proof -
  define b where "b = concat ds @ d"
  let ?n = "eg_maxBodyBytes eg"
  have wait: "capture_wait captured None pick = Some (Inr (take (nat ?n) b, int (length b) > ?n))"
    using capture_exact [OF assms(1), of ds d pick] assms(3) by (auto simp: b_def)
  let ?sent = "(newMessageRequest request)\<lparr>mr_body := take (nat ?n) b, mr_overflow := int (length b) > ?n\<rparr>"
  have host: "mr_host (newMessageRequest request) = mr_host request" by (simp add: newMessageRequest_def)
  have "reference_payload M L dec G eg (newMessageRequest request) captured None pick = Some (Decoder_Request M L dec ?sent)"
    using assms(2) by (auto simp: reference_payload_def host wait bind_returns_def)
  moreover have "length (take (nat ?n + 1) b) > nat ?n \<longleftrightarrow> int (length b) > ?n" "take (nat ?n) (take (nat ?n + 1) b) = take (nat ?n) b"
    using assms(1) by (auto simp: min_def)
  then have "candidate_payload M L dec G eg request (b, None) = Decoder_Request M L dec ?sent"
    using assms(2) by (simp only: candidate_payload_def read_limited_def Let_def prod.case option.case sum.case if_False)
  ultimately show ?thesis by (simp add: b_def)
qed

text \<open>
  Draining is complete: after \<open>stop\<close>, \<open>drain\<close> returns without an error, unless its context ends, exactly when
  no candidate request is live and no reference request is being hashed, and waits otherwise.
\<close>

lemma egress_drain_exact:
  assumes "0 < n" "reach (NewCandidates n) cand_step c" "close_candidates (snd (egress_stop (h, c))) = (idle, c1)" "reach c1 cand_step c'"
    and "reach (egress_init window) egress_step s"
  shows "egress_drain c' idle (es_queue s) (eq_idle (es_queue s)) None pick pick'
    = (if ca_runs c' = [] \<and> es_jobs s = [] then Some (Inr ()) else None)"
proof -
  have "reach (NewCandidates n) cand_step (snd (egress_stop (h, c)))"
    using reach_step [OF assms(2) step_close] by (simp add: egress_stop_def)
  from Shutdown_waits_for_runs [OF assms(1) this assms(3,4)]
  have "Shutdown_wait c' idle None pick = (if ca_runs c' = [] then Some (Inr ()) else None)" .
  moreover have "shutdown_wait (es_queue s) (eq_idle (es_queue s)) None pick' = (if es_jobs s = [] then Some (Inr ()) else None)"
    using shutdown_waits_for_hashing_cases(1) [OF assms(5), of pick'] by (auto simp: shutdown_wait_def split: if_splits)
  ultimately show ?thesis by (simp add: egress_drain_def)
qed

subsection \<open>Witnesses\<close>

text \<open>Globs without wildcards, one destination, three sockets.\<close>

definition exact_glob :: "string glob" where
  "exact_glob = \<lparr>gl_compile = Inr, gl_match = (=)\<rparr>"

definition sample_egress_config :: egress_config where
  "sample_egress_config =
     \<lparr>ec_referenceListen = ''unix:/r'', ec_candidateListen = ''unix:/c'', ec_healthListen = ''unix:/h'',
      ec_destinations = [(''h'', ''http://api:80'')], ec_recordingBufferBytes = 8,
      ec_config = \<lparr>sc_readHeaderTimeout = 1, sc_idleTimeout = 1, sc_shutdownTimeout = 1, sc_maxInFlightRequests = 2,
        sc_maxConnections = 2, sc_maxHeaderBytes = 64, sc_comparisonMaxBodyBytes = 2, sc_candidates = 1\<rparr>\<rparr>"

definition sample_proxy :: reverse_proxy where
  "sample_proxy =
     \<lparr>rp_target = newEndpoint networkTCP ''api:80'' (Some (plain_url ''http'' ''api:80'')) False 80,
      rp_url = plain_url ''http'' ''api:80'', rp_discard = False\<rparr>"

definition sample_egress :: "string egress" where
  "sample_egress =
     \<lparr>eg_destinations = [\<lparr>de_pattern = ''h'', de_proxy = sample_proxy\<rparr>],
      eg_listeners = [ParseListen ''unix:/r'', ParseListen ''unix:/c'', ParseListen ''unix:/h''],
      eg_maxRequests = 2, eg_maxBodyBytes = 2\<rparr>"

lemma sample_NewEgress: "NewEgress sample_net exact_glob sample_egress_config = Inr sample_egress"
  by code_simp

lemma sample_destination: "egress_destination exact_glob sample_egress (mr_host sample_request) = Some sample_proxy"
  by code_simp

theorem egress_never_loops_witness:
  "egress_upstream sample_net exact_glob sample_egress sample_request = Some sample_proxy
    \<and> \<not> TargetsListener sample_net (rp_target sample_proxy) (ParseListen ''unix:/c'')"
proof
  show up: "egress_upstream sample_net exact_glob sample_egress sample_request = Some sample_proxy"
    by (simp add: egress_upstream_def sample_destination)
  show "\<not> TargetsListener sample_net (rp_target sample_proxy) (ParseListen ''unix:/c'')"
    using egress_never_loops [OF sample_NewEgress up] by (simp add: sample_egress_config_def)
qed

text \<open>A body one byte over the limit, forwarded in two portions.\<close>

theorem requests_identified_alike_witness:
  "\<exists>xs ended captured. tee_reads (\<lambda>data c. Some (Inr (capture_append data c))) (\<lambda>err c. Some (Inr (capture_closeWriter err c)))
      (map (\<lambda>d. (d, None)) [''ab''] @ [(''c'', Some EOF)]) (False, newRequestCapture 2) = Some (Inr (xs, ended, captured))
    \<and> reference_payload plain_mux sample_libs sample_decoder exact_glob sample_egress (newMessageRequest sample_request) captured None True
        = Some (candidate_payload plain_mux sample_libs sample_decoder exact_glob sample_egress sample_request (''abc'', None))"
proof -
  have limit: "eg_maxBodyBytes sample_egress = 2" by (simp add: sample_egress_def)
  from capture_exact [of 2 "[''ab'']" "''c''"] obtain xs captured where
    run: "tee_reads (\<lambda>data c. Some (Inr (capture_append data c))) (\<lambda>err c. Some (Inr (capture_closeWriter err c)))
      (map (\<lambda>d. (d, None)) [''ab''] @ [(''c'', Some EOF)]) (False, newRequestCapture 2) = Some (Inr (xs, True, captured))"
    by fastforce
  have "egress_destination exact_glob sample_egress (mr_host sample_request) \<noteq> None" by (simp add: sample_destination)
  from requests_identified_alike [OF _ this, unfolded limit, OF _ run] run show ?thesis by fastforce
qed

end
