(* ===== verification/Spec2Isabelle.thy ===== *)
theory Spec2Isabelle
  imports Spectre_Prelude Spectre_Model Future_Value Candidate_Admission Json_Document Payload_Schema
    Payload_Diff Script_Rules Payload_Normaliser Comparison_Scripts Ingress_Pairs Egress_Queue
    Migration_State State_Storage Wire_Format Mirror_Service Body_Stream Route_Matcher Message_Decoder Net_Address Http_Ingress
    Reverse_Proxy Http_Egress
begin

text \<open>
  SPECTRE mirrors the traffic of a reference service to a candidate, its intended replacement, and
  compares what both do. A mirror runs beside the two services. Its ingress proxy serves every
  request from the reference and, in the background, sends a copy to the candidate and compares the
  responses; its egress proxy forwards the reference's own requests to its dependencies, records the
  answers and replays them to the candidate, which never reaches a dependency. The first divergence
  quarantines the candidate: it gets no more traffic. A mirror reports its state to a SPECTRE server.

  \<^bold>\<open>The parts and the theories.\<close> Paths are below \<open>internal/\<close>; definitions keep the names of the
  functions they translate, with the receiver's type first where two would clash. Structs are
  records, constants and tagged unions datatypes, errors values (\<open>'a result\<close>), and a panic or a block
  has a value of its own wherever it can happen.

  \<^item> \<open>Spectre_Prelude\<close>: results, Go's quoting and joining of text, numbers in decimal, reachability
    and the locale \<open>invariant_system\<close>, in which a preserved predicate becomes an invariant.
  \<^item> \<open>Spectre_Model\<close> (\<open>model\<close>): traffic, reasons, differences, states and updates. \<open>Future_Value\<close>
    (\<open>future\<close>): a value that is set once and waited for.
  \<^item> \<open>Candidate_Admission\<close> (\<open>proxy/candidates.go\<close>, \<open>calls.go\<close>): the live runs of the candidate, its
    quarantine, shutdown, call counts. Each definition is one critical section and \<open>cand_step\<close> their
    interleaving.
  \<^item> \<open>Json_Document\<close>, \<open>Payload_Schema\<close>, \<open>Payload_Diff\<close>, \<open>Payload_Normaliser\<close>
    (\<open>comparison/internal\<close>, \<open>schema/schema.go\<close>): payloads as the normalisers edit them, their types and
    validation, the structural difference, and the application of normalisers.
  \<^item> \<open>Script_Rules\<close>, \<open>Comparison_Scripts\<close> (\<open>comparison/javascript\<close>, \<open>comparison/scripts.go\<close>): which rule
    applies to a response, what scripts may return, and the comparison of two messages.
  \<^item> \<open>Ingress_Pairs\<close>, \<open>Egress_Queue\<close> (\<open>protocol\<close>): the engine. A pair of exchanges per request on the
    ingress side; on the egress side a queue of references and waiting candidates per request hash.
    \<open>ingress_step\<close> and \<open>egress_step\<close> interleave the critical sections of all handlers.
  \<^item> \<open>Migration_State\<close> (\<open>state\<close>): the catalog of IO kinds, the checks of a service's migration state
    and the walk over its dependencies.
  \<^item> \<open>Body_Stream\<close> (\<open>proxy/budget.go\<close>, \<open>httpserver/body.go\<close>, \<open>recording.go\<close>): request bodies that
    follow the reference's at the candidate's pace, captured bodies, recorded responses, and the
    budgets of bytes they share.
  \<^item> \<open>Route_Matcher\<close>, \<open>Message_Decoder\<close> (\<open>httpserver/route\<close>, \<open>message\<close>, \<open>codec\<close>,
    \<open>protocol/engine.go\<close>): the declared endpoints and rules, and the decoding of requests and responses
    in JSON, Connect, gRPC and protobuf, with the binding of path and query parameters.
  \<^item> \<open>Net_Address\<close> (\<open>netaddr\<close>), \<open>Reverse_Proxy\<close> (\<open>httpserver/reverse.go\<close>, \<open>middleware/health\<close>): backends
    and listeners, the checks against loops, what is sent to a backend, probes.
  \<^item> \<open>Http_Ingress\<close>, \<open>Http_Egress\<close> (\<open>httpserver/ingress.go\<close>, \<open>egress.go\<close>, \<open>point.go\<close> and their
    configuration): the two proxies. The state \<open>http_ingress\<close> holds the engine of \<open>Ingress_Pairs\<close>, the
    candidates of \<open>Candidate_Admission\<close>, and how far each handler and each mirror has got; \<open>http_step\<close>
    runs one section of one of them. The decoder and the routes are those of the theories above.
  \<^item> \<open>State_Storage\<close>, \<open>Wire_Format\<close>, \<open>Mirror_Service\<close> (\<open>server\<close>): the stores in memory and in Redis,
    the messages, and the service with the reporter that talks to it.

  \<^bold>\<open>What is shown.\<close> Numbers are those of the claims in the theories.

  \<^item> Fail closed: whatever is not equivalent or deliberately not compared quarantines (C1 to C3); a
    quarantine is permanent (C8) and names the node to fix (C14).
  \<^item> Isolation: the reference never waits for the candidate (C11), only migrated routes are mirrored
    (C10), candidate requests are never sent on (C12), a recorded response is replayed at most once, in
    order of arrival (C5, C6), both sides identify a request alike (C15), nothing loops (C16, C40), and
    clients cannot forge forwarding headers (C17).
  \<^item> Resources: nothing leaks (C4, C13), runs and buffers stay within their limits (C9, C36), deliveries
    never block (C7), bodies arrive in order (C35).
  \<^item> Comparison: validation, difference and normalisation agree with declarative definitions (C27, C29,
    C30, C33), what is decoded conforms to its type (C38, C39), errors and paths carry no value of a
    payload (C28, C31), scripts return checked responses (C34), rules are chosen as declared (C37). The
    bound on the number of differences does not hold for missing members (C32).
  \<^item> State: what parses is well formed (C22), the searches over dependencies are exact and terminate on
    cyclic states too (C23, C24).
  \<^item> Reports: what a mirror reports is what is stored and listed (C18, C25, C26); the stores implement one
    specification, also between concurrent servers (C19, C20), and what was cleared stays cleared (C21).

  \<^bold>\<open>Interfaces.\<close> \<open>invariant_system\<close> is interpreted for candidates, both engine sides and the HTTP
  ingress. \<open>store\<close> is the contract of \<open>storage.Store\<close>; memory interprets it and \<open>redis_server\<close>, what the
  Redis commands promise, yields it by a sublocale, itself interpreted by a table. \<open>budget_client\<close> is
  what the users of a budget keep (stream bodies and recordings), \<open>body_sink\<close> what receives a copy of a
  body (streams, captures and recordings).

  \<^bold>\<open>Loops.\<close> No definition runs on fuel. Loops over lists and payloads are structural; the depth-first
  search terminates by the nodes that are not on its path, the binary search by its interval, and the
  retries of Redis transactions run over the list of what other servers do in between. The walk over
  dependencies is a partial function, and that it returns is part of C23.

  \<^bold>\<open>Parameters.\<close> Third-party code is an argument: the JavaScript runtime (\<open>evaluations\<close>), the standard
  multiplexer (\<open>serve_mux\<close>, with \<open>mux_ok\<close>), protobuf, gzip and JSON libraries (\<open>libs\<close>), the weighted
  semaphore (\<open>weighted\<close>), URL and address parsers (\<open>net_libs\<close>, with \<open>addr_ok\<close>), globs (\<open>glob\<close>), the TOML
  decoder's document and the Redis server. Theorems that rely on what such code promises state it, and
  are accompanied by an instance for which it holds. Clocks, fresh identifiers, the winner of a
  \<open>select\<close> and the state of a context are arguments of the sections that read them.

  \<^bold>\<open>Not modelled.\<close> Serving and dialling (\<open>httpserver/serve.go\<close>, \<open>transport.go\<close>, middlewares other than
  health), the assembly of a mirror (\<open>proxies\<close>) and the command line are glue around the parts above.
  The supervisor and containment are system calls. Compiling scripts and reading their types
  (\<open>typescript\<close>, \<open>schema/parse.go\<close>, \<open>comparison/javascript/compile.go\<close>) and loading descriptors
  (\<open>descriptors\<close>) drive third-party compilers and libraries; \<open>jsonschema\<close> and \<open>scaffold\<close> only write files
  for authors. Logging, the sample service and generated code decide nothing. Time-outs appear as
  contexts that end, not as durations.
\<close>

end
